(* ===== verification/Prelude.thy ===== *)
theory Prelude
  imports Main "HOL-Library.Word"
begin

text \<open>
  Shared vocabulary of the development: the Rust core types the crates are written with
  (\<open>Poll\<close>, \<open>Result\<close>, \<open>usize\<close>, \<open>u8\<close>), panics as values, a few I/O error kinds, the
  collections of facts the components share, and generic lemmas on lists and words.

  Conventions.  A Rust \<open>Result<T, E>\<close> is \<open>('t, 'e) result\<close>; an operation that may panic returns
  \<open>('t, panic) result\<close>, so that every index out of range, failed assertion and \<open>unwrap\<close> of
  \<open>None\<close> is a branch of the model.  A loop that may run forever is a
  \<^theory_text>\<open>partial_function (option)\<close>; \<^term>\<open>None\<close> is then a computation that does not return.
\<close>

section \<open>Polls, results and panics\<close>

datatype 'a poll = Pending | Ready 'a

datatype ('t, 'e) result = Ok 't | Err 'e

datatype panic = IndexOutOfBounds | ArithOverflow | DivisionByZero | UnwrapNone | AssertFailed | ExplicitPanic

text \<open>The \<open>io::ErrorKind\<close> values the modelled code creates or inspects; \<open>OtherKind n\<close> stands
  for every other kind the operating system may report.\<close>

datatype io_error = InvalidData | InvalidInput | WriteZero | WouldBlock | Interrupted | NotFound
  | ConnectionRefused | ConnectionAborted | ConnectionReset | OtherKind nat

fun is_ready :: "'a poll \<Rightarrow> bool" where
  "is_ready Pending = False"
| "is_ready (Ready x) = True"

fun is_ok :: "('t, 'e) result \<Rightarrow> bool" where
  "is_ok (Ok x) = True"
| "is_ok (Err e) = False"

fun map_result :: "('a \<Rightarrow> 'b) \<Rightarrow> ('a, 'e) result \<Rightarrow> ('b, 'e) result" where
  "map_result f (Ok x) = Ok (f x)"
| "map_result f (Err e) = Err e"

fun map_err_result :: "('e \<Rightarrow> 'g) \<Rightarrow> ('a, 'e) result \<Rightarrow> ('a, 'g) result" where
  "map_err_result f (Ok x) = Ok x"
| "map_err_result f (Err e) = Err (f e)"

fun bind_result :: "('a, 'e) result \<Rightarrow> ('a \<Rightarrow> ('b, 'e) result) \<Rightarrow> ('b, 'e) result" where
  "bind_result (Ok x) f = f x"
| "bind_result (Err e) f = Err e"

lemma is_ok_iff: "is_ok r \<longleftrightarrow> (\<exists>x. r = Ok x)"
  by (cases r) auto

lemma is_ready_iff: "is_ready p \<longleftrightarrow> (\<exists>x. p = Ready x)"
  by (cases p) auto

lemma bind_result_Ok_iff: "bind_result r f = Ok y \<longleftrightarrow> (\<exists>x. r = Ok x \<and> f x = Ok y)"
  by (cases r) auto

text \<open>A future or another source that is polled, as the list of its answers; one that has run out
  answers \<open>Pending\<close>.  What it gives in the end is its first ready answer.\<close>

definition next_answer :: "'a poll list \<Rightarrow> 'a poll \<times> 'a poll list" where
  "next_answer s = (case s of [] \<Rightarrow> (Pending, []) | a # s' \<Rightarrow> (a, s'))"

fun first_ready :: "'a poll list \<Rightarrow> 'a option" where
  "first_ready [] = None"
| "first_ready (Ready t # f) = Some t"
| "first_ready (Pending # f) = first_ready f"

text \<open>A future that completes with \<open>r\<close> after \<open>n\<close> pending polls.\<close>

definition completing :: "nat \<Rightarrow> 'a \<Rightarrow> 'a poll list" where
  "completing n r = replicate n Pending @ [Ready r]"

lemma first_ready_completing [simp]: "first_ready (completing n r) = Some r"
  by (induction n) (simp_all add: completing_def)

section \<open>Machine integers\<close>

type_synonym usize = "64 word"
type_synonym u8 = "8 word"
type_synonym u16 = "16 word"

abbreviation usize_max :: usize where
  "usize_max \<equiv> - 1"

text \<open>\<open>usize::saturating_add\<close> and \<open>usize::checked_add\<close>.\<close>

definition saturating_add :: "usize \<Rightarrow> usize \<Rightarrow> usize" where
  "saturating_add a b = (if unat a + unat b < 2 ^ 64 then a + b else usize_max)"

definition checked_add :: "usize \<Rightarrow> usize \<Rightarrow> usize option" where
  "checked_add a b = (if unat a + unat b < 2 ^ 64 then Some (a + b) else None)"

lemma unat_usize_max: "unat usize_max = 2 ^ 64 - 1"
  by (simp add: unsigned_minus_1_eq_mask mask_eq_exp_minus_1)

lemma unat_saturating_add:
  "unat (saturating_add a b) = min (unat a + unat b) (2 ^ 64 - 1)"
proof (cases "unat a + unat b < 2 ^ 64")
  case True
  then have "unat (a + b) = unat a + unat b"
    by (simp add: unat_word_ariths)
  with True show ?thesis by (simp add: saturating_add_def)
next
  case False
  then show ?thesis by (simp add: saturating_add_def unat_usize_max)
qed

lemma unat_lt_64: "unat (a :: usize) < 2 ^ 64"
  using unsigned_less [of a] by simp

section \<open>Collections of facts\<close>

named_theorems step_defs \<open>definitions of the handlers and their helpers, for unfolding a step\<close>
named_theorems inv_intros \<open>operations that keep an invariant\<close>
named_theorems frame_simps \<open>fields an operation leaves alone\<close>

section \<open>Lists\<close>

lemma take_add_drop: "take n (xs @ ys) = take n xs @ take (n - length xs) ys"
  by simp

lemma last_take_Suc: "n < length xs \<Longrightarrow> last (take (Suc n) xs) = xs ! n"
  by (simp add: take_Suc_conv_app_nth)

lemma nth_last: "xs \<noteq> [] \<Longrightarrow> xs ! (length xs - 1) = last xs"
  by (simp add: last_conv_nth)

lemma takeWhile_append_none: "\<forall>x \<in> set xs. P x \<Longrightarrow> takeWhile P (xs @ ys) = xs @ takeWhile P ys"
  by (simp add: takeWhile_append2)

lemma length_takeWhile_less: "\<exists>x \<in> set xs. \<not> P x \<Longrightarrow> length (takeWhile P xs) < length xs"
  by (induction xs) auto

end
