(* ===== verification/Availability.thy ===== *)
theory Availability
  imports Prelude
begin

unbundle bit_operations_syntax

text \<open>
  \<open>actix-server/src/availability.rs\<close>: the accept thread's cache of which workers have capacity,
  an array of four \<open>u128\<close> with one bit per worker index.  \<open>offset\<close> panics from index 512 on, and
  so do the two operations that call it.  The array type \<open>[u128; 4]\<close> is a list of words of
  length four (\<open>wf_avail\<close>); \<open>avail_bit\<close> is its abstraction, the characteristic function of the
  set of available workers.
\<close>

section \<open>The bit array\<close>

type_synonym availability = "128 word list"

definition MAX_WORKERS :: nat where
  "MAX_WORKERS = 512"

definition default_avail :: availability where
  "default_avail = replicate (MAX_WORKERS div 128) 0"

definition available :: "availability \<Rightarrow> bool" where
  "available a = list_ex (\<lambda>w. w \<noteq> 0) a"

definition offset :: "nat \<Rightarrow> (nat \<times> nat, panic) result" where
  "offset idx =
     (if idx < 128 then Ok (0, idx)
      else if idx < 128 * 2 then Ok (1, idx - 128)
      else if idx < 128 * 3 then Ok (2, idx - 128 * 2)
      else if idx < 128 * 4 then Ok (3, idx - 128 * 3)
      else Err ExplicitPanic)"

definition get_available :: "availability \<Rightarrow> nat \<Rightarrow> (bool, panic) result" where
  "get_available a idx =
     (case offset idx of
        Err p \<Rightarrow> Err p
      | Ok (off, i) \<Rightarrow> Ok ((a ! off) AND push_bit i 1 \<noteq> 0))"

definition set_available :: "availability \<Rightarrow> nat \<Rightarrow> bool \<Rightarrow> (availability, panic) result" where
  "set_available a idx avail =
     (case offset idx of
        Err p \<Rightarrow> Err p
      | Ok (off, i) \<Rightarrow>
          (let b = push_bit i 1 in
           if avail then Ok (a[off := (a ! off) OR b])
           else Ok (a[off := (a ! off) AND NOT b])))"

text \<open>\<open>set_available_all\<close> walks the handles and marks each handle's index; the model takes the
  list of these indices.\<close>

fun set_available_all :: "availability \<Rightarrow> nat list \<Rightarrow> (availability, panic) result" where
  "set_available_all a [] = Ok a"
| "set_available_all a (i # is) =
     (case set_available a i True of Err p \<Rightarrow> Err p | Ok a' \<Rightarrow> set_available_all a' is)"

section \<open>Abstraction\<close>

definition wf_avail :: "availability \<Rightarrow> bool" where
  "wf_avail a \<longleftrightarrow> length a = 4"

definition avail_bit :: "availability \<Rightarrow> nat \<Rightarrow> bool" where
  "avail_bit a i \<longleftrightarrow> i < MAX_WORKERS \<and> bit (a ! (i div 128)) (i mod 128)"

lemma offset_eq: "offset idx = (if idx < MAX_WORKERS then Ok (idx div 128, idx mod 128) else Err ExplicitPanic)"
proof -
  consider "idx < 128" | "128 \<le> idx" "idx < 256" | "256 \<le> idx" "idx < 384"
    | "384 \<le> idx" "idx < 512" | "512 \<le> idx"
    by linarith
  then show ?thesis
  proof cases
    case 2
    then have "idx div 128 = 1" by simp
    with 2 show ?thesis by (simp add: offset_def MAX_WORKERS_def modulo_nat_def)
  next
    case 3
    then have "idx div 128 = 2" by simp
    with 3 show ?thesis by (simp add: offset_def MAX_WORKERS_def modulo_nat_def)
  next
    case 4
    then have "idx div 128 = 3" by simp
    with 4 show ?thesis by (simp add: offset_def MAX_WORKERS_def modulo_nat_def)
  qed (simp_all add: offset_def MAX_WORKERS_def)
qed

lemma offset_div_lt: "idx < MAX_WORKERS \<Longrightarrow> idx div 128 < 4"
  by (simp add: MAX_WORKERS_def)

lemma get_available_eq:
  "get_available a i = (if i < MAX_WORKERS then Ok (avail_bit a i) else Err ExplicitPanic)"
  by (simp add: get_available_def offset_eq avail_bit_def push_bit_eq_mult and_exp_eq_0_iff_not_bit)

lemma set_available_eq:
  "set_available a i v =
     (if i < MAX_WORKERS
      then Ok (a[i div 128 := (if v then set_bit else unset_bit) (i mod 128) (a ! (i div 128))])
      else Err ExplicitPanic)"
  by (simp add: set_available_def offset_eq Let_def set_bit_eq_or unset_bit_eq_and_not)

lemma set_available_wf: "wf_avail a \<Longrightarrow> set_available a i v = Ok a' \<Longrightarrow> wf_avail a'"
  by (auto simp: set_available_eq wf_avail_def split: if_splits)

lemma avail_bit_set:
  assumes "wf_avail a" and "set_available a i v = Ok a'"
  shows "avail_bit a' j = (if j = i then v else avail_bit a j)"
proof (cases "j < MAX_WORKERS \<and> j div 128 = i div 128")
  case True
  have "j mod 128 = i mod 128 \<longleftrightarrow> j = i"
    using True by (metis div_mult_mod_eq)
  with True assms show ?thesis
    by (auto simp: avail_bit_def set_available_eq wf_avail_def MAX_WORKERS_def bit_simps
        split: if_splits)
next
  case False
  with assms show ?thesis
    by (auto simp: avail_bit_def set_available_eq wf_avail_def split: if_splits)
qed

lemma default_avail_wf: "wf_avail default_avail"
  by (simp add: wf_avail_def default_avail_def MAX_WORKERS_def)

lemma avail_bit_default: "\<not> avail_bit default_avail i"
proof -
  have "i < 512 \<Longrightarrow> i div 128 < 4" by simp
  then show ?thesis by (auto simp: avail_bit_def default_avail_def MAX_WORKERS_def)
qed

lemma available_iff:
  assumes "wf_avail a"
  shows "available a \<longleftrightarrow> (\<exists>i. avail_bit a i)"
proof
  assume "available a"
  then obtain k where k: "k < 4" "a ! k \<noteq> 0"
    using assms by (auto simp: available_def list_ex_length wf_avail_def)
  then obtain n where n: "bit (a ! k) n" by (auto simp: bit_eq_iff)
  then have "n < 128" using bit_imp_le_length [of "a ! k" n] by simp
  with k n have "avail_bit a (128 * k + n)"
    by (simp add: avail_bit_def MAX_WORKERS_def)
  then show "\<exists>i. avail_bit a i" ..
next
  assume "\<exists>i. avail_bit a i"
  then obtain i where i: "i < MAX_WORKERS" "bit (a ! (i div 128)) (i mod 128)"
    by (auto simp: avail_bit_def)
  then have "i div 128 < length a" "a ! (i div 128) \<noteq> 0"
    using assms offset_div_lt [of i] by (auto simp: wf_avail_def)
  then show "available a" by (auto simp: available_def list_ex_length)
qed

section \<open>Properties\<close>

text \<open>
  After \<open>Availability::set_available\<close> the flag of the written worker is the written value and
  every other worker's flag is unchanged.
\<close>

theorem availability_get_set:
  assumes "wf_avail a" and "set_available a i v = Ok a'" and "j < MAX_WORKERS"
  shows "get_available a' j = Ok (if j = i then v else avail_bit a j)"
  using assms by (simp add: get_available_eq avail_bit_set)

theorem availability_get_set_witness:
  "get_available [0, 32, 0, 0] 133 = Ok True"
proof -
  have "set_available default_avail 133 True = Ok [0, 32, 0, 0]" by code_simp
  from availability_get_set [OF default_avail_wf this, of 133] show ?thesis
    by (simp add: MAX_WORKERS_def)
qed

end
