(* ===== verification/Local_Waker.thy ===== *)
theory Local_Waker
  imports Prelude
begin

text \<open>
  \<open>local-waker/src/lib.rs\<close>: the thread-local cell that holds the waker of at most one task.  A
  \<open>std::task::Waker\<close> is the identity of the task it wakes, and \<open>will_wake\<close> is equality of
  these identities.  Waking is an effect, the list of tasks woken.  The locale \<open>waker_cell\<close> is
  the contract the channel and the guard counter rely on.
\<close>

section \<open>The cell\<close>

type_synonym task = nat

type_synonym local_waker = "task option"

definition waker_new :: local_waker where
  "waker_new = None"

text \<open>\<open>register\<close> returns whether a waker was registered before.\<close>

definition register :: "task \<Rightarrow> local_waker \<Rightarrow> bool \<times> local_waker" where
  "register t w =
     (case w of
        Some prev \<Rightarrow> if t = prev then (True, w) else (True, Some t)
      | None \<Rightarrow> (False, Some t))"

definition take_waker :: "local_waker \<Rightarrow> task option \<times> local_waker" where
  "take_waker w = (w, None)"

definition wake :: "local_waker \<Rightarrow> task list \<times> local_waker" where
  "wake w =
     (case take_waker w of
        (Some t, w') \<Rightarrow> ([t], w')
      | (None, w') \<Rightarrow> ([], w'))"

lemma register_eq: "register t w = (w \<noteq> None, Some t)"
  by (auto simp: register_def split: option.splits)

lemma wake_eq: "wake w = ((case w of None \<Rightarrow> [] | Some t \<Rightarrow> [t]), None)"
  by (auto simp: wake_def take_waker_def split: option.splits)

section \<open>The contract of a waker cell\<close>

locale waker_cell =
  fixes new :: 'w
    and reg :: "nat \<Rightarrow> 'w \<Rightarrow> bool \<times> 'w"
    and wk :: "'w \<Rightarrow> nat list \<times> 'w"
    and waiting :: "'w \<Rightarrow> nat option"
  assumes waiting_new: "waiting new = None"
    and waiting_reg: "waiting (snd (reg t w)) = Some t"
    and reg_replaces: "fst (reg t w) \<longleftrightarrow> waiting w \<noteq> None"
    and wk_wakes: "fst (wk w) = (case waiting w of None \<Rightarrow> [] | Some t \<Rightarrow> [t])"
    and waiting_wk: "waiting (snd (wk w)) = None"
begin

lemma wake_once: "fst (wk (snd (wk w))) = []"
  by (simp add: wk_wakes waiting_wk)

lemma wake_last_registered: "fst (wk (snd (reg t (snd (reg s w))))) = [t]"
  by (simp add: wk_wakes waiting_reg)

lemma wake_before_register: "fst (wk new) = []"
  by (simp add: wk_wakes waiting_new)

text \<open>The tasks woken by any number of consecutive wakes: the waiting task, once.\<close>

primrec wakes :: "nat \<Rightarrow> 'w \<Rightarrow> nat list" where
  "wakes 0 w = []"
| "wakes (Suc n) w = fst (wk w) @ wakes n (snd (wk w))"

lemma wakes_none: "waiting w = None \<Longrightarrow> wakes n w = []"
  by (induction n arbitrary: w) (simp_all add: wk_wakes waiting_wk)

lemma wakes_exactly_once: "wakes (Suc n) (snd (reg t w)) = [t]"
  by (simp add: wk_wakes waiting_reg wakes_none waiting_wk)

end

interpretation lw: waker_cell waker_new register wake "\<lambda>w. w"
  by unfold_locales (simp_all add: waker_new_def register_eq wake_eq)

end
