(* ===== verification/Local_Channel.thy ===== *)
theory Local_Channel
  imports Local_Waker
begin

text \<open>
  \<open>local-channel/src/mpsc.rs\<close>: the thread-local unbounded channel.  \<open>Shared<T>\<close> is a record; the
  reference count of its \<open>Rc\<close> is the number of live \<open>Sender\<close> handles plus one while the
  \<open>Receiver\<close> handle lives, because these two types are the only holders.  Every operation
  returns the tasks it wakes.  The step relation \<open>chan_step\<close> interleaves the operations of any
  number of senders with the polls of the receiver, under the borrow checker's condition that an
  operation is called on a live handle; \<open>sent\<close>, \<open>got\<close> and \<open>parked\<close> are history variables.
\<close>

section \<open>Shared state and operations\<close>

record 'a chan =
  buffer :: "'a list"
  blocked_recv :: local_waker
  has_receiver :: bool
  senders :: nat
  receiver :: bool

definition strong_count :: "'a chan \<Rightarrow> nat" where
  "strong_count c = senders c + (if receiver c then 1 else 0)"

definition channel :: "'a chan" where
  "channel = \<lparr>buffer = [], blocked_recv = waker_new, has_receiver = True,
              senders = 1, receiver = True\<rparr>"

definition send :: "'a \<Rightarrow> 'a chan \<Rightarrow> (unit, 'a) result \<times> task list \<times> 'a chan" where
  "send item c =
     (if \<not> has_receiver c then (Err item, [], c)
      else
        let c1 = c\<lparr>buffer := buffer c @ [item]\<rparr>;
            (woken, w) = wake (blocked_recv c1)
        in (Ok (), woken, c1\<lparr>blocked_recv := w\<rparr>))"

definition close :: "'a chan \<Rightarrow> task list \<times> 'a chan" where
  "close c =
     (let c1 = c\<lparr>has_receiver := False\<rparr>;
          (woken, w) = wake (blocked_recv c1)
      in (woken, c1\<lparr>blocked_recv := w\<rparr>))"

definition sender_clone :: "'a chan \<Rightarrow> 'a chan" where
  "sender_clone c = c\<lparr>senders := senders c + 1\<rparr>"

text \<open>The \<open>Sink\<close> implementation of \<open>Sender\<close>.\<close>

definition sink_poll_ready :: "'a chan \<Rightarrow> (unit, 'a) result poll" where
  "sink_poll_ready c = Ready (Ok ())"

definition sink_start_send :: "'a \<Rightarrow> 'a chan \<Rightarrow> (unit, 'a) result \<times> task list \<times> 'a chan" where
  "sink_start_send item c = send item c"

definition sink_poll_flush :: "'a chan \<Rightarrow> (unit, 'a) result poll" where
  "sink_poll_flush c = Ready (Ok ())"

definition sink_poll_close :: "'a chan \<Rightarrow> (unit, 'a) result poll \<times> task list \<times> 'a chan" where
  "sink_poll_close c = (case close c of (woken, c') \<Rightarrow> (Ready (Ok ()), woken, c'))"

text \<open>\<open>Drop for Sender\<close> reads the reference count while this handle is still counted, then the
  handle goes away.\<close>

definition sender_drop :: "'a chan \<Rightarrow> task list \<times> 'a chan" where
  "sender_drop c =
     (let count = strong_count c;
          (woken, w) =
            (if has_receiver c \<and> count = 2 then wake (blocked_recv c) else ([], blocked_recv c))
      in (woken, c\<lparr>blocked_recv := w, senders := senders c - 1\<rparr>))"

text \<open>\<open>Receiver::sender\<close>.\<close>

definition receiver_sender :: "'a chan \<Rightarrow> 'a chan" where
  "receiver_sender c = c\<lparr>senders := senders c + 1\<rparr>"

definition poll_next :: "task \<Rightarrow> 'a chan \<Rightarrow> 'a option poll \<times> 'a chan" where
  "poll_next cx c =
     (let all_senders_dropped = (strong_count c = 1) in
      case buffer c of
        msg # rest \<Rightarrow> (Ready (Some msg), c\<lparr>buffer := rest\<rparr>)
      | [] \<Rightarrow>
          (if \<not> has_receiver c \<or> all_senders_dropped then (Ready None, c)
           else (Pending, c\<lparr>blocked_recv := snd (register cx (blocked_recv c))\<rparr>)))"

definition receiver_drop :: "'a chan \<Rightarrow> 'a chan" where
  "receiver_drop c = c\<lparr>buffer := [], has_receiver := False, receiver := False\<rparr>"

lemmas chan_defs [step_defs] = send_def close_def sender_clone_def sender_drop_def
  receiver_sender_def poll_next_def receiver_drop_def sink_poll_close_def sink_start_send_def

section \<open>Runs\<close>

record 'a chan_run =
  ch :: "'a chan"
  sent :: "'a list"
  got :: "'a list"
  parked :: "task option"

definition chan_init :: "'a chan_run" where
  "chan_init = \<lparr>ch = channel, sent = [], got = [], parked = None\<rparr>"

definition unpark :: "task list \<Rightarrow> task option \<Rightarrow> task option" where
  "unpark woken p = (case p of Some t \<Rightarrow> if t \<in> set woken then None else p | None \<Rightarrow> None)"

inductive chan_step :: "'a chan_run \<Rightarrow> 'a chan_run \<Rightarrow> bool" where
  step_send: "senders (ch r) > 0 \<Longrightarrow> send x (ch r) = (Ok (), woken, c') \<Longrightarrow>
     chan_step r (r\<lparr>ch := c', sent := sent r @ [x], parked := unpark woken (parked r)\<rparr>)"
| step_refused: "senders (ch r) > 0 \<Longrightarrow> send x (ch r) = (Err y, woken, c') \<Longrightarrow>
     chan_step r (r\<lparr>ch := c', parked := unpark woken (parked r)\<rparr>)"
| step_close: "senders (ch r) > 0 \<Longrightarrow> close (ch r) = (woken, c') \<Longrightarrow>
     chan_step r (r\<lparr>ch := c', parked := unpark woken (parked r)\<rparr>)"
| step_clone: "senders (ch r) > 0 \<Longrightarrow> chan_step r (r\<lparr>ch := sender_clone (ch r)\<rparr>)"
| step_sender_drop: "senders (ch r) > 0 \<Longrightarrow> sender_drop (ch r) = (woken, c') \<Longrightarrow>
     chan_step r (r\<lparr>ch := c', parked := unpark woken (parked r)\<rparr>)"
| step_receiver_sender: "receiver (ch r) \<Longrightarrow> chan_step r (r\<lparr>ch := receiver_sender (ch r)\<rparr>)"
| step_recv: "receiver (ch r) \<Longrightarrow> poll_next cx (ch r) = (Ready (Some x), c') \<Longrightarrow>
     chan_step r (r\<lparr>ch := c', got := got r @ [x], parked := None\<rparr>)"
| step_end: "receiver (ch r) \<Longrightarrow> poll_next cx (ch r) = (Ready None, c') \<Longrightarrow>
     chan_step r (r\<lparr>ch := c', parked := None\<rparr>)"
| step_block: "receiver (ch r) \<Longrightarrow> poll_next cx (ch r) = (Pending, c') \<Longrightarrow>
     chan_step r (r\<lparr>ch := c', parked := Some cx\<rparr>)"
| step_receiver_drop: "receiver (ch r) \<Longrightarrow>
     chan_step r (r\<lparr>ch := receiver_drop (ch r), parked := None\<rparr>)"

inductive chan_reachable :: "'a chan_run \<Rightarrow> bool" where
  chan_start: "chan_reachable chan_init"
| chan_next: "chan_reachable r \<Longrightarrow> chan_step r r' \<Longrightarrow> chan_reachable r'"

section \<open>Invariant\<close>

text \<open>While the receiver lives, what was accepted is what was received followed by the buffer,
  in order; a parked task is the registered one, and polling for it again would block again.\<close>

definition chan_inv :: "'a chan_run \<Rightarrow> bool" where
  "chan_inv r \<longleftrightarrow>
     (receiver (ch r) \<longrightarrow> sent r = got r @ buffer (ch r)) \<and>
     (\<not> receiver (ch r) \<longrightarrow> \<not> has_receiver (ch r) \<and> buffer (ch r) = [] \<and> parked r = None) \<and>
     (\<exists>lost. sent r = got r @ buffer (ch r) @ lost) \<and>
     (\<forall>t. parked r = Some t \<longrightarrow>
        blocked_recv (ch r) = Some t \<and> buffer (ch r) = [] \<and> has_receiver (ch r) \<and>
        senders (ch r) > 0)"

lemma chan_inv_init: "chan_inv chan_init"
  by (simp add: chan_inv_def chan_init_def channel_def)

lemma chan_step_inv: "chan_step r r' \<Longrightarrow> chan_inv r \<Longrightarrow> chan_inv r'"
proof (induction rule: chan_step.induct)
  case (step_sender_drop r woken c')
  then show ?case
    by (auto simp: chan_inv_def sender_drop_def strong_count_def wake_eq unpark_def Let_def
        split: if_splits option.splits)
next
  case (step_receiver_drop r)
  then show ?case by (force simp: chan_inv_def receiver_drop_def)
next
  case (step_recv r cx x c')
  then show ?case
    by (fastforce simp: chan_inv_def poll_next_def Let_def split: list.splits if_splits)
qed (auto simp: chan_inv_def send_def close_def wake_eq unpark_def poll_next_def register_eq
      sender_clone_def receiver_sender_def strong_count_def Let_def
      split: if_splits option.splits list.splits)

lemma chan_reachable_inv: "chan_reachable r \<Longrightarrow> chan_inv r"
  by (induction rule: chan_reachable.induct) (auto intro: chan_inv_init chan_step_inv)

section \<open>Properties\<close>

text \<open>
  C35. First in, first out: in every interleaving of senders and receiver, while the receiver
  lives, the messages accepted by \<open>send\<close> are exactly the ones received so far followed by the
  buffered ones, in the order they were sent.
\<close>

theorem chan_fifo:
  assumes "chan_reachable r" and "receiver (ch r)"
  shows "sent r = got r @ buffer (ch r)"
  using chan_reachable_inv [OF assms(1)] assms(2) by (simp add: chan_inv_def)

text \<open>A run of one send and one receive, for the witnesses.\<close>

definition chan_run1 :: "nat chan_run" where
  "chan_run1 = chan_init\<lparr>ch := channel\<lparr>buffer := [7]\<rparr>, sent := [7]\<rparr>"

lemma chan_run1_reachable: "chan_reachable chan_run1"
proof -
  have "send 7 (ch chan_init) = (Ok (), [], channel\<lparr>buffer := [7 :: nat]\<rparr>)"
    by (simp add: chan_init_def channel_def send_def wake_eq waker_new_def)
  from step_send [OF _ this] have "chan_step chan_init chan_run1"
    by (simp add: chan_init_def channel_def chan_run1_def unpark_def)
  then show ?thesis using chan_next [OF chan_start] by metis
qed

theorem chan_fifo_witness: "sent chan_run1 = got chan_run1 @ buffer (ch chan_run1) \<and> sent chan_run1 = [7]"
  using chan_fifo [OF chan_run1_reachable] by (simp add: chan_run1_def chan_init_def channel_def)

text \<open>
  C13. No lost wake-up: if a receiving task was told \<open>Pending\<close> and no operation has woken it since,
  then polling again still gives \<open>Pending\<close>: every send, close or drop of the last sender that
  could make the receiver ready has woken it.
\<close>

theorem chan_no_lost_wakeup:
  assumes "chan_reachable r" and "parked r = Some t"
  shows "fst (poll_next cx (ch r)) = Pending"
  using chan_reachable_inv [OF assms(1)] assms(2)
  by (auto simp: chan_inv_def poll_next_def strong_count_def)

definition chan_run2 :: "nat chan_run" where
  "chan_run2 = chan_init\<lparr>ch := channel\<lparr>blocked_recv := Some 3\<rparr>, parked := Some 3\<rparr>"

lemma chan_run2_reachable: "chan_reachable chan_run2"
proof -
  have "chan_step chan_init (chan_init\<lparr>ch := channel\<lparr>blocked_recv := Some 3\<rparr>, parked := Some 3\<rparr>)"
    by (rule step_block)
      (simp_all add: chan_init_def channel_def poll_next_def strong_count_def register_eq)
  then show ?thesis using chan_next [OF chan_start] by (simp add: chan_run2_def)
qed

theorem chan_no_lost_wakeup_witness: "fst (poll_next 9 (ch chan_run2)) = Pending"
  by (rule chan_no_lost_wakeup [OF chan_run2_reachable, of 3]) (simp add: chan_run2_def)

text \<open>Polling until the channel says something other than a message.\<close>

fun drain :: "nat \<Rightarrow> task \<Rightarrow> 'a chan \<Rightarrow> 'a list \<times> 'a option poll" where
  "drain 0 cx c = ([], Pending)"
| "drain (Suc n) cx c =
     (case poll_next cx c of
        (Ready (Some x), c') \<Rightarrow> (case drain n cx c' of (xs, e) \<Rightarrow> (x # xs, e))
      | (e, c') \<Rightarrow> ([], e))"

lemma drain_closed:
  "\<not> has_receiver c \<Longrightarrow> length (buffer c) < n \<Longrightarrow> drain n cx c = (buffer c, Ready None)"
proof (induction n arbitrary: c)
  case (Suc n)
  show ?case
  proof (cases "buffer c")
    case Nil
    with Suc.prems show ?thesis by (simp add: poll_next_def)
  next
    case (Cons x xs)
    then have "poll_next cx c = (Ready (Some x), c\<lparr>buffer := xs\<rparr>)" by (simp add: poll_next_def)
    moreover have "drain n cx (c\<lparr>buffer := xs\<rparr>) = (xs, Ready None)"
      using Suc.IH [of "c\<lparr>buffer := xs\<rparr>"] Suc.prems Cons by simp
    ultimately show ?thesis using Cons by simp
  qed
qed simp

text \<open>
  Closing: after \<open>Sender::close\<close> every further \<open>send\<close>, by any sender, gives its item back and
  changes nothing, and the receiver still gets every buffered message, then the end of the stream.
\<close>

theorem chan_close_drains:
  "(case close c of (woken, c') \<Rightarrow>
      send x c' = (Err x, [], c') \<and> send x (receiver_sender c') = (Err x, [], receiver_sender c') \<and>
      drain (Suc (length (buffer c))) cx c' = (buffer c, Ready None))"
  using drain_closed [of "snd (close c)" "Suc (length (buffer c))" cx]
  by (auto simp: close_def send_def receiver_sender_def wake_eq split: prod.splits)

end
