(* ===== verification/Utils_Counter.thy ===== *)
theory Utils_Counter
  imports Local_Waker
begin

text \<open>
  \<open>actix-utils/src/counter.rs\<close>: the guard counter that bounds concurrent work (the TLS acceptors
  use it for handshakes).  \<open>count\<close> is a \<open>usize\<close>; the two unchecked arithmetic operations panic
  on overflow, as a debug build does.  The step relation adds the live guards as a history
  variable and shows that neither panic is reachable before \<open>2^64\<close> guards are alive.
\<close>

section \<open>Operations\<close>

record counter_inner =
  cnt :: usize
  capacity :: usize
  ctask :: local_waker

definition counter_new :: "usize \<Rightarrow> counter_inner" where
  "counter_new cap = \<lparr>cnt = 0, capacity = cap, ctask = waker_new\<rparr>"

definition counter_inc :: "counter_inner \<Rightarrow> (counter_inner, panic) result" where
  "counter_inc c = (case checked_add (cnt c) 1 of
     None \<Rightarrow> Err ArithOverflow | Some n \<Rightarrow> Ok (c\<lparr>cnt := n\<rparr>))"

definition counter_dec :: "counter_inner \<Rightarrow> (task list \<times> counter_inner, panic) result" where
  "counter_dec c =
     (let num = cnt c in
      if num = 0 then Err ArithOverflow
      else
        let c1 = c\<lparr>cnt := num - 1\<rparr> in
        if num = capacity c then
          (case wake (ctask c1) of (woken, w) \<Rightarrow> Ok (woken, c1\<lparr>ctask := w\<rparr>))
        else Ok ([], c1))"

definition counter_available :: "task \<Rightarrow> counter_inner \<Rightarrow> bool \<times> counter_inner" where
  "counter_available cx c =
     (if cnt c < capacity c then (True, c)
      else (False, c\<lparr>ctask := snd (register cx (ctask c))\<rparr>))"

text \<open>\<open>Counter::get\<close> creates a guard (\<open>CounterGuard::new\<close> increments), dropping the guard
  decrements.\<close>

definition guard_new :: "counter_inner \<Rightarrow> (counter_inner, panic) result" where
  "guard_new c = counter_inc c"

definition guard_drop :: "counter_inner \<Rightarrow> (task list \<times> counter_inner, panic) result" where
  "guard_drop c = counter_dec c"

definition counter_total :: "counter_inner \<Rightarrow> usize" where
  "counter_total c = cnt c"

section \<open>Runs with live guards\<close>

text \<open>\<open>waiter\<close> is the task that was refused last, until it is woken; \<open>displaced\<close> are the tasks that were
  refused before another one was, and have neither been woken nor asked again: the counter has room
  for one waker.\<close>

record counter_run =
  ctr :: counter_inner
  guards :: nat
  waiter :: "task option"
  displaced :: "task set"

inductive counter_step :: "counter_run \<Rightarrow> counter_run \<Rightarrow> bool" where
  ctr_get: "guard_new (ctr r) = Ok c' \<Longrightarrow>
     counter_step r (r\<lparr>ctr := c', guards := guards r + 1\<rparr>)"
| ctr_drop: "guards r > 0 \<Longrightarrow> guard_drop (ctr r) = Ok (woken, c') \<Longrightarrow>
     counter_step r (r\<lparr>ctr := c', guards := guards r - 1,
       waiter := (if waiter r \<in> Some ` set woken then None else waiter r), displaced := displaced r - set woken\<rparr>)"
| ctr_yes: "counter_available cx (ctr r) = (True, c') \<Longrightarrow>
     counter_step r (r\<lparr>ctr := c', waiter := (if waiter r = Some cx then None else waiter r),
       displaced := displaced r - {cx}\<rparr>)"
| ctr_no: "counter_available cx (ctr r) = (False, c') \<Longrightarrow>
     counter_step r (r\<lparr>ctr := c', waiter := Some cx, displaced := displaced r \<union> set_option (waiter r) - {cx}\<rparr>)"

inductive counter_reachable :: "usize \<Rightarrow> counter_run \<Rightarrow> bool" for cap where
  ctr_start: "counter_reachable cap \<lparr>ctr = counter_new cap, guards = 0, waiter = None, displaced = {}\<rparr>"
| ctr_next: "counter_reachable cap r \<Longrightarrow> counter_step r r' \<Longrightarrow> counter_reachable cap r'"

definition counter_inv :: "usize \<Rightarrow> counter_run \<Rightarrow> bool" where
  "counter_inv cap r \<longleftrightarrow>
     unat (cnt (ctr r)) = guards r \<and> capacity (ctr r) = cap \<and>
     waiter r = ctask (ctr r) \<and> (waiter r \<noteq> None \<longrightarrow> cap \<le> cnt (ctr r)) \<and> waiter r \<notin> Some ` displaced r"

lemma usize_pos_iff: "(c :: usize) \<noteq> 0 \<longleftrightarrow> 0 < unat c"
  by (simp add: unat_gt_0)

lemma unat_pred: "(c :: usize) \<noteq> 0 \<Longrightarrow> unat (c - 1) = unat c - 1"
  by (simp add: unat_minus_one)

lemma unat_checked_add: "checked_add a b = Some c \<Longrightarrow> unat c = unat a + unat b"
  by (auto simp: checked_add_def unat_word_ariths split: if_splits)

lemma counter_step_inv: "counter_step r r' \<Longrightarrow> counter_inv cap r \<Longrightarrow> counter_inv cap r'"
proof (induction rule: counter_step.induct)
  case (ctr_get r c')
  then show ?case
    by (auto simp: counter_inv_def guard_new_def counter_inc_def word_le_nat_alt
        dest: unat_checked_add split: option.splits)
next
  case (ctr_drop r woken c')
  then have *: "cnt (ctr r) \<noteq> 0" by (auto simp: guard_drop_def counter_dec_def Let_def)
  show ?case
  proof (cases "cnt (ctr r) = capacity (ctr r)")
    case True
    with ctr_drop * show ?thesis
      by (auto simp: counter_inv_def guard_drop_def counter_dec_def Let_def wake_eq unat_pred
          split: option.splits if_splits)
  next
    case False
    with ctr_drop * show ?thesis
      by (auto simp: counter_inv_def guard_drop_def counter_dec_def Let_def unat_pred
          word_le_nat_alt word_unat_eq_iff split: if_splits)
  qed
next
  case (ctr_yes cx r c')
  then show ?case by (auto simp: counter_inv_def counter_available_def split: if_splits)
next
  case (ctr_no cx r c')
  then show ?case
    by (auto simp: counter_inv_def counter_available_def register_eq split: if_splits)
qed

lemma counter_reachable_inv: "counter_reachable cap r \<Longrightarrow> counter_inv cap r"
proof (induction rule: counter_reachable.induct)
  case ctr_start
  show ?case by (simp add: counter_inv_def counter_new_def waker_new_def)
qed (rule counter_step_inv)

section \<open>Properties\<close>

text \<open>
  The counter counts the live guards, so dropping a guard never underflows, and creating one
  overflows only when \<open>2^64 - 1\<close> guards are already alive.
\<close>

theorem counter_counts_guards:
  assumes "counter_reachable cap r"
  shows "unat (counter_total (ctr r)) = guards r
    \<and> (0 < guards r \<longrightarrow> is_ok (guard_drop (ctr r)))
    \<and> (guards r < 2 ^ 64 - 1 \<longrightarrow> is_ok (guard_new (ctr r)))"
proof -
  from counter_reachable_inv [OF assms] have inv: "unat (cnt (ctr r)) = guards r"
    by (simp add: counter_inv_def)
  have "is_ok (guard_drop (ctr r))" if "0 < guards r"
    using that inv usize_pos_iff [of "cnt (ctr r)"]
    by (auto simp: guard_drop_def counter_dec_def Let_def split: prod.splits)
  moreover have "is_ok (guard_new (ctr r))" if "guards r < 2 ^ 64 - 1"
    using that inv by (simp add: guard_new_def counter_inc_def checked_add_def)
  ultimately show ?thesis using inv by (simp add: counter_total_def)
qed

lemma counter_run_one: "counter_reachable 1 \<lparr>ctr = \<lparr>cnt = 1, capacity = 1, ctask = Some 4\<rparr>, guards = 1, waiter = Some 4, displaced = {}\<rparr>"
proof -
  let ?r = "\<lparr>ctr = counter_new 1, guards = 0, waiter = None, displaced = {}\<rparr>"
  have "guard_new (ctr ?r) = Ok \<lparr>cnt = 1, capacity = 1, ctask = None\<rparr>"
    by (simp add: guard_new_def counter_inc_def counter_new_def checked_add_def waker_new_def)
  from ctr_next [OF ctr_start ctr_get [OF this]]
  have 1: "counter_reachable 1 \<lparr>ctr = \<lparr>cnt = 1, capacity = 1, ctask = None\<rparr>, guards = 1, waiter = None, displaced = {}\<rparr>"
    by simp
  have "counter_available 4 (ctr \<lparr>ctr = \<lparr>cnt = 1, capacity = 1, ctask = None\<rparr>, guards = 1, waiter = None, displaced = {}\<rparr>)
      = (False, \<lparr>cnt = 1, capacity = 1, ctask = Some 4\<rparr>)"
    by (simp add: counter_available_def register_eq)
  from ctr_next [OF 1 ctr_no [OF this]] show ?thesis by simp
qed

theorem counter_counts_guards_witness:
  "is_ok (guard_drop \<lparr>cnt = 1, capacity = 1, ctask = Some 4\<rparr>)"
  using counter_counts_guards [OF counter_run_one] by simp

text \<open>
  C36. Waking refused tasks, of any number that share the counter.  The task that was refused last and has
  not been woken since is right to wait, because the counter is still at or above capacity, and the drop
  that takes the count below capacity wakes it and no other.  A task that was refused before another one
  was is not woken by any drop, until it asks again: the counter keeps the last waker only.
\<close>

theorem counter_wakes_last_refused:
  assumes "counter_reachable cap r"
  shows "(\<forall>t. waiter r = Some t \<longrightarrow> \<not> fst (counter_available cx (ctr r))
      \<and> (cnt (ctr r) = cap \<and> 0 < guards r \<longrightarrow> (\<exists>c'. guard_drop (ctr r) = Ok ([t], c') \<and> fst (counter_available cx c'))))
    \<and> (\<forall>u woken c'. u \<in> displaced r \<and> guard_drop (ctr r) = Ok (woken, c') \<longrightarrow> u \<notin> set woken)"
proof -
  from counter_reachable_inv [OF assms(1)]
  have inv: "unat (cnt (ctr r)) = guards r" "capacity (ctr r) = cap" "waiter r = ctask (ctr r)"
    "waiter r \<noteq> None \<Longrightarrow> cap \<le> cnt (ctr r)" "waiter r \<notin> Some ` displaced r" by (auto simp: counter_inv_def)
  have "\<exists>c'. guard_drop (ctr r) = Ok ([t], c') \<and> fst (counter_available cx c')"
    if "cnt (ctr r) = cap" "0 < guards r" "waiter r = Some t" for t
  proof -
    have "cap \<noteq> 0" using that inv usize_pos_iff by metis
    moreover from this have "cap - 1 < cap" by (simp add: word_less_nat_alt unat_pred usize_pos_iff)
    ultimately show ?thesis using that inv
      by (auto simp: guard_drop_def counter_dec_def wake_eq counter_available_def Let_def)
  qed
  moreover have "u \<notin> set woken" if "u \<in> displaced r" "guard_drop (ctr r) = Ok (woken, c')" for u woken c'
    using that inv(3,5) by (auto simp: guard_drop_def counter_dec_def Let_def wake_eq split: if_splits option.splits prod.splits)
  moreover have "\<not> fst (counter_available cx (ctr r))" if "waiter r = Some t" for t
    using that inv(2,4) by (simp add: counter_available_def not_less)
  ultimately show ?thesis by blast
qed

text \<open>Two tasks share a counter of capacity 1: both are refused, the guard is dropped, and the first is not
  woken though the counter has room again.\<close>

lemma displaced_task_sleeps:
  "\<exists>r. counter_reachable 1 r \<and> 4 \<in> displaced r \<and> waiter r = None \<and> guards r = 0 \<and> fst (counter_available cx (ctr r))"
proof -
  let ?r = "\<lparr>ctr = \<lparr>cnt = 1, capacity = 1, ctask = Some 4\<rparr>, guards = 1, waiter = Some 4, displaced = {}\<rparr>"
  let ?s = "\<lparr>ctr = \<lparr>cnt = 1, capacity = 1, ctask = Some 5\<rparr>, guards = 1, waiter = Some 5, displaced = {4}\<rparr>"
  have "counter_available 5 (ctr ?r) = (False, \<lparr>cnt = 1, capacity = 1, ctask = Some 5\<rparr>)"
    by (simp add: counter_available_def register_eq)
  from ctr_next [OF counter_run_one ctr_no [OF this]] have s: "counter_reachable 1 ?s" by (simp add: insert_Diff_if)
  have "guard_drop (ctr ?s) = Ok ([5], \<lparr>cnt = 0, capacity = 1, ctask = None\<rparr>)"
    by (simp add: guard_drop_def counter_dec_def wake_eq Let_def)
  from ctr_next [OF s ctr_drop [OF _ this]]
  have "counter_reachable 1 \<lparr>ctr = \<lparr>cnt = 0, capacity = 1, ctask = None\<rparr>, guards = 0, waiter = None, displaced = {4}\<rparr>"
    by simp
  then show ?thesis by (intro exI conjI, assumption) (simp_all add: counter_available_def)
qed

theorem counter_wakes_last_refused_witness:
  "\<exists>r. counter_reachable 1 r \<and> waiter r = Some 4 \<and> \<not> fst (counter_available 9 (ctr r))
     \<and> (\<exists>c'. guard_drop (ctr r) = Ok ([4], c') \<and> fst (counter_available 9 c'))"
  using counter_run_one counter_wakes_last_refused [OF counter_run_one, of 9]
  by (intro exI [of _ "\<lparr>ctr = \<lparr>cnt = 1, capacity = 1, ctask = Some 4\<rparr>, guards = 1, waiter = Some 4, displaced = {}\<rparr>"]) simp

end
