(* ===== verification/Service.thy ===== *)
theory Service
  imports Prelude
begin

text \<open>
  \<open>actix-service/src\<close>: services and the combinators \<open>and_then\<close>, \<open>then\<close>, \<open>map\<close>, \<open>map_err\<close>, \<open>apply_fn\<close>,
  \<open>fn_service\<close>, \<open>boxed\<close> and \<open>pipeline\<close>.  A service is its three functions over the state \<open>'s\<close> that
  services and futures share (they are reference counted and may use interior mutability): \<open>poll_ready\<close>,
  \<open>call\<close>, and the \<open>poll\<close> of the future type that \<open>call\<close> returns, which may panic.  The task context is
  part of that state.  \<open>settles\<close> says that a future completes, whatever else is polled between its own
  polls, as long as an invariant of the shared state is kept; \<open>meets\<close> is the contract of a service, and
  the locales make it an interface.
\<close>

section \<open>Services and futures\<close>

type_synonym ('s, 'a, 'f) poller = "'f \<Rightarrow> 's \<Rightarrow> ('a poll, panic) result \<times> 'f \<times> 's"

record ('s, 'q, 'r, 'e, 'f) service =
  ready_fn :: "'s \<Rightarrow> (unit, 'e) result poll \<times> 's"
  call_fn :: "'q \<Rightarrow> 's \<Rightarrow> 'f \<times> 's"
  poll_fn :: "('s, ('r, 'e) result, 'f) poller"

text \<open>Polling one future until it is ready or panics.\<close>

fun run_fut :: "('s, 'a, 'f) poller \<Rightarrow> nat \<Rightarrow> 'f \<Rightarrow> 's \<Rightarrow> (('a, panic) result \<times> 's) option" where
  "run_fut p 0 f s = None"
| "run_fut p (Suc n) f s =
     (case p f s of
        (Ok (Ready r), f1, s1) \<Rightarrow> Some (Ok r, s1)
      | (Ok Pending, f1, s1) \<Rightarrow> run_fut p n f1 s1
      | (Err e, f1, s1) \<Rightarrow> Some (Err e, s1))"

definition run_call ::
  "('s, 'q, 'r, 'e, 'f) service \<Rightarrow> nat \<Rightarrow> 'q \<Rightarrow> 's \<Rightarrow> ((('r, 'e) result, panic) result \<times> 's) option" where
  "run_call svc n q s = (case call_fn svc q s of (f, s1) \<Rightarrow> run_fut (poll_fn svc) n f s1)"

text \<open>\<open>Ready\<close>: the value is taken by the first poll, a second poll panics.\<close>

definition ready_poll :: "('s, 'a, 'a option) poller" where
  "ready_poll v s = (case v of Some x \<Rightarrow> (Ok (Ready x), None, s) | None \<Rightarrow> (Err UnwrapNone, None, s))"

section \<open>Combinators\<close>

text \<open>The \<open>poll_ready\<close> of \<open>AndThenService\<close> and \<open>ThenService\<close>: an error returns at once, otherwise both
  services are polled.\<close>

definition both_ready ::
  "('s, 'q, 'r, 'e, 'f) service \<Rightarrow> ('s, 'q2, 'r2, 'e, 'f2) service \<Rightarrow> 's \<Rightarrow> (unit, 'e) result poll \<times> 's" where
  "both_ready a b s =
     (case ready_fn a s of
        (Ready (Err e), s1) \<Rightarrow> (Ready (Err e), s1)
      | (ra, s1) \<Rightarrow>
          (let not_ready = \<not> is_ready ra in
           case ready_fn b s1 of
             (Ready (Err e), s2) \<Rightarrow> (Ready (Err e), s2)
           | (rb, s2) \<Rightarrow> (if \<not> is_ready rb \<or> not_ready then Pending else Ready (Ok ()), s2)))"

text \<open>The states \<open>A\<close> and \<open>B\<close> of the futures that run one future after another.\<close>

datatype ('a, 'b) chain_fut = ChainA 'a | ChainB 'b

fun and_then_poll ::
  "('s, 'q, 'r, 'e, 'f) service \<Rightarrow> ('s, 'r, 'r2, 'e, 'g) service \<Rightarrow>
   ('s, ('r2, 'e) result, ('f, 'g) chain_fut) poller" where
  "and_then_poll a b (ChainB g) s = (case poll_fn b g s of (r, g1, s1) \<Rightarrow> (r, ChainB g1, s1))"
| "and_then_poll a b (ChainA f) s =
     (case poll_fn a f s of
        (Err p, f1, s1) \<Rightarrow> (Err p, ChainA f1, s1)
      | (Ok Pending, f1, s1) \<Rightarrow> (Ok Pending, ChainA f1, s1)
      | (Ok (Ready (Err e)), f1, s1) \<Rightarrow> (Ok (Ready (Err e)), ChainA f1, s1)
      | (Ok (Ready (Ok res)), f1, s1) \<Rightarrow>
          (case call_fn b res s1 of
             (g, s2) \<Rightarrow> (case poll_fn b g s2 of (r, g1, s3) \<Rightarrow> (r, ChainB g1, s3))))"

definition and_then ::
  "('s, 'q, 'r, 'e, 'f) service \<Rightarrow> ('s, 'r, 'r2, 'e, 'g) service \<Rightarrow>
   ('s, 'q, 'r2, 'e, ('f, 'g) chain_fut) service" where
  "and_then a b =
     \<lparr>ready_fn = both_ready a b,
      call_fn = (\<lambda>q s. case call_fn a q s of (f, s1) \<Rightarrow> (ChainA f, s1)),
      poll_fn = and_then_poll a b\<rparr>"

fun then_poll ::
  "('s, 'q, 'r, 'e, 'f) service \<Rightarrow> ('s, ('r, 'e) result, 'r2, 'e, 'g) service \<Rightarrow>
   ('s, ('r2, 'e) result, ('f, 'g) chain_fut) poller" where
  "then_poll a b (ChainB g) s = (case poll_fn b g s of (r, g1, s1) \<Rightarrow> (r, ChainB g1, s1))"
| "then_poll a b (ChainA f) s =
     (case poll_fn a f s of
        (Err p, f1, s1) \<Rightarrow> (Err p, ChainA f1, s1)
      | (Ok Pending, f1, s1) \<Rightarrow> (Ok Pending, ChainA f1, s1)
      | (Ok (Ready res), f1, s1) \<Rightarrow>
          (case call_fn b res s1 of
             (g, s2) \<Rightarrow> (case poll_fn b g s2 of (r, g1, s3) \<Rightarrow> (r, ChainB g1, s3))))"

text \<open>\<open>ThenService::poll_ready\<close>, the same code as for \<open>and_then\<close>.\<close>

definition then_ready ::
  "('s, 'q, 'r, 'e, 'f) service \<Rightarrow> ('s, ('r, 'e) result, 'r2, 'e, 'g) service \<Rightarrow> 's \<Rightarrow>
   (unit, 'e) result poll \<times> 's" where
  "then_ready a b = both_ready a b"

definition then_service ::
  "('s, 'q, 'r, 'e, 'f) service \<Rightarrow> ('s, ('r, 'e) result, 'r2, 'e, 'g) service \<Rightarrow>
   ('s, 'q, 'r2, 'e, ('f, 'g) chain_fut) service" where
  "then_service a b =
     \<lparr>ready_fn = then_ready a b,
      call_fn = (\<lambda>q s. case call_fn a q s of (f, s1) \<Rightarrow> (ChainA f, s1)),
      poll_fn = then_poll a b\<rparr>"

definition map_poll :: "('r \<Rightarrow> 'r2) \<Rightarrow> ('s, ('r, 'e) result, 'f) poller \<Rightarrow> ('s, ('r2, 'e) result, 'f) poller" where
  "map_poll h p f s =
     (case p f s of
        (Ok (Ready (Ok res)), f1, s1) \<Rightarrow> (Ok (Ready (Ok (h res))), f1, s1)
      | (Ok (Ready (Err e)), f1, s1) \<Rightarrow> (Ok (Ready (Err e)), f1, s1)
      | (Ok Pending, f1, s1) \<Rightarrow> (Ok Pending, f1, s1)
      | (Err e, f1, s1) \<Rightarrow> (Err e, f1, s1))"

definition map_service ::
  "('r \<Rightarrow> 'r2) \<Rightarrow> ('s, 'q, 'r, 'e, 'f) service \<Rightarrow> ('s, 'q, 'r2, 'e, 'f) service" where
  "map_service h a = \<lparr>ready_fn = ready_fn a, call_fn = call_fn a, poll_fn = map_poll h (poll_fn a)\<rparr>"

text \<open>\<open>Poll::map_err\<close>, of the standard library.\<close>

fun poll_map_err :: "('e \<Rightarrow> 'e2) \<Rightarrow> ('r, 'e) result poll \<Rightarrow> ('r, 'e2) result poll" where
  "poll_map_err h Pending = Pending"
| "poll_map_err h (Ready r) = Ready (map_err_result h r)"

definition map_err_poll ::
  "('e \<Rightarrow> 'e2) \<Rightarrow> ('s, ('r, 'e) result, 'f) poller \<Rightarrow> ('s, ('r, 'e2) result, 'f) poller" where
  "map_err_poll h p f s = (case p f s of (r, f1, s1) \<Rightarrow> (map_result (poll_map_err h) r, f1, s1))"

definition map_err_service ::
  "('e \<Rightarrow> 'e2) \<Rightarrow> ('s, 'q, 'r, 'e, 'f) service \<Rightarrow> ('s, 'q, 'r, 'e2, 'f) service" where
  "map_err_service h a =
     \<lparr>ready_fn = (\<lambda>s. case ready_fn a s of (r, s1) \<Rightarrow> (poll_map_err h r, s1)),
      call_fn = call_fn a, poll_fn = map_err_poll h (poll_fn a)\<rparr>"

text \<open>\<open>Apply\<close>: \<open>wrap_fn\<close> gets the request and the service and returns a future of its own type.\<close>

definition apply_service ::
  "('s, 'i, 'r, 'e, 'f) service \<Rightarrow> ('q \<Rightarrow> ('s, 'i, 'r, 'e, 'f) service \<Rightarrow> 's \<Rightarrow> 'g \<times> 's) \<Rightarrow>
   ('s, ('r2, 'e) result, 'g) poller \<Rightarrow> ('s, 'q, 'r2, 'e, 'g) service" where
  "apply_service a wrap_fn p =
     \<lparr>ready_fn = ready_fn a, call_fn = (\<lambda>q s. wrap_fn q a s), poll_fn = p\<rparr>"

text \<open>\<open>FnService\<close>, always ready.\<close>

definition fn_service ::
  "('q \<Rightarrow> 's \<Rightarrow> 'f \<times> 's) \<Rightarrow> ('s, ('r, 'e) result, 'f) poller \<Rightarrow> ('s, 'q, 'r, 'e, 'f) service" where
  "fn_service f p = \<lparr>ready_fn = (\<lambda>s. (Ready (Ok ()), s)), call_fn = (\<lambda>q s. f q s), poll_fn = p\<rparr>"

text \<open>\<open>ServiceWrapper\<close> of \<open>boxed\<close>: boxing the future keeps its polls.\<close>

definition boxed_service :: "('s, 'q, 'r, 'e, 'f) service \<Rightarrow> ('s, 'q, 'r, 'e, 'f) service" where
  "boxed_service inner =
     \<lparr>ready_fn = ready_fn inner, call_fn = (\<lambda>q s. call_fn inner q s), poll_fn = poll_fn inner\<rparr>"

section \<open>Contracts\<close>

inductive settles :: "('s, 'a, 'f) poller \<Rightarrow> ('s \<Rightarrow> bool) \<Rightarrow> ('a \<Rightarrow> bool) \<Rightarrow> 'f \<Rightarrow> bool" for p good post where
  settlesI: "(\<And>s r f1 s1. good s \<Longrightarrow> p f s = (r, f1, s1) \<Longrightarrow>
       good s1 \<and> ((\<exists>x. r = Ok (Ready x) \<and> post x) \<or> (r = Ok Pending \<and> settles p good post f1)))
     \<Longrightarrow> settles p good post f"

inductive_cases settlesE: "settles p good post f"

definition meets ::
  "('s, 'q, 'r, 'e, 'f) service \<Rightarrow> ('s \<Rightarrow> bool) \<Rightarrow> ('q \<Rightarrow> bool) \<Rightarrow> ('q \<Rightarrow> ('r, 'e) result \<Rightarrow> bool) \<Rightarrow> bool" where
  "meets svc good pre post \<longleftrightarrow>
     (\<forall>q s. good s \<longrightarrow> pre q \<longrightarrow> good (snd (call_fn svc q s)) \<and> settles (poll_fn svc) good (post q) (fst (call_fn svc q s)))"

lemma settles_step:
  assumes "settles p good post f" "good s" "p f s = (r, f1, s1)"
  shows "good s1" "(\<exists>x. r = Ok (Ready x) \<and> post x) \<or> (r = Ok Pending \<and> settles p good post f1)"
proof -
  have "good s1 \<and> ((\<exists>x. r = Ok (Ready x) \<and> post x) \<or> (r = Ok Pending \<and> settles p good post f1))"
    by (rule settlesE [OF assms(1)]) (use assms(2,3) in blast)
  then show "good s1" "(\<exists>x. r = Ok (Ready x) \<and> post x) \<or> (r = Ok Pending \<and> settles p good post f1)"
    by simp_all
qed

text \<open>A future that settles, polled alone, completes.\<close>

lemma settles_run:
  assumes "settles p good post f" "good s"
  shows "\<exists>n r s'. run_fut p n f s = Some (Ok r, s') \<and> post r \<and> good s'"
  using assms
proof (induction arbitrary: s)
  case (settlesI f)
  obtain r f1 s1 where p: "p f s = (r, f1, s1)" by (cases "p f s") auto
  from settlesI.IH [OF settlesI.prems p] consider
    x where "r = Ok (Ready x)" "post x" "good s1" | "r = Ok Pending" "good s1"
      "\<And>s. good s \<Longrightarrow> \<exists>n r s'. run_fut p n f1 s = Some (Ok r, s') \<and> post r \<and> good s'"
    by blast
  then show ?case
  proof cases
    case 1
    then have "run_fut p (Suc 0) f s = Some (Ok x, s1)" using p by simp
    with 1 show ?thesis by blast
  next
    case 2
    then obtain n x s' where "run_fut p n f1 s1 = Some (Ok x, s')" "post x" "good s'" by blast
    then have "run_fut p (Suc n) f s = Some (Ok x, s')" using p 2 by simp
    with \<open>post x\<close> \<open>good s'\<close> show ?thesis by blast
  qed
qed

text \<open>A poller that follows another one, poll for poll, and maps its results.\<close>

lemma settles_map:
  assumes "settles p good post f"
    and q: "\<And>f s. q f s = (case p f s of (r, f1, s1) \<Rightarrow> (map_result m r, f1, s1))"
    and m: "\<And>x. post x \<Longrightarrow> \<exists>y. m (Ready x) = Ready y \<and> post' y" "m Pending = Pending"
  shows "settles q good post' f"
  using assms(1)
proof induction
  case (settlesI f)
  show ?case
  proof (rule settles.settlesI)
    fix s r f1 s1
    assume s: "good s" "q f s = (r, f1, s1)"
    then obtain r0 where r0: "p f s = (r0, f1, s1)" "r = map_result m r0"
      by (cases "p f s") (auto simp: q)
    from settlesI.IH [OF s(1) r0(1)] r0(2) m
    show "good s1 \<and> ((\<exists>x. r = Ok (Ready x) \<and> post' x) \<or> (r = Ok Pending \<and> settles q good post' f1))"
      by auto
  qed
qed

lemma map_poll_eq: "map_poll h p f s = (case p f s of (r, f1, s1) \<Rightarrow>
     (map_result (\<lambda>r. case r of Pending \<Rightarrow> Pending | Ready x \<Rightarrow> Ready (map_result h x)) r, f1, s1))"
  by (auto simp: map_poll_def split: prod.splits result.splits poll.splits)

lemma settles_map_poll:
  assumes "settles p good post f"
  shows "settles (map_poll h p) good (\<lambda>r. \<exists>x. post x \<and> r = map_result h x) f"
  by (rule settles_map [OF assms], rule map_poll_eq) auto

lemma settles_map_err_poll:
  assumes "settles p good post f"
  shows "settles (map_err_poll h p) good (\<lambda>r. \<exists>x. post x \<and> r = map_err_result h x) f"
  by (rule settles_map [OF assms], rule map_err_poll_def) auto

lemma settles_ready: "post x \<Longrightarrow> settles ready_poll good post (Some x)"
  by (rule settlesI) (auto simp: ready_poll_def)

text \<open>A poller that runs another one inside a larger future.\<close>

lemma settles_lift:
  assumes "settles p good post f"
    and q: "\<And>f s. q (C f) s = (case p f s of (r, f1, s1) \<Rightarrow> (r, C f1, s1))"
  shows "settles q good post (C f)"
  using assms(1)
proof induction
  case (settlesI f)
  show ?case
    by (rule settles.settlesI) (use settlesI in \<open>auto simp: q split: prod.splits\<close>)
qed

lemma settles_mono:
  assumes "settles p good post f" and "\<And>x. post x \<Longrightarrow> post' x"
  shows "settles p good post' f"
  using assms(1)
proof induction
  case (settlesI f)
  show ?case
    by (rule settles.settlesI) (use settlesI assms(2) in blast)
qed

lemma meetsI:
  assumes "\<And>q s f s1. good s \<Longrightarrow> pre q \<Longrightarrow> call_fn svc q s = (f, s1) \<Longrightarrow> good s1 \<and> settles (poll_fn svc) good (post q) f"
  shows "meets svc good pre post"
  unfolding meets_def by (metis assms prod.collapse)

lemma meetsD:
  assumes "meets svc good pre post" "good s" "pre q" "call_fn svc q s = (f, s1)"
  shows "good s1" "settles (poll_fn svc) good (post q) f"
  using assms by (auto simp: meets_def split: prod.splits dest!: spec [of _ q] spec [of _ s])

lemma meets_mono:
  "meets svc good pre post \<Longrightarrow> (\<And>q. pre' q \<Longrightarrow> pre q) \<Longrightarrow> (\<And>q r. pre' q \<Longrightarrow> post q r \<Longrightarrow> post' q r) \<Longrightarrow>
   meets svc good pre' post'"
  unfolding meets_def by (blast intro: settles_mono)

section \<open>Chains\<close>

definition and_then_post ::
  "('q \<Rightarrow> ('r, 'e) result \<Rightarrow> bool) \<Rightarrow> ('r \<Rightarrow> ('r2, 'e) result \<Rightarrow> bool) \<Rightarrow> 'q \<Rightarrow> ('r2, 'e) result \<Rightarrow> bool" where
  "and_then_post pa pb q r \<longleftrightarrow> (\<exists>x. pa q (Ok x) \<and> pb x r) \<or> (\<exists>e. pa q (Err e) \<and> r = Err e)"

definition then_post ::
  "('q \<Rightarrow> ('r, 'e) result \<Rightarrow> bool) \<Rightarrow> (('r, 'e) result \<Rightarrow> ('r2, 'e) result \<Rightarrow> bool) \<Rightarrow> 'q \<Rightarrow> ('r2, 'e) result \<Rightarrow> bool" where
  "then_post pa pb q r \<longleftrightarrow> (\<exists>x. pa q x \<and> pb x r)"

text \<open>A future that goes on with what another one gives, in the same poll.\<close>

lemma settles_sequel:
  assumes "settles pa good post_a f"
    and A: "\<And>f s. q (D f) s =
      (case pa f s of
         (Err e, f1, s1) \<Rightarrow> (Err e, D f1, s1)
       | (Ok Pending, f1, s1) \<Rightarrow> (Ok Pending, D f1, s1)
       | (Ok (Ready x), f1, s1) \<Rightarrow> k x f1 s1)"
    and N: "\<And>x f s r st s1. post_a x \<Longrightarrow> good s \<Longrightarrow> k x f s = (r, st, s1) \<Longrightarrow>
      good s1 \<and> ((\<exists>y. r = Ok (Ready y) \<and> post y) \<or> (r = Ok Pending \<and> settles q good post st))"
  shows "settles q good post (D f)"
  using assms(1)
proof induction
  case (settlesI f)
  show ?case
  proof (rule settles.settlesI)
    fix s r st s1
    assume s: "good s" "q (D f) s = (r, st, s1)"
    obtain ra fa sa where p: "pa f s = (ra, fa, sa)" by (cases "pa f s") auto
    from settlesI.IH [OF s(1) p] consider
      x where "ra = Ok (Ready x)" "post_a x" "good sa"
    | "ra = Ok Pending" "good sa" "settles q good post (D fa)"
      by blast
    then show "good s1 \<and> ((\<exists>x. r = Ok (Ready x) \<and> post x) \<or> (r = Ok Pending \<and> settles q good post st))"
      by cases (use s(2) p N in \<open>auto simp: A\<close>)
  qed
qed

text \<open>The second future starts in a call, and is polled at once.\<close>

lemma settles_start:
  assumes b: "meets b good pre pb" and s: "good s" "pre x"
    and r: "(case call_fn b x s of (g, s1) \<Rightarrow> (case poll_fn b g s1 of (r, g1, s2) \<Rightarrow> (r, ChainB g1, s2))) = (r, st, s2)"
    and q: "\<And>f s. q (ChainB f) s = (case poll_fn b f s of (r, f1, s1) \<Rightarrow> (r, ChainB f1, s1))"
    and P: "\<And>y. pb x y \<Longrightarrow> P y"
  shows "good s2 \<and> ((\<exists>y. r = Ok (Ready y) \<and> P y) \<or> (r = Ok Pending \<and> settles q good P st))"
proof -
  obtain g s1 g1 where g: "call_fn b x s = (g, s1)" "poll_fn b g s1 = (r, g1, s2)" "st = ChainB g1"
    using r by (auto split: prod.splits)
  note m = meetsD [OF b s g(1)]
  have "settles (poll_fn b) good P g" using m(2) P by (rule settles_mono)
  from settles_step [OF this m(1) g(2)] g(3) show ?thesis
    using settles_lift [where q = q and C = ChainB, OF _ q] by blast
qed

lemma settles_and_then:
  fixes a :: "('s, 'q, 'r, 'e, 'f) service" and b :: "('s, 'r, 'r2, 'e, 'g) service"
  assumes "settles (poll_fn a) good (pa q) f" and b: "meets b good pre pb" and pre: "\<And>x. pa q (Ok x) \<Longrightarrow> pre x"
  shows "settles (and_then_poll a b) good (and_then_post pa pb q) (ChainA f)"
proof (rule settles_sequel [where D = ChainA and k = "\<lambda>x f s. case x of Err e \<Rightarrow> (Ok (Ready (Err e)), ChainA f, s)
      | Ok res \<Rightarrow> (case call_fn b res s of (g, s2) \<Rightarrow> (case poll_fn b g s2 of (r, g1, s3) \<Rightarrow> (r, ChainB g1, s3)))", OF assms(1)])
  fix x s r st s1 and f :: 'f
  assume x: "pa q x" "good s" "(case x of Err e \<Rightarrow> (Ok (Ready (Err e)), ChainA f, s)
      | Ok res \<Rightarrow> (case call_fn b res s of (g, s2) \<Rightarrow> (case poll_fn b g s2 of (r, g1, s3) \<Rightarrow> (r, ChainB g1, s3)))) = (r, st, s1)"
  show "good s1 \<and> ((\<exists>y. r = Ok (Ready y) \<and> and_then_post pa pb q y) \<or>
      (r = Ok Pending \<and> settles (and_then_poll a b) good (and_then_post pa pb q) st))"
  proof (cases x)
    case (Ok res)
    with x pre show ?thesis
      by (intro settles_start [OF b x(2), where x = res]) (auto simp: and_then_post_def)
  qed (use x in \<open>auto simp: and_then_post_def\<close>)
qed (auto split: prod.splits result.splits poll.splits)

lemma settles_then:
  fixes a :: "('s, 'q, 'r, 'e, 'f) service" and b :: "('s, ('r, 'e) result, 'r2, 'e, 'g) service"
  assumes "settles (poll_fn a) good (pa q) f" and b: "meets b good pre pb" and pre: "\<And>x. pa q x \<Longrightarrow> pre x"
  shows "settles (then_poll a b) good (then_post pa pb q) (ChainA f)"
proof (rule settles_sequel [where D = ChainA and k = "\<lambda>x f s.
      case call_fn b x s of (g, s2) \<Rightarrow> (case poll_fn b g s2 of (r, g1, s3) \<Rightarrow> (r, ChainB g1, s3))", OF assms(1)])
  fix x s r s1 and f :: 'f and st :: "('f, 'g) chain_fut"
  assume x: "pa q x" "good s"
    "(case call_fn b x s of (g, s2) \<Rightarrow> (case poll_fn b g s2 of (r, g1, s3) \<Rightarrow> (r, ChainB g1, s3))) = (r, st, s1)"
  then show "good s1 \<and> ((\<exists>y. r = Ok (Ready y) \<and> then_post pa pb q y) \<or>
      (r = Ok Pending \<and> settles (then_poll a b) good (then_post pa pb q) st))"
    by (intro settles_start [OF b x(2) pre [OF x(1)] x(3)]) (auto simp: then_post_def)
qed (auto split: prod.splits result.splits poll.splits)

section \<open>The service interface\<close>

locale service_contract =
  fixes svc :: "('s, 'q, 'r, 'e, 'f) service" and good :: "'s \<Rightarrow> bool" and pre :: "'q \<Rightarrow> bool"
    and post :: "'q \<Rightarrow> ('r, 'e) result \<Rightarrow> bool"
  assumes contract: "meets svc good pre post"
begin

lemma completes:
  assumes "good s" "pre q"
  shows "\<exists>n r s'. run_call svc n q s = Some (Ok r, s') \<and> post q r \<and> good s'"
proof -
  obtain f s1 where c: "call_fn svc q s = (f, s1)" by (cases "call_fn svc q s")
  note m = meetsD [OF contract assms c]
  from settles_run [OF m(2,1)] show ?thesis by (simp add: run_call_def c)
qed

lemma map_meets: "meets (map_service h svc) good pre (\<lambda>q r. \<exists>x. post q x \<and> r = map_result h x)"
  by (rule meetsI) (use meetsD [OF contract] settles_map_poll in \<open>fastforce simp: map_service_def\<close>)

lemma map_err_meets: "meets (map_err_service h svc) good pre (\<lambda>q r. \<exists>x. post q x \<and> r = map_err_result h x)"
  by (rule meetsI) (use meetsD [OF contract] settles_map_err_poll in \<open>fastforce simp: map_err_service_def\<close>)

lemma boxed_meets: "meets (boxed_service svc) good pre post"
  using contract by (simp add: meets_def boxed_service_def)

end

locale ready_service = service_contract +
  assumes always_ready: "good s \<Longrightarrow> fst (ready_fn svc s) = Ready (Ok ()) \<and> good (snd (ready_fn svc s))"
begin

lemma ready_then_completes:
  "good s \<Longrightarrow> pre q \<Longrightarrow> fst (ready_fn svc s) = Ready (Ok ())
     \<and> (\<exists>n r s'. run_call svc n q (snd (ready_fn svc s)) = Some (Ok r, s') \<and> post q r \<and> good s')"
  using always_ready completes by blast

end

locale service_pair =
  first: service_contract a good pre_a post_a + second: service_contract b good pre_b post_b
  for a :: "('s, 'q, 'r, 'e, 'f) service" and b :: "('s, 'r, 'r2, 'e, 'g) service"
    and good :: "'s \<Rightarrow> bool" and pre_a post_a pre_b post_b +
  assumes link: "pre_a q \<Longrightarrow> post_a q (Ok x) \<Longrightarrow> pre_b x"
begin

lemma and_then_meets: "meets (and_then a b) good pre_a (and_then_post post_a post_b)"
proof (rule meetsI)
  fix q s f s1
  assume s: "good s" "pre_a q" "call_fn (and_then a b) q s = (f, s1)"
  then obtain fa where fa: "call_fn a q s = (fa, s1)" "f = ChainA fa"
    by (auto simp: and_then_def split: prod.splits)
  note m = meetsD [OF first.contract s(1,2) fa(1)]
  from m(1) fa(2) settles_and_then [where pa = post_a, OF m(2) second.contract link [OF s(2)]]
  show "good s1 \<and> settles (poll_fn (and_then a b)) good (and_then_post post_a post_b q) f"
    by (simp add: and_then_def)
qed

end

sublocale service_pair < both: service_contract "and_then a b" good pre_a "and_then_post post_a post_b"
  by unfold_locales (rule and_then_meets)

locale service_then_pair =
  first: service_contract a good pre_a post_a + second: service_contract b good pre_b post_b
  for a :: "('s, 'q, 'r, 'e, 'f) service" and b :: "('s, ('r, 'e) result, 'r2, 'e, 'g) service"
    and good :: "'s \<Rightarrow> bool" and pre_a post_a pre_b post_b +
  assumes link: "pre_a q \<Longrightarrow> post_a q x \<Longrightarrow> pre_b x"
begin

lemma then_meets: "meets (then_service a b) good pre_a (then_post post_a post_b)"
proof (rule meetsI)
  fix q s f s1
  assume s: "good s" "pre_a q" "call_fn (then_service a b) q s = (f, s1)"
  then obtain fa where fa: "call_fn a q s = (fa, s1)" "f = ChainA fa"
    by (auto simp: then_service_def split: prod.splits)
  note m = meetsD [OF first.contract s(1,2) fa(1)]
  from m(1) fa(2) settles_then [where pa = post_a, OF m(2) second.contract link [OF s(2)]]
  show "good s1 \<and> settles (poll_fn (then_service a b)) good (then_post post_a post_b q) f"
    by (simp add: then_service_def)
qed

end

sublocale service_then_pair < both: service_contract "then_service a b" good pre_a "then_post post_a post_b"
  by unfold_locales (rule then_meets)

section \<open>Function services\<close>

text \<open>A service made of a function whose future is \<open>Ready\<close>.\<close>

definition immediate :: "('q \<Rightarrow> 's \<Rightarrow> ('r, 'e) result \<times> 's) \<Rightarrow>
    ('s, 'q, 'r, 'e, ('r, 'e) result option) service" where
  "immediate h = fn_service (\<lambda>q s. case h q s of (r, s1) \<Rightarrow> (Some r, s1)) ready_poll"

lemma immediate_meets:
  assumes "\<And>q s. good s \<Longrightarrow> pre q \<Longrightarrow> good (snd (h q s)) \<and> post q (fst (h q s))"
  shows "meets (immediate h) good pre post"
proof (rule meetsI)
  fix q s f s1
  assume s: "good s" "pre q" "call_fn (immediate h) q s = (f, s1)"
  then have "f = Some (fst (h q s))" "s1 = snd (h q s)"
    by (auto simp: immediate_def fn_service_def split: prod.splits)
  with assms [OF s(1,2)] show "good s1 \<and> settles (poll_fn (immediate h)) good (post q) f"
    by (simp add: immediate_def fn_service_def settles_ready)
qed

interpretation imm: ready_service "immediate (\<lambda>q s. (h q, s))" "\<lambda>s. True" "\<lambda>q. True" "\<lambda>q r. r = h q" for h
  by unfold_locales (rule immediate_meets, simp, simp add: immediate_def fn_service_def)

interpretation imm_pair: service_pair "immediate (\<lambda>q s. (h q, s))" "immediate (\<lambda>q s. (k q, s))" "\<lambda>s. True"
    "\<lambda>q. True" "\<lambda>q r. r = h q" "\<lambda>q. True" "\<lambda>q r. r = k q" for h k
  by unfold_locales simp

interpretation imm_then: service_then_pair "immediate (\<lambda>q s. (h q, s))" "immediate (\<lambda>q s. (k q, s))" "\<lambda>s. True"
    "\<lambda>q. True" "\<lambda>q r. r = h q" "\<lambda>q. True" "\<lambda>q r. r = k q" for h k
  by unfold_locales simp

section \<open>Sequencing\<close>

text \<open>
  A run of a future among others: \<open>es\<close> is what happens to the shared state before each of its polls, as
  long as it is polled.  The run gives the result, the state, and the part of \<open>es\<close> that is left.
\<close>

fun run_among ::
  "('s, 'a, 'f) poller \<Rightarrow> ('s \<Rightarrow> 's) list \<Rightarrow> 'f \<Rightarrow> 's \<Rightarrow> (('a, panic) result \<times> 's \<times> ('s \<Rightarrow> 's) list) option" where
  "run_among p [] f s = None"
| "run_among p (h # hs) f s =
     (case p f (h s) of
        (Ok (Ready r), f1, s1) \<Rightarrow> Some (Ok r, s1, hs)
      | (Ok Pending, f1, s1) \<Rightarrow> run_among p hs f1 s1
      | (Err e, f1, s1) \<Rightarrow> Some (Err e, s1, hs))"

definition call_among ::
  "('s, 'q, 'r, 'e, 'f) service \<Rightarrow> ('s \<Rightarrow> 's) list \<Rightarrow> 'q \<Rightarrow> 's \<Rightarrow>
   ((('r, 'e) result, panic) result \<times> 's \<times> ('s \<Rightarrow> 's) list) option" where
  "call_among svc hs q s = (case call_fn svc q s of (f, s1) \<Rightarrow> run_among (poll_fn svc) hs f s1)"

lemma run_fut_among: "run_fut p n f s = map_option (\<lambda>(r, s1, hs). (r, s1)) (run_among p (replicate n id) f s)"
  by (induction n arbitrary: f s) (auto split: prod.splits result.splits poll.splits)

text \<open>The second service starts in the poll that ends the first future, without anything in between.\<close>

lemma run_ChainB:
  "run_among (and_then_poll a b) hs (ChainB g) s = run_among (poll_fn b) hs g s"
  "run_among (then_poll a c) hs (ChainB h) s = run_among (poll_fn c) hs h s"
  by (induction hs arbitrary: g h s; auto split: prod.splits result.splits poll.splits)+

lemma run_ChainA:
  "run_among (and_then_poll a b) hs (ChainA f) s =
     (case run_among (poll_fn a) hs f s of
        Some (Ok (Ok x), s1, hs1) \<Rightarrow> call_among b (id # hs1) x s1
      | Some (Ok (Err e), s1, hs1) \<Rightarrow> Some (Ok (Err e), s1, hs1)
      | Some (Err e, s1, hs1) \<Rightarrow> Some (Err e, s1, hs1)
      | None \<Rightarrow> None)"
  by (induction hs arbitrary: f s) (auto simp: call_among_def run_ChainB split: prod.splits result.splits poll.splits)

lemma run_then_ChainA:
  "run_among (then_poll a c) hs (ChainA f) s =
     (case run_among (poll_fn a) hs f s of
        Some (Ok x, s1, hs1) \<Rightarrow> call_among c (id # hs1) x s1
      | Some (Err e, s1, hs1) \<Rightarrow> Some (Err e, s1, hs1)
      | None \<Rightarrow> None)"
  by (induction hs arbitrary: f s) (auto simp: call_among_def run_ChainB split: prod.splits result.splits poll.splits)

lemma call_chain:
  "call_among (and_then a b) hs q s =
     (case call_among a hs q s of
        Some (Ok (Ok x), s1, hs1) \<Rightarrow> call_among b (id # hs1) x s1
      | Some (Ok (Err e), s1, hs1) \<Rightarrow> Some (Ok (Err e), s1, hs1)
      | Some (Err e, s1, hs1) \<Rightarrow> Some (Err e, s1, hs1)
      | None \<Rightarrow> None)"
  "call_among (then_service a c) hs q s =
     (case call_among a hs q s of
        Some (Ok y, s1, hs1) \<Rightarrow> call_among c (id # hs1) y s1
      | Some (Err e, s1, hs1) \<Rightarrow> Some (Err e, s1, hs1)
      | None \<Rightarrow> None)"
  by (simp_all add: call_among_def and_then_def then_service_def run_ChainA run_then_ChainA split: prod.splits)

lemma call_assoc: "call_among (and_then (and_then a b) c) hs q s = call_among (and_then a (and_then b c)) hs q s"
  by (simp add: call_chain split: option.splits prod.splits result.splits)

lemma both_ready_assoc:
  "both_ready (and_then a b) c s = both_ready a (and_then b c) s"
  by (auto simp: both_ready_def and_then_def Let_def split: prod.splits poll.splits result.splits)

text \<open>What a readiness check of two services means: \<open>c\<close> is ready exactly when both are, the second one
  checked in the state the first check leaves, fails with the first error, and polls both unless the
  first fails.\<close>

definition ready_when_both ::
  "('s \<Rightarrow> (unit, 'e) result poll \<times> 's) \<Rightarrow> ('s \<Rightarrow> (unit, 'e) result poll \<times> 's) \<Rightarrow>
   ('s \<Rightarrow> (unit, 'e) result poll \<times> 's) \<Rightarrow> bool" where
  "ready_when_both c a b \<longleftrightarrow>
     (\<forall>s. (fst (c s) = Ready (Ok ()) \<longleftrightarrow> fst (a s) = Ready (Ok ()) \<and> fst (b (snd (a s))) = Ready (Ok ()))
        \<and> (\<forall>e. fst (c s) = Ready (Err e) \<longleftrightarrow>
             (case fst (a s) of Ready (Err e') \<Rightarrow> e' = e | _ \<Rightarrow> fst (b (snd (a s))) = Ready (Err e)))
        \<and> snd (c s) = (case fst (a s) of Ready (Err e) \<Rightarrow> snd (a s) | _ \<Rightarrow> snd (b (snd (a s)))))"

lemma both_ready_spec: "ready_when_both (both_ready a b) (ready_fn a) (ready_fn b)"
  by (auto simp: ready_when_both_def both_ready_def Let_def split: prod.splits poll.splits result.splits)

section \<open>Properties\<close>

text \<open>
  C12. Services compose: if services meet their contracts, so do the combinators built from them -
  \<open>and_then\<close> runs the second service on the response of the first and passes an error through, \<open>then\<close>
  runs it on the whole result, \<open>map\<close> and \<open>map_err\<close> map the outcome - with futures that complete without a
  panic in every interleaving that keeps the invariant of the shared state; and a call of a service
  that meets its contract completes.
\<close>

theorem services_compose:
  assumes a: "meets a good pre pa" and b: "meets b good preb pb" and c: "meets c good prec pc"
    and ab: "\<And>q x. pre q \<Longrightarrow> pa q (Ok x) \<Longrightarrow> preb x" and ac: "\<And>q x. pre q \<Longrightarrow> pa q x \<Longrightarrow> prec x"
    and s: "good s" "pre q"
  shows "meets (and_then a b) good pre (and_then_post pa pb)
     \<and> meets (then_service a c) good pre (then_post pa pc)
     \<and> meets (map_service h a) good pre (\<lambda>q r. \<exists>x. pa q x \<and> r = map_result h x)
     \<and> meets (map_err_service k a) good pre (\<lambda>q r. \<exists>x. pa q x \<and> r = map_err_result k x)
     \<and> (\<exists>n r s'. run_call (and_then a b) n q s = Some (Ok r, s') \<and> and_then_post pa pb q r \<and> good s')"
proof -
  have ab: "service_pair a b good pre pa preb pb"
    using a b ab by (simp add: service_pair_def service_pair_axioms_def service_contract_def)
  have ac: "service_then_pair a c good pre pa prec pc"
    using a c ac by (simp add: service_then_pair_def service_then_pair_axioms_def service_contract_def)
  have a': "service_contract a good pre pa" using a by (simp add: service_contract_def)
  have "service_contract (and_then a b) good pre (and_then_post pa pb)"
    using service_pair.and_then_meets [OF ab] by (simp add: service_contract_def)
  from service_contract.completes [OF this s] show ?thesis
    by (intro conjI service_pair.and_then_meets [OF ab] service_then_pair.then_meets [OF ac]
        service_contract.map_meets [OF a'] service_contract.map_err_meets [OF a'])
qed

theorem services_compose_witness:
  "meets (and_then (immediate (\<lambda>q s. (Ok (q + 1), s))) (immediate (\<lambda>q s. (if q = 3 then Err ''odd'' else Ok (2 * q), s))))
     (\<lambda>s :: unit. True) (\<lambda>q. True)
     (and_then_post (\<lambda>(q :: nat) r. r = Ok (q + 1)) (\<lambda>(q :: nat) r. r = (if q = 3 then Err ''odd'' else Ok (2 * q))))"
  by (rule services_compose [OF imm.contract [of "\<lambda>q :: nat. Ok (q + 1)"]
      imm.contract [of "\<lambda>q :: nat. if q = 3 then Err ''odd'' else Ok (2 * q)"] imm.contract [of "\<lambda>r. r"]
      TrueI TrueI TrueI TrueI, THEN conjunct1])

text \<open>
  C39. A chain is its two services in sequence, exactly.  \<open>and_then\<close> and \<open>then\<close> are ready when both
  services are, the second one checked in the state the first check leaves; they fail with the first
  error; and unless the first service fails both are polled, also when the first one is pending, so
  that each registers the task.  Whatever happens to the shared state between the polls of a call, the
  call is the call of the first service and then, in the poll that ends it, that of the second on its
  response (\<open>then\<close>: on its result), with the same results, panics, effects and polls: no future is
  polled once it has completed, and after an error of the first service of \<open>and_then\<close> the second is not
  called.  Consequently \<open>and_then\<close> is associative.
\<close>

theorem chain_is_sequence:
  "call_among (and_then a b) hs q s =
     (case call_among a hs q s of
        Some (Ok (Ok x), s1, hs1) \<Rightarrow> call_among b (id # hs1) x s1
      | Some (Ok (Err e), s1, hs1) \<Rightarrow> Some (Ok (Err e), s1, hs1)
      | Some (Err e, s1, hs1) \<Rightarrow> Some (Err e, s1, hs1)
      | None \<Rightarrow> None)
   \<and> call_among (then_service a c) hs q s =
     (case call_among a hs q s of
        Some (Ok y, s1, hs1) \<Rightarrow> call_among c (id # hs1) y s1
      | Some (Err e, s1, hs1) \<Rightarrow> Some (Err e, s1, hs1)
      | None \<Rightarrow> None)
   \<and> ready_when_both (ready_fn (and_then a b)) (ready_fn a) (ready_fn b)
   \<and> ready_when_both (ready_fn (then_service a c)) (ready_fn a) (ready_fn c)
   \<and> call_among (and_then (and_then a b) d) hs q s = call_among (and_then a (and_then b d)) hs q s
   \<and> ready_fn (and_then (and_then a b) d) s = ready_fn (and_then a (and_then b d)) s"
  using both_ready_spec [of a b] both_ready_spec [of a c] both_ready_assoc [of a b d s]
  by (intro conjI call_chain call_assoc) (simp_all add: and_then_def then_service_def then_ready_def)

end
