(* ===== verification/Service_Factory.thy ===== *)
theory Service_Factory
  imports Service
begin

text \<open>
  \<open>actix-service/src\<close>: service factories - the futures that create the services of \<open>and_then\<close>, \<open>then\<close>,
  \<open>map\<close>, \<open>map_err\<close>, \<open>map_init_err\<close>, \<open>map_config\<close>, \<open>apply_fn_factory\<close>, \<open>apply_cfg\<close>, \<open>apply_cfg_factory\<close>,
  \<open>fn_factory\<close> and \<open>boxed::factory\<close> - and transforms (\<open>transform.rs\<close>, \<open>transform_err.rs\<close>).  A factory is
  \<open>new_service\<close> and the \<open>poll\<close> of the future it returns, over the shared state of \<open>Service\<close>; an
  \<open>Option::take().unwrap()\<close> on an empty slot is the panic \<open>UnwrapNone\<close>.
\<close>

section \<open>Factories\<close>

record ('s, 'cfg, 'svc, 'ie, 'f) factory =
  new_fn :: "'cfg \<Rightarrow> 's \<Rightarrow> 'f \<times> 's"
  init_fn :: "('s, ('svc, 'ie) result, 'f) poller"

definition map_config :: "('cfg \<Rightarrow> 'c) \<Rightarrow> ('s, 'c, 'svc, 'ie, 'f) factory \<Rightarrow> ('s, 'cfg, 'svc, 'ie, 'f) factory" where
  "map_config cfg_mapper a = \<lparr>new_fn = (\<lambda>cfg s. new_fn a (cfg_mapper cfg) s), init_fn = init_fn a\<rparr>"

definition unit_config :: "('s, unit, 'svc, 'ie, 'f) factory \<Rightarrow> ('s, 'cfg, 'svc, 'ie, 'f) factory" where
  "unit_config a = \<lparr>new_fn = (\<lambda>cfg s. new_fn a () s), init_fn = init_fn a\<rparr>"

definition map_init_err ::
  "('ie \<Rightarrow> 'ie2) \<Rightarrow> ('s, 'cfg, 'svc, 'ie, 'f) factory \<Rightarrow> ('s, 'cfg, 'svc, 'ie2, 'f) factory" where
  "map_init_err h a = \<lparr>new_fn = new_fn a, init_fn = map_err_poll h (init_fn a)\<rparr>"

text \<open>A future that turns the created service into another one with something it holds in an
  \<open>Option\<close>, taken when the service is there: \<open>MapServiceFuture\<close> and \<open>ApplyServiceFactoryResponse\<close>.\<close>

definition wrap_poll ::
  "('x \<Rightarrow> 'a \<Rightarrow> 'b) \<Rightarrow> ('s, ('a, 'ie) result, 'f) poller \<Rightarrow> ('s, ('b, 'ie) result, 'f \<times> 'x option) poller" where
  "wrap_poll mk p st s =
     (case st of
        (f, x) \<Rightarrow>
          (case p f s of
             (Err e, f1, s1) \<Rightarrow> (Err e, (f1, x), s1)
           | (Ok Pending, f1, s1) \<Rightarrow> (Ok Pending, (f1, x), s1)
           | (Ok (Ready (Err e)), f1, s1) \<Rightarrow> (Ok (Ready (Err e)), (f1, x), s1)
           | (Ok (Ready (Ok svc)), f1, s1) \<Rightarrow>
               (case x of
                  None \<Rightarrow> (Err UnwrapNone, (f1, None), s1)
                | Some y \<Rightarrow> (Ok (Ready (Ok (mk y svc))), (f1, None), s1))))"

definition map_factory ::
  "('r \<Rightarrow> 'r2) \<Rightarrow> ('s, 'cfg, ('s, 'q, 'r, 'e, 'f) service, 'ie, 'ff) factory \<Rightarrow>
   ('s, 'cfg, ('s, 'q, 'r2, 'e, 'f) service, 'ie, 'ff \<times> ('r \<Rightarrow> 'r2) option) factory" where
  "map_factory h a =
     \<lparr>new_fn = (\<lambda>cfg s. case new_fn a cfg s of (f, s1) \<Rightarrow> ((f, Some h), s1)),
      init_fn = wrap_poll map_service (init_fn a)\<rparr>"

text \<open>\<open>MapErrServiceFuture\<close> clones its mapper.\<close>

definition map_err_factory_poll ::
  "('e \<Rightarrow> 'e2) \<Rightarrow> ('s, (('s, 'q, 'r, 'e, 'f) service, 'ie) result, 'ff) poller \<Rightarrow>
   ('s, (('s, 'q, 'r, 'e2, 'f) service, 'ie) result, 'ff) poller" where
  "map_err_factory_poll h p f s =
     (case p f s of
        (Err e, f1, s1) \<Rightarrow> (Err e, f1, s1)
      | (Ok Pending, f1, s1) \<Rightarrow> (Ok Pending, f1, s1)
      | (Ok (Ready (Err e)), f1, s1) \<Rightarrow> (Ok (Ready (Err e)), f1, s1)
      | (Ok (Ready (Ok svc)), f1, s1) \<Rightarrow> (Ok (Ready (Ok (map_err_service h svc))), f1, s1))"

definition map_err_factory ::
  "('e \<Rightarrow> 'e2) \<Rightarrow> ('s, 'cfg, ('s, 'q, 'r, 'e, 'f) service, 'ie, 'ff) factory \<Rightarrow>
   ('s, 'cfg, ('s, 'q, 'r, 'e2, 'f) service, 'ie, 'ff) factory" where
  "map_err_factory h a = \<lparr>new_fn = new_fn a, init_fn = map_err_factory_poll h (init_fn a)\<rparr>"

text \<open>\<open>ApplyFactory\<close>; the wrapping function comes with the poll of the futures it returns.\<close>

definition apply_factory ::
  "('q \<Rightarrow> ('s, 'i, 'r, 'e, 'f) service \<Rightarrow> 's \<Rightarrow> 'g \<times> 's) \<Rightarrow> ('s, ('r2, 'e) result, 'g) poller \<Rightarrow>
   ('s, 'cfg, ('s, 'i, 'r, 'e, 'f) service, 'ie, 'ff) factory \<Rightarrow>
   ('s, 'cfg, ('s, 'q, 'r2, 'e, 'g) service, 'ie,
      'ff \<times> ('q \<Rightarrow> ('s, 'i, 'r, 'e, 'f) service \<Rightarrow> 's \<Rightarrow> 'g \<times> 's) option) factory" where
  "apply_factory wrap_fn p a =
     \<lparr>new_fn = (\<lambda>cfg s. case new_fn a cfg s of (f, s1) \<Rightarrow> ((f, Some wrap_fn), s1)),
      init_fn = wrap_poll (\<lambda>w svc. apply_service svc w p) (init_fn a)\<rparr>"

definition boxed_factory_poll ::
  "('s, (('s, 'q, 'r, 'e, 'f) service, 'ie) result, 'ff) poller \<Rightarrow>
   ('s, (('s, 'q, 'r, 'e, 'f) service, 'ie) result, 'ff) poller" where
  "boxed_factory_poll p = map_poll boxed_service p"

definition boxed_factory ::
  "('s, 'cfg, ('s, 'q, 'r, 'e, 'f) service, 'ie, 'ff) factory \<Rightarrow>
   ('s, 'cfg, ('s, 'q, 'r, 'e, 'f) service, 'ie, 'ff) factory" where
  "boxed_factory a = \<lparr>new_fn = (\<lambda>cfg s. new_fn a cfg s), init_fn = boxed_factory_poll (init_fn a)\<rparr>"

section \<open>Function factories\<close>

text \<open>\<open>FnServiceFactory\<close>, whose future is \<open>Ready\<close>, and the factories of a function that returns a
  future, with and without the configuration.\<close>

definition fn_service_factory ::
  "('q \<Rightarrow> 's \<Rightarrow> 'f \<times> 's) \<Rightarrow> ('s, ('r, 'e) result, 'f) poller \<Rightarrow>
   ('s, 'cfg, ('s, 'q, 'r, 'e, 'f) service, unit, (('s, 'q, 'r, 'e, 'f) service, unit) result option) factory" where
  "fn_service_factory f p = \<lparr>new_fn = (\<lambda>cfg s. (Some (Ok (fn_service f p)), s)), init_fn = ready_poll\<rparr>"

definition fn_factory_with_config ::
  "('cfg \<Rightarrow> 's \<Rightarrow> 'f \<times> 's) \<Rightarrow> ('s, ('svc, 'ie) result, 'f) poller \<Rightarrow> ('s, 'cfg, 'svc, 'ie, 'f) factory" where
  "fn_factory_with_config f p = \<lparr>new_fn = (\<lambda>cfg s. f cfg s), init_fn = p\<rparr>"

definition fn_factory ::
  "('s \<Rightarrow> 'f \<times> 's) \<Rightarrow> ('s, ('svc, 'ie) result, 'f) poller \<Rightarrow> ('s, 'cfg, 'svc, 'ie, 'f) factory" where
  "fn_factory f p = \<lparr>new_fn = (\<lambda>cfg s. f s), init_fn = p\<rparr>"

section \<open>Factories of two services\<close>

text \<open>\<open>AndThenServiceFactoryResponse\<close> and \<open>ThenServiceFactoryResponse\<close>: two futures and the services
  they have created so far.\<close>

record ('fa, 'fb, 'a, 'b) pair_fut =
  fut_a :: 'fa
  fut_b :: 'fb
  svc_a :: "'a option"
  svc_b :: "'b option"

definition pair_new :: "'fa \<Rightarrow> 'fb \<Rightarrow> ('fa, 'fb, 'a, 'b) pair_fut" where
  "pair_new fa fb = \<lparr>fut_a = fa, fut_b = fb, svc_a = None, svc_b = None\<rparr>"

text \<open>One of the two: its future is polled unless its service is there.  The first component is a panic
  or the error the poll returned, if any.\<close>

definition poll_slot ::
  "('s, ('a, 'ie) result, 'f) poller \<Rightarrow> 'f \<Rightarrow> 'a option \<Rightarrow> 's \<Rightarrow> ('ie option, panic) result \<times> 'f \<times> 'a option \<times> 's" where
  "poll_slot p f slot s =
     (case slot of
        Some a \<Rightarrow> (Ok None, f, slot, s)
      | None \<Rightarrow>
          (case p f s of
             (Err e, f1, s1) \<Rightarrow> (Err e, f1, None, s1)
           | (Ok Pending, f1, s1) \<Rightarrow> (Ok None, f1, None, s1)
           | (Ok (Ready (Err e)), f1, s1) \<Rightarrow> (Ok (Some e), f1, None, s1)
           | (Ok (Ready (Ok a)), f1, s1) \<Rightarrow> (Ok None, f1, Some a, s1)))"

definition pair_poll ::
  "('a \<Rightarrow> 'b \<Rightarrow> 'c) \<Rightarrow> ('s, ('a, 'ie) result, 'fa) poller \<Rightarrow> ('s, ('b, 'ie) result, 'fb) poller \<Rightarrow>
   ('s, ('c, 'ie) result, ('fa, 'fb, 'a, 'b) pair_fut) poller" where
  "pair_poll mk pa pb st s =
     (case poll_slot pa (fut_a st) (svc_a st) s of
        (Err e, fa, sa, s1) \<Rightarrow> (Err e, st\<lparr>fut_a := fa, svc_a := sa\<rparr>, s1)
      | (Ok (Some e), fa, sa, s1) \<Rightarrow> (Ok (Ready (Err e)), st\<lparr>fut_a := fa, svc_a := sa\<rparr>, s1)
      | (Ok None, fa, sa, s1) \<Rightarrow>
          (case poll_slot pb (fut_b st) (svc_b st) s1 of
             (Err e, fb, sb, s2) \<Rightarrow> (Err e, \<lparr>fut_a = fa, fut_b = fb, svc_a = sa, svc_b = sb\<rparr>, s2)
           | (Ok (Some e), fb, sb, s2) \<Rightarrow>
               (Ok (Ready (Err e)), \<lparr>fut_a = fa, fut_b = fb, svc_a = sa, svc_b = sb\<rparr>, s2)
           | (Ok None, fb, sb, s2) \<Rightarrow>
               (case (sa, sb) of
                  (Some a, Some b) \<Rightarrow>
                    (Ok (Ready (Ok (mk a b))), \<lparr>fut_a = fa, fut_b = fb, svc_a = None, svc_b = None\<rparr>, s2)
                | _ \<Rightarrow> (Ok Pending, \<lparr>fut_a = fa, fut_b = fb, svc_a = sa, svc_b = sb\<rparr>, s2))))"

definition and_then_factory ::
  "('s, 'cfg, ('s, 'q, 'r, 'e, 'f) service, 'ie, 'fa) factory \<Rightarrow>
   ('s, 'cfg, ('s, 'r, 'r2, 'e, 'g) service, 'ie, 'fb) factory \<Rightarrow>
   ('s, 'cfg, ('s, 'q, 'r2, 'e, ('f, 'g) chain_fut) service, 'ie,
      ('fa, 'fb, ('s, 'q, 'r, 'e, 'f) service, ('s, 'r, 'r2, 'e, 'g) service) pair_fut) factory" where
  "and_then_factory a b =
     \<lparr>new_fn = (\<lambda>cfg s. case new_fn a cfg s of (fa, s1) \<Rightarrow>
                        (case new_fn b cfg s1 of (fb, s2) \<Rightarrow> (pair_new fa fb, s2))),
      init_fn = pair_poll and_then (init_fn a) (init_fn b)\<rparr>"

definition then_factory_poll ::
  "('s, (('s, 'q, 'r, 'e, 'f) service, 'ie) result, 'fa) poller \<Rightarrow>
   ('s, (('s, ('r, 'e) result, 'r2, 'e, 'g) service, 'ie) result, 'fb) poller \<Rightarrow>
   ('s, (('s, 'q, 'r2, 'e, ('f, 'g) chain_fut) service, 'ie) result,
      ('fa, 'fb, ('s, 'q, 'r, 'e, 'f) service, ('s, ('r, 'e) result, 'r2, 'e, 'g) service) pair_fut) poller" where
  "then_factory_poll pa pb = pair_poll then_service pa pb"

definition then_factory ::
  "('s, 'cfg, ('s, 'q, 'r, 'e, 'f) service, 'ie, 'fa) factory \<Rightarrow>
   ('s, 'cfg, ('s, ('r, 'e) result, 'r2, 'e, 'g) service, 'ie, 'fb) factory \<Rightarrow>
   ('s, 'cfg, ('s, 'q, 'r2, 'e, ('f, 'g) chain_fut) service, 'ie,
      ('fa, 'fb, ('s, 'q, 'r, 'e, 'f) service, ('s, ('r, 'e) result, 'r2, 'e, 'g) service) pair_fut) factory" where
  "then_factory a b =
     \<lparr>new_fn = (\<lambda>cfg s. case new_fn a cfg s of (fa, s1) \<Rightarrow>
                        (case new_fn b cfg s1 of (fb, s2) \<Rightarrow> (pair_new fa fb, s2))),
      init_fn = then_factory_poll (init_fn a) (init_fn b)\<rparr>"

section \<open>Transforms\<close>

text \<open>A \<open>Transform\<close> makes a service out of a service, through a future of its own.\<close>

record ('s, 'a, 'b, 'ie, 'f) transform =
  new_transform_fn :: "'a \<Rightarrow> 's \<Rightarrow> 'f \<times> 's"
  tpoll_fn :: "('s, ('b, 'ie) result, 'f) poller"

fun transform_poll ::
  "('s, 'a, 'b, 'ie, 'g) transform \<Rightarrow> ('s, ('a, 'ie) result, 'f) poller \<Rightarrow>
   ('s, ('b, 'ie) result, ('f, 'g) chain_fut) poller" where
  "transform_poll t p (ChainB g) s = (case tpoll_fn t g s of (r, g1, s1) \<Rightarrow> (r, ChainB g1, s1))"
| "transform_poll t p (ChainA f) s =
     (case p f s of
        (Err e, f1, s1) \<Rightarrow> (Err e, ChainA f1, s1)
      | (Ok Pending, f1, s1) \<Rightarrow> (Ok Pending, ChainA f1, s1)
      | (Ok (Ready (Err e)), f1, s1) \<Rightarrow> (Ok (Ready (Err e)), ChainA f1, s1)
      | (Ok (Ready (Ok srv)), f1, s1) \<Rightarrow>
          (case new_transform_fn t srv s1 of
             (g, s2) \<Rightarrow> (case tpoll_fn t g s2 of (r, g1, s3) \<Rightarrow> (r, ChainB g1, s3))))"

definition apply_transform ::
  "('s, 'a, 'b, 'ie, 'g) transform \<Rightarrow> ('s, 'cfg, 'a, 'ie, 'f) factory \<Rightarrow>
   ('s, 'cfg, 'b, 'ie, ('f, 'g) chain_fut) factory" where
  "apply_transform t a =
     \<lparr>new_fn = (\<lambda>cfg s. case new_fn a cfg s of (f, s1) \<Rightarrow> (ChainA f, s1)),
      init_fn = transform_poll t (init_fn a)\<rparr>"

definition transform_map_init_err ::
  "('ie \<Rightarrow> 'ie2) \<Rightarrow> ('s, 'a, 'b, 'ie, 'f) transform \<Rightarrow> ('s, 'a, 'b, 'ie2, 'f) transform" where
  "transform_map_init_err h t =
     \<lparr>new_transform_fn = new_transform_fn t, tpoll_fn = map_err_poll h (tpoll_fn t)\<rparr>"

section \<open>Factories from a service and a function\<close>

text \<open>\<open>apply_cfg\<close>: the function gets the configuration and the service.\<close>

definition apply_cfg ::
  "'a \<Rightarrow> ('cfg \<Rightarrow> 'a \<Rightarrow> 's \<Rightarrow> 'f \<times> 's) \<Rightarrow> ('s, ('b, 'ie) result, 'f) poller \<Rightarrow> ('s, 'cfg, 'b, 'ie, 'f) factory" where
  "apply_cfg srv f p = \<lparr>new_fn = (\<lambda>cfg s. f cfg srv s), init_fn = p\<rparr>"

text \<open>\<open>ApplyConfigServiceFactoryResponse\<close>: create the service, wait until it is ready, and give it to
  the function with the configuration, which is taken then.  \<open>conv\<close> is the conversion of the service's
  error to the initialisation error.\<close>

datatype ('a, 'svc, 'c) cfg_state = CfgA 'a | CfgB 'svc | CfgC 'c

type_synonym ('cfg, 'a, 'svc, 'c) cfg_fut = "'cfg option \<times> ('a, 'svc, 'c) cfg_state"

definition cfg_poll_b ::
  "('e \<Rightarrow> 'ie) \<Rightarrow> ('cfg \<Rightarrow> ('s, 'q, 'r, 'e, 'f) service \<Rightarrow> 's \<Rightarrow> 'g \<times> 's) \<Rightarrow> ('s, ('b, 'ie) result, 'g) poller \<Rightarrow>
   'cfg option \<Rightarrow> ('s, 'q, 'r, 'e, 'f) service \<Rightarrow> 's \<Rightarrow>
   (('b, 'ie) result poll, panic) result \<times> ('cfg, 'ff, ('s, 'q, 'r, 'e, 'f) service, 'g) cfg_fut \<times> 's" where
  "cfg_poll_b conv f p cfg svc s =
     (case ready_fn svc s of
        (Pending, s1) \<Rightarrow> (Ok Pending, (cfg, CfgB svc), s1)
      | (Ready (Err e), s1) \<Rightarrow> (Ok (Ready (Err (conv e))), (cfg, CfgB svc), s1)
      | (Ready (Ok u), s1) \<Rightarrow>
          (case cfg of
             None \<Rightarrow> (Err UnwrapNone, (None, CfgB svc), s1)
           | Some c \<Rightarrow>
               (case f c svc s1 of
                  (g, s2) \<Rightarrow> (case p g s2 of (r, g1, s3) \<Rightarrow> (r, (None, CfgC g1), s3)))))"

definition cfg_poll ::
  "('e \<Rightarrow> 'ie) \<Rightarrow> ('cfg \<Rightarrow> ('s, 'q, 'r, 'e, 'f) service \<Rightarrow> 's \<Rightarrow> 'g \<times> 's) \<Rightarrow> ('s, ('b, 'ie) result, 'g) poller \<Rightarrow>
   ('s, (('s, 'q, 'r, 'e, 'f) service, 'ie) result, 'ff) poller \<Rightarrow>
   ('s, ('b, 'ie) result, ('cfg, 'ff, ('s, 'q, 'r, 'e, 'f) service, 'g) cfg_fut) poller" where
  "cfg_poll conv f p pa st s =
     (case st of
        (cfg, CfgA fut) \<Rightarrow>
          (case pa fut s of
             (Err e, f1, s1) \<Rightarrow> (Err e, (cfg, CfgA f1), s1)
           | (Ok Pending, f1, s1) \<Rightarrow> (Ok Pending, (cfg, CfgA f1), s1)
           | (Ok (Ready (Err e)), f1, s1) \<Rightarrow> (Ok (Ready (Err e)), (cfg, CfgA f1), s1)
           | (Ok (Ready (Ok svc)), f1, s1) \<Rightarrow> cfg_poll_b conv f p cfg svc s1)
      | (cfg, CfgB svc) \<Rightarrow> cfg_poll_b conv f p cfg svc s
      | (cfg, CfgC g) \<Rightarrow> (case p g s of (r, g1, s1) \<Rightarrow> (r, (cfg, CfgC g1), s1)))"

definition apply_cfg_factory ::
  "('e \<Rightarrow> 'ie) \<Rightarrow> ('cfg \<Rightarrow> ('s, 'q, 'r, 'e, 'f) service \<Rightarrow> 's \<Rightarrow> 'g \<times> 's) \<Rightarrow> ('s, ('b, 'ie) result, 'g) poller \<Rightarrow>
   ('s, unit, ('s, 'q, 'r, 'e, 'f) service, 'ie, 'ff) factory \<Rightarrow>
   ('s, 'cfg, 'b, 'ie, ('cfg, 'ff, ('s, 'q, 'r, 'e, 'f) service, 'g) cfg_fut) factory" where
  "apply_cfg_factory conv f p a =
     \<lparr>new_fn = (\<lambda>cfg s. case new_fn a () s of (fut, s1) \<Rightarrow> ((Some cfg, CfgA fut), s1)),
      init_fn = cfg_poll conv f p (init_fn a)\<rparr>"

section \<open>Contracts of factories\<close>

definition builds ::
  "('s, 'cfg, 'svc, 'ie, 'f) factory \<Rightarrow> ('s \<Rightarrow> bool) \<Rightarrow> 'cfg \<Rightarrow> (('svc, 'ie) result \<Rightarrow> bool) \<Rightarrow> bool" where
  "builds a good cfg post \<longleftrightarrow>
     (\<forall>s. good s \<longrightarrow> good (snd (new_fn a cfg s)) \<and> settles (init_fn a) good post (fst (new_fn a cfg s)))"

lemma buildsI:
  assumes "\<And>s f s1. good s \<Longrightarrow> new_fn a cfg s = (f, s1) \<Longrightarrow> good s1 \<and> settles (init_fn a) good post f"
  shows "builds a good cfg post"
  unfolding builds_def by (metis assms prod.collapse)

lemma buildsD:
  assumes "builds a good cfg post" "good s" "new_fn a cfg s = (f, s1)"
  shows "good s1" "settles (init_fn a) good post f"
  using assms by (auto simp: builds_def split: prod.splits dest!: spec [of _ s])

text \<open>One step of a future that settles, for the futures wrapped around it.\<close>

lemma settles_cases:
  assumes "settles p good post f" "good s"
  obtains x f1 s1 where "p f s = (Ok (Ready x), f1, s1)" "good s1" "post x"
    | f1 s1 where "p f s = (Ok Pending, f1, s1)" "good s1" "settles p good post f1"
proof -
  obtain r f1 s1 where "p f s = (r, f1, s1)" by (cases "p f s") auto
  with settles_step [OF assms(1,2) this] show ?thesis using that by blast
qed

lemma ex_map_Ok: "post (Ok a) \<Longrightarrow> \<exists>y. post y \<and> Ok (f a) = map_result f y"
  by (rule exI [of _ "Ok a"]) simp

lemma ex_map_Err: "post (Err e) \<Longrightarrow> \<exists>y. post y \<and> Err e = map_result f y"
  by (rule exI [of _ "Err e"]) simp

lemma wrap_settles:
  assumes "settles p good post f"
  shows "settles (wrap_poll mk p) good (\<lambda>r. \<exists>y. post y \<and> r = map_result (mk x) y) (f, Some x)"
  by (rule settles_sequel [where D = "\<lambda>f. (f, Some x)" and k = "\<lambda>r f s.
        case r of Ok a \<Rightarrow> (Ok (Ready (Ok (mk x a))), (f, None), s)
        | Err e \<Rightarrow> (Ok (Ready (Err e)), (f, Some x), s)", OF assms])
    (auto simp: wrap_poll_def intro: ex_map_Ok ex_map_Err split: prod.splits result.splits poll.splits)

text \<open>The pair of futures: what a slot promises.\<close>

definition slot_ok :: "('s, ('a, 'ie) result, 'f) poller \<Rightarrow> ('s \<Rightarrow> bool) \<Rightarrow> (('a, 'ie) result \<Rightarrow> bool) \<Rightarrow> 'f \<Rightarrow> 'a option \<Rightarrow> bool" where
  "slot_ok p good post f slot = (case slot of Some a \<Rightarrow> post (Ok a) | None \<Rightarrow> settles p good post f)"

lemma poll_slot_cases:
  assumes "slot_ok p good post f slot" "good s"
  obtains
    a f1 s1 where "poll_slot p f slot s = (Ok None, f1, Some a, s1)" "good s1" "post (Ok a)"
  | e f1 s1 where "poll_slot p f slot s = (Ok (Some e), f1, None, s1)" "good s1" "post (Err e)"
  | f1 s1 where "poll_slot p f slot s = (Ok None, f1, None, s1)" "good s1" "slot = None"
      "p f s = (Ok Pending, f1, s1)" "settles p good post f1"
proof (cases slot)
  case (Some a)
  with assms that(1) show ?thesis by (simp add: slot_ok_def poll_slot_def)
next
  case None
  then have "settles p good post f" using assms(1) by (simp add: slot_ok_def)
  then show ?thesis using assms(2)
  proof (cases rule: settles_cases)
    case (1 x f1 s1)
    with None that(1,2) show ?thesis by (cases x) (simp_all add: poll_slot_def)
  next
    case (2 f1 s1)
    with None that(3) show ?thesis by (simp add: poll_slot_def)
  qed
qed

definition pair_post ::
  "('a \<Rightarrow> 'b \<Rightarrow> 'c) \<Rightarrow> (('a, 'ie) result \<Rightarrow> bool) \<Rightarrow> (('b, 'ie) result \<Rightarrow> bool) \<Rightarrow> ('c, 'ie) result \<Rightarrow> bool" where
  "pair_post mk pa pb r \<longleftrightarrow>
     (\<exists>a b. pa (Ok a) \<and> pb (Ok b) \<and> r = Ok (mk a b)) \<or> (\<exists>e. (pa (Err e) \<or> pb (Err e)) \<and> r = Err e)"

lemma pair_post_Ok: "pa (Ok a) \<Longrightarrow> pb (Ok b) \<Longrightarrow> pair_post mk pa pb (Ok (mk a b))"
  by (auto simp: pair_post_def)

lemma pair_post_Err: "pa (Err e) \<or> pb (Err e) \<Longrightarrow> pair_post mk pa pb (Err e)"
  by (auto simp: pair_post_def)

text \<open>The step of the pair, given that it may go on with one future shorter.\<close>

lemma pair_step:
  assumes a: "slot_ok pa good post_a fa sa" and b: "slot_ok pb good post_b fb sb" and s: "good s"
    and poll: "pair_poll mk pa pb \<lparr>fut_a = fa, fut_b = fb, svc_a = sa, svc_b = sb\<rparr> s = (r, st, s1)"
    and A: "\<And>s fa1 s1 fb1 sb1. sa = None \<Longrightarrow> good s \<Longrightarrow> pa fa s = (Ok Pending, fa1, s1) \<Longrightarrow> slot_ok pb good post_b fb1 sb1 \<Longrightarrow>
        settles (pair_poll mk pa pb) good P \<lparr>fut_a = fa1, fut_b = fb1, svc_a = None, svc_b = sb1\<rparr>"
    and B: "\<And>s fb1 s1 fa1 x. sb = None \<Longrightarrow> good s \<Longrightarrow> pb fb s = (Ok Pending, fb1, s1) \<Longrightarrow> post_a (Ok x) \<Longrightarrow>
        settles (pair_poll mk pa pb) good P \<lparr>fut_a = fa1, fut_b = fb1, svc_a = Some x, svc_b = None\<rparr>"
    and P: "P = pair_post mk post_a post_b"
  shows "good s1 \<and> ((\<exists>x. r = Ok (Ready x) \<and> P x) \<or> (r = Ok Pending \<and> settles (pair_poll mk pa pb) good P st))"
  using a s
proof (cases rule: poll_slot_cases)
  case (1 x f1 t1)
  from b 1(2) show ?thesis
    by (cases rule: poll_slot_cases) (use 1 s poll P B in \<open>auto simp: pair_poll_def pair_post_Ok pair_post_Err\<close>)
next
  case (2 e f1 t1)
  then show ?thesis using poll P by (auto simp: pair_poll_def pair_post_Err)
next
  case (3 f1 t1)
  from b 3(2) show ?thesis
    by (cases rule: poll_slot_cases) (use 3 s poll P A in \<open>auto simp: pair_poll_def slot_ok_def pair_post_Err\<close>)
qed

lemma pair_settles_b:
  assumes "settles pb good post_b fb" "post_a (Ok x)"
  shows "settles (pair_poll mk pa pb) good (pair_post mk post_a post_b)
     \<lparr>fut_a = fa, fut_b = fb, svc_a = Some x, svc_b = None\<rparr>"
  using assms
proof (induction arbitrary: fa x)
  case (settlesI fb)
  have b: "slot_ok pb good post_b fb None"
    by (simp add: slot_ok_def, rule settles.settlesI) (use settlesI.IH in blast)
  have IH: "settles (pair_poll mk pa pb) good (pair_post mk post_a post_b)
      \<lparr>fut_a = fa1, fut_b = fb1, svc_a = Some y, svc_b = None\<rparr>"
    if "good t" "pb fb t = (Ok Pending, fb1, t1)" "post_a (Ok y)" for t fb1 t1 fa1 y
    using settlesI.IH [OF that(1,2)] that(3) by auto
  show ?case
    by (rule settles.settlesI, rule pair_step [OF _ b])
      (use settlesI.prems in \<open>auto simp: slot_ok_def IH\<close>)
qed

lemma pair_settles:
  assumes "settles pa good post_a fa" "slot_ok pb good post_b fb sb"
  shows "settles (pair_poll mk pa pb) good (pair_post mk post_a post_b)
     \<lparr>fut_a = fa, fut_b = fb, svc_a = None, svc_b = sb\<rparr>"
  using assms
proof (induction arbitrary: fb sb)
  case (settlesI fa)
  have a: "slot_ok pa good post_a fa None"
    by (simp add: slot_ok_def, rule settles.settlesI) (use settlesI.IH in blast)
  have A: "settles (pair_poll mk pa pb) good (pair_post mk post_a post_b)
      \<lparr>fut_a = fa1, fut_b = fb1, svc_a = None, svc_b = sb1\<rparr>"
    if "good t" "pa fa t = (Ok Pending, fa1, t1)" "slot_ok pb good post_b fb1 sb1" for t fa1 t1 fb1 sb1
    using settlesI.IH [OF that(1,2)] that(3) by auto
  have B: "settles (pair_poll mk pa pb) good (pair_post mk post_a post_b)
      \<lparr>fut_a = fa1, fut_b = fb1, svc_a = Some y, svc_b = None\<rparr>"
    if "sb = None" "good t" "pb fb t = (Ok Pending, fb1, t1)" "post_a (Ok y)" for t fb1 t1 fa1 y
    using settles_step [of pb good post_b fb t] settlesI.prems that by (auto simp: slot_ok_def intro: pair_settles_b)
  show ?case
    by (rule settles.settlesI, rule pair_step [OF a settlesI.prems]) (simp_all add: A B)
qed

section \<open>The order of the polls of a pair\<close>

text \<open>
  Two creation futures that complete in their polls \<open>i\<close> and \<open>j\<close>, counted from 0, with \<open>x\<close> and \<open>y\<close>, and
  write 0 and 1 into the shared state when they are polled.  \<open>pair_end\<close> says in which poll the pair
  completes and with what: the earliest error ends it, in the same poll that of the first factory;
  \<open>pair_log\<close> says which polls it makes: in each of its own polls the first future, unless it has given its
  service, and then, unless that was an error, the second, unless it has given its service.
\<close>

definition logged :: "nat \<Rightarrow> (nat list, 'a, 'a poll list) poller" where
  "logged tag f log = (case next_answer f of (r, f1) \<Rightarrow> (Ok r, f1, log @ [tag]))"

definition logged_factory ::
  "nat \<Rightarrow> nat \<Rightarrow> ('svc, 'ie) result \<Rightarrow> (nat list, 'cfg, 'svc, 'ie, ('svc, 'ie) result poll list) factory" where
  "logged_factory tag n r = \<lparr>new_fn = (\<lambda>cfg log. (completing n r, log)), init_fn = logged tag\<rparr>"

definition pair_end ::
  "('a \<Rightarrow> 'b \<Rightarrow> 'c) \<Rightarrow> nat \<Rightarrow> ('a, 'ie) result \<Rightarrow> nat \<Rightarrow> ('b, 'ie) result \<Rightarrow> nat \<times> ('c, 'ie) result" where
  "pair_end mk i x j y =
     (case (x, y) of
        (Ok a, Ok b) \<Rightarrow> (max i j, Ok (mk a b))
      | (Err e, Ok b) \<Rightarrow> (i, Err e)
      | (Ok a, Err e) \<Rightarrow> (j, Err e)
      | (Err e, Err e') \<Rightarrow> (if i \<le> j then (i, Err e) else (j, Err e')))"

definition pair_log :: "nat \<Rightarrow> ('a, 'ie) result \<Rightarrow> nat \<Rightarrow> nat \<Rightarrow> nat list" where
  "pair_log i x j n =
     concat (map (\<lambda>k. (if k \<le> i then [0] else []) @ (if k = i \<and> (\<exists>e. x = Err e) \<or> j < k then [] else [1])) [0..<Suc n])"

lemma concat_tags:
  "n \<le> j \<Longrightarrow> concat (map (\<lambda>k. if j < Suc k then [] else [t]) [0..<n]) = replicate n t"
  "n \<le> j \<Longrightarrow> concat (map (\<lambda>k. if Suc k \<le> j then [t] else []) [0..<n]) = replicate n t"
  by (induction n) (simp_all add: replicate_append_same)

lemma logged_completing:
  "logged tag (completing 0 r) log = (Ok (Ready r), [], log @ [tag])"
  "logged tag (completing (Suc n) r) log = (Ok Pending, completing n r, log @ [tag])"
  by (simp_all add: logged_def completing_def next_answer_def)

lemma pair_run_b:
  "run_fut (pair_poll mk pa (logged t)) N \<lparr>fut_a = fa, fut_b = completing j y, svc_a = Some a, svc_b = None\<rparr> log
   = (if j < N then Some (Ok (map_result (mk a) y), log @ replicate (Suc j) t) else None)"
proof (induction j arbitrary: N log)
  case 0
  then show ?case by (cases N; cases y) (simp_all add: pair_poll_def poll_slot_def logged_completing)
next
  case (Suc j)
  then show ?case by (cases N) (simp_all add: pair_poll_def poll_slot_def logged_completing)
qed

lemma pair_run_a:
  "run_fut (pair_poll mk (logged t) pb) N \<lparr>fut_a = completing i x, fut_b = fb, svc_a = None, svc_b = Some b\<rparr> log
   = (if i < N then Some (Ok (map_result (\<lambda>a. mk a b) x), log @ replicate (Suc i) t) else None)"
proof (induction i arbitrary: N log)
  case 0
  then show ?case by (cases N; cases x) (simp_all add: pair_poll_def poll_slot_def logged_completing)
next
  case (Suc i)
  then show ?case by (cases N) (simp_all add: pair_poll_def poll_slot_def logged_completing)
qed

lemma pair_poll_logged:
  "pair_poll mk (logged t) (logged u) (pair_new (completing 0 (Err e)) fb) log =
     (Ok (Ready (Err e)), \<lparr>fut_a = [], fut_b = fb, svc_a = None, svc_b = None\<rparr>, log @ [t])"
  "pair_poll mk (logged t) (logged u) (pair_new (completing 0 (Ok a)) (completing 0 (Err e))) log =
     (Ok (Ready (Err e)), \<lparr>fut_a = [], fut_b = [], svc_a = Some a, svc_b = None\<rparr>, log @ [t, u])"
  "pair_poll mk (logged t) (logged u) (pair_new (completing 0 (Ok a)) (completing 0 (Ok b))) log =
     (Ok (Ready (Ok (mk a b))), \<lparr>fut_a = [], fut_b = [], svc_a = None, svc_b = None\<rparr>, log @ [t, u])"
  "pair_poll mk (logged t) (logged u) (pair_new (completing 0 (Ok a)) (completing (Suc j) y)) log =
     (Ok Pending, \<lparr>fut_a = [], fut_b = completing j y, svc_a = Some a, svc_b = None\<rparr>, log @ [t, u])"
  "pair_poll mk (logged t) (logged u) (pair_new (completing (Suc i) x) (completing 0 (Err e))) log =
     (Ok (Ready (Err e)), \<lparr>fut_a = completing i x, fut_b = [], svc_a = None, svc_b = None\<rparr>, log @ [t, u])"
  "pair_poll mk (logged t) (logged u) (pair_new (completing (Suc i) x) (completing 0 (Ok b))) log =
     (Ok Pending, \<lparr>fut_a = completing i x, fut_b = [], svc_a = None, svc_b = Some b\<rparr>, log @ [t, u])"
  "pair_poll mk (logged t) (logged u) (pair_new (completing (Suc i) x) (completing (Suc j) y)) log =
     (Ok Pending, pair_new (completing i x) (completing j y), log @ [t, u])"
  by (simp_all add: pair_new_def pair_poll_def poll_slot_def logged_completing)

lemma pair_run:
  "run_fut (pair_poll mk (logged 0) (logged 1)) N (pair_new (completing i x) (completing j y)) log
   = (case pair_end mk i x j y of (n, r) \<Rightarrow> if n < N then Some (Ok r, log @ pair_log i x j n) else None)"
proof (induction i arbitrary: j N log x y)
  case 0
  show ?case
    by (cases N; cases x; cases y; cases j)
      (simp_all add: pair_poll_logged pair_run_b pair_end_def pair_log_def map_upt_Suc concat_tags del: upt_Suc One_nat_def)
next
  case (Suc i)
  show ?case
  proof (cases j)
    case 0
    then show ?thesis
      by (cases N; cases x; cases y)
        (simp_all add: pair_poll_logged pair_run_a pair_end_def pair_log_def map_upt_Suc concat_tags del: upt_Suc One_nat_def)
  next
    case (Suc j')
    then show ?thesis
      by (cases N; cases x; cases y)
        (auto simp: pair_poll_logged Suc.IH pair_end_def pair_log_def map_upt_Suc simp del: upt_Suc One_nat_def)
  qed
qed

section \<open>What the factories build\<close>

lemma builds_map_config: "builds a good (h cfg) post \<Longrightarrow> builds (map_config h a) good cfg post"
  by (simp add: builds_def map_config_def)

lemma builds_unit_config: "builds a good () post \<Longrightarrow> builds (unit_config a) good cfg post"
  by (simp add: builds_def unit_config_def)

lemma builds_fn_factory:
  assumes "\<And>s. good s \<Longrightarrow> good (snd (f cfg s)) \<and> settles p good post (fst (f cfg s))"
  shows "builds (fn_factory_with_config f p) good cfg post" "builds (fn_factory (f cfg) p) good c post"
    "builds (apply_cfg srv (\<lambda>c x. f cfg) p) good c post"
  using assms by (simp_all add: builds_def fn_factory_with_config_def fn_factory_def apply_cfg_def)

lemma builds_fn_service: "builds (fn_service_factory f p) good cfg (\<lambda>r. r = Ok (fn_service f p))"
  by (simp add: builds_def fn_service_factory_def settles_ready)

locale factory_contract =
  fixes a :: "('s, 'cfg, 'svc, 'ie, 'f) factory" and good :: "'s \<Rightarrow> bool" and cfg :: 'cfg
    and post :: "('svc, 'ie) result \<Rightarrow> bool"
  assumes contract: "builds a good cfg post"
begin

lemma map_init_err_builds: "builds (map_init_err h a) good cfg (\<lambda>r. \<exists>x. post x \<and> r = map_err_result h x)"
  by (rule buildsI) (use buildsD [OF contract] settles_map_err_poll in \<open>fastforce simp: map_init_err_def\<close>)

lemma map_builds:
  "builds \<lparr>new_fn = new_fn a, init_fn = map_poll h (init_fn a)\<rparr> good cfg (\<lambda>r. \<exists>x. post x \<and> r = map_result h x)"
  by (rule buildsI) (use buildsD [OF contract] settles_map_poll in fastforce)

lemma wrap_builds:
  "builds \<lparr>new_fn = (\<lambda>cfg s. case new_fn a cfg s of (f, s1) \<Rightarrow> ((f, Some x), s1)), init_fn = wrap_poll mk (init_fn a)\<rparr>
     good cfg (\<lambda>r. \<exists>y. post y \<and> r = map_result (mk x) y)"
proof (rule buildsI, goal_cases)
  case (1 s f s1)
  then obtain f0 where "new_fn a cfg s = (f0, s1)" "f = (f0, Some x)" by (auto split: prod.splits)
  with buildsD [OF contract 1(1)] show ?case by (auto intro: wrap_settles)
qed

end

locale factory_pair =
  first: factory_contract a good cfg post_a + second: factory_contract b good cfg post_b
  for a :: "('s, 'cfg, 'a, 'ie, 'fa) factory" and b :: "('s, 'cfg, 'b, 'ie, 'fb) factory"
    and good :: "'s \<Rightarrow> bool" and cfg and post_a and post_b
begin

lemma pair_builds:
  "builds \<lparr>new_fn = (\<lambda>cfg s. case new_fn a cfg s of (fa, s1) \<Rightarrow>
                        (case new_fn b cfg s1 of (fb, s2) \<Rightarrow> (pair_new fa fb, s2))),
      init_fn = pair_poll mk (init_fn a) (init_fn b)\<rparr> good cfg (pair_post mk post_a post_b)"
proof (rule buildsI, goal_cases)
  case (1 s f s1)
  then obtain fa sa fb where f: "new_fn a cfg s = (fa, sa)" "new_fn b cfg sa = (fb, s1)" "f = pair_new fa fb"
    by (auto split: prod.splits)
  note A = buildsD [OF first.contract 1(1) f(1)]
  note B = buildsD [OF second.contract A(1) f(2)]
  have "slot_ok (init_fn b) good post_b fb None" using B(2) by (simp add: slot_ok_def)
  with pair_settles [OF A(2) this] B(1) f(3) show ?case by (simp add: pair_new_def)
qed

end

text \<open>The futures of the transforms and of \<open>apply_cfg_factory\<close>.\<close>

lemma settles_transform:
  assumes a: "settles pa good post_a f"
    and t: "\<And>x s. post_a (Ok x) \<Longrightarrow> good s \<Longrightarrow>
      good (snd (new_transform_fn t x s)) \<and> settles (tpoll_fn t) good post (fst (new_transform_fn t x s))"
    and Err: "\<And>e. post_a (Err e) \<Longrightarrow> post (Err e)"
  shows "settles (transform_poll t pa) good post (ChainA f)"
proof (rule settles_sequel [where D = ChainA and k = "\<lambda>x f s. case x of Err e \<Rightarrow> (Ok (Ready (Err e)), ChainA f, s)
      | Ok srv \<Rightarrow> (case new_transform_fn t srv s of (g, s2) \<Rightarrow>
                   (case tpoll_fn t g s2 of (r, g1, s3) \<Rightarrow> (r, ChainB g1, s3)))", OF a], goal_cases)
  case (2 x f s r st s1)
  show ?case
  proof (cases x)
    case (Ok srv)
    with 2 obtain g s2 g1 where g: "new_transform_fn t srv s = (g, s2)" "tpoll_fn t g s2 = (r, g1, s1)" "st = ChainB g1"
      by (auto split: prod.splits)
    with t [of srv s] 2 Ok have m: "good s2" "settles (tpoll_fn t) good post g" by auto
    from settles_step [OF m(2,1) g(2)] g(3) show ?thesis
      using settles_lift [where q = "transform_poll t pa" and C = ChainB and p = "tpoll_fn t"] by auto
  qed (use 2 Err in auto)
qed (auto split: prod.splits result.splits poll.splits)

text \<open>A service that is never pending.\<close>

definition answers_ready :: "('s \<Rightarrow> bool) \<Rightarrow> ('s, 'q, 'r, 'e, 'f) service \<Rightarrow> bool" where
  "answers_ready good svc \<longleftrightarrow>
     (\<forall>s. good s \<longrightarrow> is_ready (fst (ready_fn svc s)) \<and> good (snd (ready_fn svc s)))"

lemma cfg_poll_b_settles:
  assumes r: "cfg_poll_b conv f p (Some c) svc s = (r, st, s1)" and s: "good s" and svc: "answers_ready good svc"
    and f: "\<And>s. good s \<Longrightarrow> good (snd (f c svc s)) \<and> settles p good post_f (fst (f c svc s))"
    and P: "\<And>x. post_f x \<Longrightarrow> post x" "\<And>e. post (Err (conv e))"
  shows "good s1 \<and> ((\<exists>x. r = Ok (Ready x) \<and> post x) \<or> (r = Ok Pending \<and> settles (cfg_poll conv f p pa) good post st))"
proof -
  obtain q t where q: "ready_fn svc s = (Ready q, t)" "good t"
    using svc s by (cases "ready_fn svc s") (auto simp: answers_ready_def is_ready_iff)
  show ?thesis
  proof (cases q)
    case (Ok u)
    obtain g s2 g1 where g: "f c svc t = (g, s2)" "p g s2 = (r, g1, s1)" "st = (None, CfgC g1)"
      using r q Ok by (auto simp: cfg_poll_b_def split: prod.splits)
    with f [OF q(2)] have m: "good s2" "settles p good post_f g" by auto
    have "settles p good post g" using m(2) P(1) by (rule settles_mono)
    from settles_step [OF this m(1) g(2)] g(3) show ?thesis
      using settles_lift [where q = "cfg_poll conv f p pa" and C = "\<lambda>g. (None, CfgC g)" and p = p]
      by (auto simp: cfg_poll_def)
  next
    case (Err e)
    with r q P(2) show ?thesis by (auto simp: cfg_poll_b_def)
  qed
qed

lemma settles_cfg:
  assumes a: "settles pa good post_a fut"
    and svc: "\<And>svc. post_a (Ok svc) \<Longrightarrow> answers_ready good svc"
    and f: "\<And>svc s. post_a (Ok svc) \<Longrightarrow> good s \<Longrightarrow> good (snd (f c svc s)) \<and> settles p good (post_f svc) (fst (f c svc s))"
    and P: "\<And>svc x. post_a (Ok svc) \<Longrightarrow> post_f svc x \<Longrightarrow> post x" "\<And>e. post_a (Err e) \<Longrightarrow> post (Err e)"
      "\<And>e. post (Err (conv e))"
  shows "settles (cfg_poll conv f p pa) good post (Some c, CfgA fut)"
proof (rule settles_sequel [where D = "\<lambda>fut. (Some c, CfgA fut)" and k = "\<lambda>x f1 s. case x of
        Err e \<Rightarrow> (Ok (Ready (Err e)), (Some c, CfgA f1), s) | Ok svc \<Rightarrow> cfg_poll_b conv f p (Some c) svc s", OF a], goal_cases)
  case (2 x f1 s r st s1)
  show ?case
  proof (cases x)
    case (Ok svc)
    with 2 show ?thesis
      by (intro cfg_poll_b_settles [where svc = svc and post_f = "post_f svc" and f = f and c = c])
        (use assms in auto)
  qed (use 2 P(2) in auto)
qed (auto simp: cfg_poll_def split: prod.splits result.splits poll.splits)

interpretation fn_factory: factory_contract "fn_service_factory f p" good cfg "\<lambda>r. r = Ok (fn_service f p)"
  for f p good cfg
  by unfold_locales (rule builds_fn_service)

interpretation fn_factories: factory_pair "fn_service_factory f p" "fn_service_factory g q" good cfg
    "\<lambda>r. r = Ok (fn_service f p)" "\<lambda>r. r = Ok (fn_service g q)"
  for f p g q good cfg
  by unfold_locales

section \<open>Properties\<close>

text \<open>
  C25. Factories of two services: however the polls of the two creation futures interleave with anything
  that keeps the invariant of the shared state, the factories of \<open>and_then\<close> and \<open>then\<close> create the chain of
  the two services they create, or fail with the error of one of them, and they never panic.  Which
  error: for futures that complete in their polls \<open>i\<close> and \<open>j\<close>, the earliest one, and that of the first
  factory when both fail in the same poll; without an error the chain is there in poll \<open>max i j\<close>.  Until
  then each poll polls the first future and then the second, a future that has given its service is not
  polled again, and after an error of the first in a poll the second is not polled.
\<close>

theorem chain_factories_build:
  assumes "builds a good cfg pa" and "builds b good cfg pb" and "builds c good cfg pc"
  shows "builds (and_then_factory a b) good cfg (pair_post and_then pa pb)
     \<and> builds (then_factory a c) good cfg (pair_post then_service pa pc)
     \<and> (case new_fn (and_then_factory (logged_factory 0 i x) (logged_factory 1 j y)) u log of (f, s) \<Rightarrow>
          run_fut (init_fn (and_then_factory (logged_factory 0 i x) (logged_factory 1 j y))) N f s)
       = (case pair_end and_then i x j y of (n, r) \<Rightarrow> if n < N then Some (Ok r, log @ pair_log i x j n) else None)
     \<and> (case new_fn (then_factory (logged_factory 0 i x) (logged_factory 1 j z)) u log of (f, s) \<Rightarrow>
          run_fut (init_fn (then_factory (logged_factory 0 i x) (logged_factory 1 j z))) N f s)
       = (case pair_end then_service i x j z of (n, r) \<Rightarrow> if n < N then Some (Ok r, log @ pair_log i x j n) else None)"
  using factory_pair.pair_builds [of a b good cfg pa pb and_then] factory_pair.pair_builds [of a c good cfg pa pc then_service]
    assms
  by (intro conjI) (simp_all add: factory_pair_def factory_contract_def and_then_factory_def then_factory_def then_factory_poll_def
      logged_factory_def pair_run del: One_nat_def)

text \<open>Both fail, the second first: its error, after three polls in the order first, second, first.\<close>

theorem chain_factories_build_witness:
  "builds (and_then_factory (fn_service_factory (\<lambda>q s. (Some (Ok (q + 1)), s)) ready_poll)
       (fn_service_factory (\<lambda>q s. (Some (Err ''late''), s)) ready_poll)) (\<lambda>s :: unit. True) ()
     (pair_post and_then
       (\<lambda>r. r = Ok (fn_service (\<lambda>(q :: nat) s. (Some (Ok (q + 1)), s)) ready_poll))
       (\<lambda>r. r = Ok (fn_service (\<lambda>(q :: nat) s. (Some (Err ''late'' :: (nat, string) result), s)) ready_poll)))
   \<and> (case pair_end and_then 2 (Err ''first'') 1 (Err ''second'') of
         (n, r) \<Rightarrow> (n, r, pair_log 2 (Err ''first'' :: (nat, string) result) 1 n)) = (1, Err ''second'', [0, 1, 0, 1])
   \<and> (case pair_end and_then 1 (Err ''first'') 1 (Err ''second'') of
         (n, r) \<Rightarrow> (n, r, pair_log 1 (Err ''first'' :: (nat, string) result) 1 n)) = (1, Err ''first'', [0, 1, 0])"
  using chain_factories_build [OF builds_fn_service builds_fn_service
      builds_fn_service [of "\<lambda>(q :: (nat, string) result) s. (Some (Ok q :: ((nat, string) result, string) result), s)" ready_poll],
      THEN conjunct1]
  by (auto simp: pair_end_def pair_log_def upt_rec)

text \<open>
  The other factories: each creates the combinator of the service its inner factory creates and
  passes the inner error through, mapped by \<open>map_init_err\<close> only; the \<open>Option\<close> that the futures of \<open>map\<close>
  and \<open>apply_fn_factory\<close> take their function from is never empty when they need it.
\<close>

theorem factories_build:
  assumes "builds a good cfg pa"
  shows "builds (map_factory h a) good cfg (\<lambda>r. \<exists>x. pa x \<and> r = map_result (map_service h) x)
     \<and> builds (map_err_factory k a) good cfg (\<lambda>r. \<exists>x. pa x \<and> r = map_result (map_err_service k) x)
     \<and> builds (apply_factory w p a) good cfg (\<lambda>r. \<exists>x. pa x \<and> r = map_result (\<lambda>svc. apply_service svc w p) x)
     \<and> builds (boxed_factory a) good cfg (\<lambda>r. \<exists>x. pa x \<and> r = map_result boxed_service x)
     \<and> builds (map_init_err m a) good cfg (\<lambda>r. \<exists>x. pa x \<and> r = map_err_result m x)"
proof -
  have "factory_contract a good cfg pa" using assms by (simp add: factory_contract_def)
  note c = factory_contract.wrap_builds [OF this] factory_contract.map_builds [OF this]
    factory_contract.map_init_err_builds [OF this]
  have "map_err_factory k a = \<lparr>new_fn = new_fn a, init_fn = map_poll (map_err_service k) (init_fn a)\<rparr>"
    unfolding map_err_factory_def by (auto simp: map_err_factory_poll_def map_poll_def fun_eq_iff split: prod.splits result.splits poll.splits)
  then show ?thesis
    unfolding map_factory_def apply_factory_def boxed_factory_def boxed_factory_poll_def by (auto intro: c)
qed

text \<open>The service and the factory of the examples: a function service that increments.\<close>

definition incr :: "(unit, nat, nat, string, (nat, string) result option) service" where
  "incr = fn_service (\<lambda>q s. (Some (Ok (q + 1)), s)) ready_poll"

definition incr_factory ::
  "(unit, 'cfg, (unit, nat, nat, string, (nat, string) result option) service, unit,
      ((unit, nat, nat, string, (nat, string) result option) service, unit) result option) factory" where
  "incr_factory = fn_service_factory (\<lambda>q s. (Some (Ok (q + 1)), s)) ready_poll"

lemma incr_builds: "builds incr_factory good cfg (\<lambda>r. r = Ok incr)"
  unfolding incr_factory_def incr_def by (rule builds_fn_service)

theorem factories_build_witness:
  "builds (map_factory (\<lambda>n. 2 * n) incr_factory) (\<lambda>s. True) () (\<lambda>r. \<exists>x. x = Ok incr \<and> r = map_result (map_service (\<lambda>n. 2 * n)) x)"
  by (rule factories_build [OF incr_builds, THEN conjunct1])

text \<open>
  Transforms and configuration: \<open>apply_transform\<close> creates the inner service, then the transform of it;
  \<open>apply_cfg_factory\<close> creates the inner service, waits until it is ready, and gives it to the function
  together with the configuration, which is there exactly once; errors of the creation and of the
  readiness check, converted, are passed on, and nothing panics.
\<close>

theorem transform_and_cfg_build:
  assumes a: "builds a good cfg pa" and a': "builds a' good () pb"
    and t: "\<forall>x s. pa (Ok x) \<longrightarrow> good s \<longrightarrow>
      good (snd (new_transform_fn t x s)) \<and> settles (tpoll_fn t) good (pt x) (fst (new_transform_fn t x s))"
    and f: "\<forall>svc s. pb (Ok svc) \<longrightarrow> good s \<longrightarrow> answers_ready good svc
      \<and> good (snd (f cfg svc s)) \<and> settles p good (pf svc) (fst (f cfg svc s))"
  shows "builds (apply_transform t a) good cfg
       (\<lambda>r. (\<exists>x. pa (Ok x) \<and> pt x r) \<or> (\<exists>e. pa (Err e) \<and> r = Err e))
     \<and> builds (apply_cfg_factory conv f p a') good cfg
       (\<lambda>r. (\<exists>svc. pb (Ok svc) \<and> pf svc r) \<or> (\<exists>e. pb (Err e) \<and> r = Err e) \<or> (\<exists>e. r = Err (conv e)))"
    (is "builds _ _ _ ?P \<and> builds _ _ _ ?Q")
proof
  show "builds (apply_transform t a) good cfg ?P"
  proof (rule buildsI, goal_cases)
    case (1 s st s1)
    then obtain f0 where f0: "new_fn a cfg s = (f0, s1)" "st = ChainA f0"
      by (auto simp: apply_transform_def split: prod.splits)
    note m = buildsD [OF a 1(1) f0(1)]
    have "settles (transform_poll t (init_fn a)) good ?P (ChainA f0)"
      by (rule settles_transform [OF m(2)]) (use t in \<open>auto intro: settles_mono\<close>)
    with m f0 show ?case by (simp add: apply_transform_def)
  qed
  show "builds (apply_cfg_factory conv f p a') good cfg ?Q"
  proof (rule buildsI, goal_cases)
    case (1 s st s1)
    then obtain f0 where f0: "new_fn a' () s = (f0, s1)" "st = (Some cfg, CfgA f0)"
      by (auto simp: apply_cfg_factory_def split: prod.splits)
    note m = buildsD [OF a' 1(1) f0(1)]
    have "settles (cfg_poll conv f p (init_fn a')) good ?Q (Some cfg, CfgA f0)"
      by (rule settles_cfg [OF m(2), where post_f = pf]) (use f m(1) in auto)
    with m f0 show ?case by (simp add: apply_cfg_factory_def)
  qed
qed

theorem transform_and_cfg_build_witness:
  "builds (apply_transform \<lparr>new_transform_fn = (\<lambda>x s. (Some (Ok (map_service Suc x)), s)), tpoll_fn = ready_poll\<rparr> incr_factory)
       (\<lambda>s. True) (5 :: nat) (\<lambda>r. (\<exists>x. Ok x = Ok incr \<and> r = Ok (map_service Suc x)) \<or> (\<exists>e. Err e = Ok incr \<and> r = Err e))
   \<and> builds (apply_cfg_factory (\<lambda>e. ()) (\<lambda>c svc s. (Some (Ok (map_service (\<lambda>n. n + c) svc)), s)) ready_poll incr_factory)
       (\<lambda>s. True) (5 :: nat) (\<lambda>r. (\<exists>svc. Ok svc = Ok incr \<and> r = Ok (map_service (\<lambda>n. n + 5) svc))
          \<or> (\<exists>e. Err e = Ok incr \<and> r = Err e) \<or> (\<exists>e :: string. r = Err ()))"
  using transform_and_cfg_build [OF incr_builds incr_builds, where pt = "\<lambda>x r. r = Ok (map_service Suc x)"
        and pf = "\<lambda>svc r. r = Ok (map_service (\<lambda>n. n + 5) svc)" and good = "\<lambda>s. True" and cfg = "5 :: nat" and
      t = "\<lparr>new_transform_fn = (\<lambda>x s. (Some (Ok (map_service Suc x)), s)), tpoll_fn = ready_poll\<rparr>"
      and conv = "\<lambda>e. ()" and f = "\<lambda>c svc s. (Some (Ok (map_service (\<lambda>n. n + c) svc)), s)" and p = ready_poll]
  by (simp add: settles_ready answers_ready_def incr_def fn_service_def)

end
