(* ===== verification/Utils_Future.thy ===== *)
theory Utils_Future
  imports Service_Factory
begin

text \<open>
  \<open>actix-utils/src/future\<close>: \<open>Either\<close> and \<open>PollFn\<close> (\<open>Ready\<close> is in \<open>Service\<close>), and \<open>actix-tracing\<close>, which
  returns an \<open>Either\<close>: \<open>TracingService\<close>, \<open>TracingTransform\<close> and \<open>trace\<close>.  The tracing library is a
  parameter: \<open>enter\<close> and \<open>exit\<close> of a span, \<open>child\<close> for the macro that makes the child span, and the
  poll of an instrumented future.  Its state \<open>'tr\<close> stands beside the state \<open>'s\<close> of the services.
\<close>

section \<open>Either and PollFn\<close>

datatype ('l, 'r) either_fut = EitherLeft 'l | EitherRight 'r

fun either_into_inner :: "('a, 'a) either_fut \<Rightarrow> 'a" where
  "either_into_inner (EitherLeft v) = v"
| "either_into_inner (EitherRight v) = v"

fun either_poll ::
  "('s, 'a, 'f) poller \<Rightarrow> ('s, 'a, 'g) poller \<Rightarrow> ('s, 'a, ('f, 'g) either_fut) poller" where
  "either_poll p q (EitherLeft f) s = (case p f s of (r, f1, s1) \<Rightarrow> (r, EitherLeft f1, s1))"
| "either_poll p q (EitherRight g) s = (case q g s of (r, g1, s1) \<Rightarrow> (r, EitherRight g1, s1))"

text \<open>The closure of a \<open>PollFn\<close> is a function from what it captured; it may panic.\<close>

record ('s, 'a, 'c) poll_fn_fut =
  pf_fn :: "'c \<Rightarrow> 's \<Rightarrow> ('a poll, panic) result \<times> 'c \<times> 's"
  pf_env :: 'c

definition poll_fn_new :: "('c \<Rightarrow> 's \<Rightarrow> ('a poll, panic) result \<times> 'c \<times> 's) \<Rightarrow> 'c \<Rightarrow> ('s, 'a, 'c) poll_fn_fut" where
  "poll_fn_new f env = \<lparr>pf_fn = f, pf_env = env\<rparr>"

definition poll_fn_poll :: "('s, 'a, ('s, 'a, 'c) poll_fn_fut) poller" where
  "poll_fn_poll fut s = (case pf_fn fut (pf_env fut) s of (r, env, s1) \<Rightarrow> (r, fut\<lparr>pf_env := env\<rparr>, s1))"

lemma run_either_left: "run_fut (either_poll p q) n (EitherLeft f) s = run_fut p n f s"
  by (induction n arbitrary: f s) (auto split: prod.splits result.splits poll.splits)

lemma run_either_right: "run_fut (either_poll p q) n (EitherRight g) s = run_fut q n g s"
  by (induction n arbitrary: g s) (auto split: prod.splits result.splits poll.splits)

lemma run_poll_fn: "run_fut poll_fn_poll n (poll_fn_new f env) s = run_fut f n env s"
proof (induction n arbitrary: env s)
  case (Suc n)
  then show ?case
    by (auto simp: poll_fn_poll_def poll_fn_new_def split: prod.splits result.splits poll.splits)
qed simp

section \<open>Tracing\<close>

text \<open>The inner service and its futures keep their own part of the state.\<close>

definition on_snd :: "('f \<Rightarrow> 's \<Rightarrow> 'r \<times> 'f2 \<times> 's) \<Rightarrow> 'f \<Rightarrow> 'tr \<times> 's \<Rightarrow> 'r \<times> 'f2 \<times> ('tr \<times> 's)" where
  "on_snd p f x = (case p f (snd x) of (r, f1, s1) \<Rightarrow> (r, f1, (fst x, s1)))"

definition tracing_call ::
  "('span \<Rightarrow> 'tr \<Rightarrow> 'tr) \<Rightarrow> ('span \<Rightarrow> 'tr \<Rightarrow> 'tr) \<Rightarrow> ('span \<Rightarrow> 'tr \<Rightarrow> 'span \<times> 'tr) \<Rightarrow>
   ('s, 'q, 'r, 'e, 'f) service \<Rightarrow> ('q \<Rightarrow> 'span option) \<Rightarrow> 'q \<Rightarrow> 'tr \<times> 's \<Rightarrow> ('f, 'span \<times> 'f) either_fut \<times> ('tr \<times> 's)" where
  "tracing_call enter exit child inner make_span req ts =
     (let span = make_span req;
          tr1 = (case span of Some sp \<Rightarrow> enter sp (fst ts) | None \<Rightarrow> fst ts);
          (fut, s1) = call_fn inner req (snd ts)
      in case span of
           Some sp \<Rightarrow>
             (case child sp tr1 of
                (span2, tr2) \<Rightarrow> (EitherRight (span2, fut), (exit sp tr2, s1)))
         | None \<Rightarrow> (EitherLeft fut, (tr1, s1)))"

definition tracing_service ::
  "('span \<Rightarrow> 'tr \<Rightarrow> 'tr) \<Rightarrow> ('span \<Rightarrow> 'tr \<Rightarrow> 'tr) \<Rightarrow> ('span \<Rightarrow> 'tr \<Rightarrow> 'span \<times> 'tr) \<Rightarrow>
   (('s, ('r, 'e) result, 'f) poller \<Rightarrow> ('tr \<times> 's, ('r, 'e) result, 'span \<times> 'f) poller) \<Rightarrow>
   ('s, 'q, 'r, 'e, 'f) service \<Rightarrow> ('q \<Rightarrow> 'span option) \<Rightarrow>
   ('tr \<times> 's, 'q, 'r, 'e, ('f, 'span \<times> 'f) either_fut) service" where
  "tracing_service enter exit child instrumented inner make_span =
     \<lparr>ready_fn = (\<lambda>ts. case ready_fn inner (snd ts) of (r, s1) \<Rightarrow> (r, (fst ts, s1))),
      call_fn = tracing_call enter exit child inner make_span,
      poll_fn = either_poll (on_snd (poll_fn inner)) (instrumented (poll_fn inner))\<rparr>"

definition tracing_transform ::
  "('span \<Rightarrow> 'tr \<Rightarrow> 'tr) \<Rightarrow> ('span \<Rightarrow> 'tr \<Rightarrow> 'tr) \<Rightarrow> ('span \<Rightarrow> 'tr \<Rightarrow> 'span \<times> 'tr) \<Rightarrow>
   (('s, ('r, 'e) result, 'f) poller \<Rightarrow> ('tr \<times> 's, ('r, 'e) result, 'span \<times> 'f) poller) \<Rightarrow> ('q \<Rightarrow> 'span option) \<Rightarrow>
   ('st, ('s, 'q, 'r, 'e, 'f) service, ('tr \<times> 's, 'q, 'r, 'e, ('f, 'span \<times> 'f) either_fut) service, 'ie,
     (('tr \<times> 's, 'q, 'r, 'e, ('f, 'span \<times> 'f) either_fut) service, 'ie) result option) transform" where
  "tracing_transform enter exit child instrumented make_span =
     \<lparr>new_transform_fn = (\<lambda>svc st. (Some (Ok (tracing_service enter exit child instrumented svc make_span)), st)),
      tpoll_fn = ready_poll\<rparr>"

definition tracing_trace where
  "tracing_trace enter exit child instrumented make_span fac =
     apply_transform (tracing_transform enter exit child instrumented make_span) fac"

text \<open>What the code relies on: polling an instrumented future polls the future inside, and the span's
  part of the state is all it changes besides.\<close>

definition instruments ::
  "(('s, 'a, 'f) poller \<Rightarrow> ('tr \<times> 's, 'a, 'span \<times> 'f) poller) \<Rightarrow> bool" where
  "instruments instrumented \<longleftrightarrow>
     (\<forall>p sp f tr s. \<exists>tr1. instrumented p (sp, f) (tr, s) = (case p f s of (r, f1, s1) \<Rightarrow> (r, (sp, f1), (tr1, s1))))"

lemma run_on_snd: "run_fut (on_snd p) n f (tr, s) = map_option (\<lambda>(r, s1). (r, (tr, s1))) (run_fut p n f s)"
  by (induction n arbitrary: f s) (auto simp: on_snd_def split: prod.splits result.splits poll.splits)

lemma run_instrumented:
  assumes "instruments instrumented"
  shows "map_option (\<lambda>(r, ts). (r, snd ts)) (run_fut (instrumented p) n (sp, f) (tr, s)) = run_fut p n f s"
proof (induction n arbitrary: f tr s)
  case (Suc n)
  obtain tr1 where "instrumented p (sp, f) (tr, s) = (case p f s of (r, f1, s1) \<Rightarrow> (r, (sp, f1), (tr1, s1)))"
    using assms unfolding instruments_def by blast
  with Suc show ?case by (auto split: prod.splits result.splits poll.splits)
qed simp

lemma run_call_tracing:
  assumes "instruments instrumented"
  shows "map_option (\<lambda>(r, ts). (r, snd ts))
      (run_call (tracing_service enter exit child instrumented inner make_span) n req (tr, s)) = run_call inner n req s"
proof -
  obtain f s1 where "call_fn inner req s = (f, s1)" by (cases "call_fn inner req s")
  then show ?thesis
    by (cases "make_span req")
      (auto simp: run_call_def tracing_service_def tracing_call_def Let_def run_either_left run_either_right
        run_on_snd run_instrumented [OF assms, unfolded case_prod_beta'] option.map_comp comp_def case_prod_beta' option.map_ident split: prod.splits)
qed

text \<open>
  Tracing is transparent.  Given a library that instruments, the traced service answers readiness
  and every request exactly as the service inside does, poll for poll, panics included, whether or not
  the request has a span and whatever the spans' operations do; and a call leaves no span entered: each
  \<open>enter\<close> is matched by its \<open>exit\<close>, after the child span is made.\<close>

theorem tracing_transparent:
  assumes "instruments instrumented"
  shows "map_option (\<lambda>(r, ts). (r, snd ts))
      (run_call (tracing_service enter exit child instrumented inner make_span) n req (tr, s)) = run_call inner n req s
    \<and> ready_fn (tracing_service enter exit child instrumented inner make_span) (tr, s)
        = (case ready_fn inner s of (r, s1) \<Rightarrow> (r, (tr, s1)))
    \<and> fst (snd (call_fn (tracing_service enter exit child instrumented inner make_span) req (tr, s)))
        = (case make_span req of None \<Rightarrow> tr | Some sp \<Rightarrow> exit sp (snd (child sp (enter sp tr))))"
  using run_call_tracing [OF assms]
  by (auto simp: tracing_service_def tracing_call_def Let_def split: option.split prod.split)

text \<open>Spans that log their events, around a service that adds one to the shared counter.\<close>

theorem tracing_transparent_witness:
  "map_option (\<lambda>(r, ts). (r, snd ts))
     (run_call (tracing_service (\<lambda>sp tr. (sp, True) # tr) (\<lambda>sp tr. (sp, False) # tr) (\<lambda>sp tr. (Suc sp, tr))
        (\<lambda>p (sp, f) (tr, s). case p f s of (r, f1, s1) \<Rightarrow> (r, (sp, f1), ((sp, False) # (sp, True) # tr, s1)))
        (immediate (\<lambda>q s. (Ok (q + s) :: (nat, nat) result, Suc s))) (\<lambda>q. if q = 0 then None else Some q)) 1 5 ([], 2))
   = Some (Ok (Ok 7), 3)"
proof -
  have "instruments (\<lambda>p (sp, f) (tr, s :: nat). case p f s of (r :: ((nat, nat) result poll, panic) result, f1 :: (nat, nat) result option, s1) \<Rightarrow>
      (r, (sp :: nat, f1), ((sp, False) # (sp, True) # tr, s1)))"
    by (auto simp: instruments_def split: prod.splits)
  from tracing_transparent [OF this, of "\<lambda>sp tr. (sp, True) # tr" "\<lambda>sp tr. (sp, False) # tr" "\<lambda>sp tr. (Suc sp, tr)"
      "immediate (\<lambda>q s. (Ok (q + s), Suc s))" "\<lambda>q. if q = 0 then None else Some q" 1 5 "[]" 2]
  show ?thesis
    by (simp add: run_call_def immediate_def fn_service_def ready_poll_def)
qed

end
