(* ===== verification/Utf8.thy ===== *)
theory Utf8
  imports Prelude
begin

text \<open>
  The part of the Rust standard library's \<open>str\<close> the crates rely on: validation of a byte slice
  (\<open>str::from_utf8\<close>, \<open>String::from_utf8\<close>), \<open>is_ascii\<close> and \<open>str::is_char_boundary\<close>.  A Rust
  string is its byte list, with \<open>valid_utf8\<close> as the invariant of the type.  Validation is the
  byte-class table of the standard library; \<open>utf8_encode\<close> gives the code-point view it is
  checked against.
\<close>

section \<open>Validation\<close>

definition cont :: "u8 \<Rightarrow> bool" where
  "cont b \<longleftrightarrow> 0x80 \<le> b \<and> b \<le> 0xBF"

text \<open>The admissible second bytes after a three-byte and after a four-byte lead.\<close>

definition second3 :: "u8 \<Rightarrow> u8 \<Rightarrow> bool" where
  "second3 b c \<longleftrightarrow>
     (if b = 0xE0 then 0xA0 \<le> c \<and> c \<le> 0xBF
      else if b = 0xED then 0x80 \<le> c \<and> c \<le> 0x9F
      else cont c)"

definition second4 :: "u8 \<Rightarrow> u8 \<Rightarrow> bool" where
  "second4 b c \<longleftrightarrow>
     (if b = 0xF0 then 0x90 \<le> c \<and> c \<le> 0xBF
      else if b = 0xF4 then 0x80 \<le> c \<and> c \<le> 0x8F
      else cont c)"

text \<open>The width of the code point a byte starts, 0 when no code point starts with it.\<close>

definition utf8_width :: "u8 \<Rightarrow> nat" where
  "utf8_width b =
     (if b \<le> 0x7F then 1
      else if 0xC2 \<le> b \<and> b \<le> 0xDF then 2
      else if 0xE0 \<le> b \<and> b \<le> 0xEF then 3
      else if 0xF0 \<le> b \<and> b \<le> 0xF4 then 4
      else 0)"

fun valid_utf8 :: "u8 list \<Rightarrow> bool" where
  "valid_utf8 [] = True"
| "valid_utf8 (b # bs) =
     (if utf8_width b = 1 then valid_utf8 bs
      else if utf8_width b = 2 then
        (case bs of c # r \<Rightarrow> cont c \<and> valid_utf8 r | _ \<Rightarrow> False)
      else if utf8_width b = 3 then
        (case bs of c # d # r \<Rightarrow> second3 b c \<and> cont d \<and> valid_utf8 r | _ \<Rightarrow> False)
      else if utf8_width b = 4 then
        (case bs of c # d # e # r \<Rightarrow> second4 b c \<and> cont d \<and> cont e \<and> valid_utf8 r | _ \<Rightarrow> False)
      else False)"

definition is_ascii :: "u8 list \<Rightarrow> bool" where
  "is_ascii bs \<longleftrightarrow> list_all (\<lambda>b. b \<le> 0x7F) bs"

text \<open>\<open>str::is_char_boundary\<close>: the ends, and every index whose byte is not a continuation byte.\<close>

definition is_char_boundary :: "u8 list \<Rightarrow> nat \<Rightarrow> bool" where
  "is_char_boundary bs i \<longleftrightarrow>
     i = 0 \<or> i = length bs \<or> (i < length bs \<and> \<not> cont (bs ! i))"

section \<open>Closure properties\<close>

lemmas byte_nat_simps = word_le_nat_alt word_less_nat_alt unat_word_ariths

lemma second3_cont: "second3 b c \<Longrightarrow> cont c"
  by (auto simp: second3_def cont_def word_le_nat_alt split: if_splits)

lemma second4_cont: "second4 b c \<Longrightarrow> cont c"
  by (auto simp: second4_def cont_def word_le_nat_alt split: if_splits)

lemma utf8_width_ascii: "b \<le> 0x7F \<Longrightarrow> utf8_width b = 1"
  by (simp add: utf8_width_def)

lemma valid_utf8_ascii: "is_ascii bs \<Longrightarrow> valid_utf8 bs"
  by (induction bs) (auto simp: is_ascii_def utf8_width_ascii)

lemma not_cont_ascii: "b \<le> 0x7F \<Longrightarrow> \<not> cont b"
  by (auto simp: cont_def word_le_nat_alt)

text \<open>The lead byte decides how many bytes the first code point has; the rest are continuation
  bytes and the tail is valid again.\<close>

lemma valid_utf8_lead:
  assumes "valid_utf8 (b # bs)"
  shows "\<exists>cs r. bs = cs @ r \<and> length (b # cs) = utf8_width b \<and> (\<forall>c \<in> set cs. cont c) \<and>
    valid_utf8 r \<and> valid_utf8 (b # cs)"
proof -
  consider "utf8_width b = 1" | "utf8_width b = 2" | "utf8_width b = 3" | "utf8_width b = 4"
    using assms by (auto simp: utf8_width_def split: if_splits)
  then show ?thesis
  proof cases
    case 1
    with assms show ?thesis by (intro exI [of _ "[]"] exI [of _ bs]) simp
  next
    case 2
    with assms obtain c r where "bs = c # r" "cont c" "valid_utf8 r"
      by (auto split: list.splits)
    with 2 show ?thesis by (intro exI [of _ "[c]"] exI [of _ r]) simp
  next
    case 3
    with assms obtain c d r where "bs = c # d # r" "second3 b c" "cont d" "valid_utf8 r"
      by (auto split: list.splits)
    with 3 show ?thesis by (intro exI [of _ "[c, d]"] exI [of _ r]) (auto dest: second3_cont)
  next
    case 4
    with assms obtain c d e r
      where "bs = c # d # e # r" "second4 b c" "cont d" "cont e" "valid_utf8 r"
      by (auto split: list.splits)
    with 4 show ?thesis by (intro exI [of _ "[c, d, e]"] exI [of _ r]) (auto dest: second4_cont)
  qed
qed

lemma valid_utf8_char_append:
  assumes "valid_utf8 (b # cs)" and "length (b # cs) = utf8_width b"
  shows "valid_utf8 (b # cs @ t) = valid_utf8 t"
proof -
  consider "cs = []" | c where "cs = [c]" | c d where "cs = [c, d]" | c d e where "cs = [c, d, e]"
  proof -
    have "length cs < 4" using assms(2) by (auto simp: utf8_width_def split: if_splits)
    then show ?thesis using that by (cases cs rule: remdups_adj.cases; auto) (auto simp: numeral_eq_Suc less_Suc_eq length_Suc_conv)
  qed
  then show ?thesis
    using assms by cases simp_all
qed

lemma valid_utf8_append: "valid_utf8 as \<Longrightarrow> valid_utf8 (as @ bs) = valid_utf8 bs"
proof (induction as rule: length_induct)
  case (1 as)
  show ?case
  proof (cases as)
    case (Cons b as')
    with 1(2) obtain cs r where "as' = cs @ r" "length (b # cs) = utf8_width b" "valid_utf8 r"
      "valid_utf8 (b # cs)" using valid_utf8_lead [of b as'] by auto
    with 1(1) Cons valid_utf8_char_append [of b cs "r @ bs"] show ?thesis by auto
  qed simp
qed

lemma boundary_after_cont:
  assumes "is_char_boundary (b # cs @ r) i" and "\<forall>c \<in> set cs. cont c"
  shows "i = 0 \<or> (\<exists>j. i = Suc (length cs) + j \<and> is_char_boundary r j)"
proof (cases "i \<le> length cs")
  case True
  have "i = 0"
  proof (rule ccontr)
    assume "i \<noteq> 0"
    with True have "(b # cs @ r) ! i = cs ! (i - 1)" "cs ! (i - 1) \<in> set cs"
      by (auto simp: nth_Cons nth_append split: nat.splits)
    with assms True \<open>i \<noteq> 0\<close> show False by (auto simp: is_char_boundary_def)
  qed
  then show ?thesis ..
next
  case False
  then obtain j where "i = Suc (length cs) + j" using less_imp_Suc_add [of "length cs" i] by auto
  with assms(1) show ?thesis by (auto simp: is_char_boundary_def nth_append)
qed

text \<open>Cutting a string at a character boundary leaves two strings.\<close>

lemma valid_utf8_split:
  assumes "valid_utf8 bs" and "is_char_boundary bs i"
  shows "valid_utf8 (take i bs) \<and> valid_utf8 (drop i bs)"
  using assms
proof (induction bs arbitrary: i rule: length_induct)
  case (1 bs)
  show ?case
  proof (cases bs)
    case Nil
    then show ?thesis by simp
  next
    case (Cons b bs')
    with 1(2) obtain cs r where r: "bs' = cs @ r" "\<forall>c \<in> set cs. cont c" "valid_utf8 r"
      "valid_utf8 (b # cs)" using valid_utf8_lead [of b bs'] by auto
    from 1(3) Cons r boundary_after_cont [of b cs r i]
    consider "i = 0" | j where "i = Suc (length cs) + j" "is_char_boundary r j" by auto
    then show ?thesis
    proof cases
      case 1
      with \<open>valid_utf8 bs\<close> show ?thesis by simp
    next
      case (2 j)
      have "valid_utf8 (take j r) \<and> valid_utf8 (drop j r)"
        using 1(1) Cons r 2 by auto
      with valid_utf8_append [OF r(4), of "take j r"] Cons r 2 show ?thesis by simp
    qed
  qed
qed

section \<open>Code points\<close>

text \<open>A Unicode scalar value and its encoding; \<open>valid_utf8_iff\<close> says that validation accepts
  exactly the encodings of sequences of scalar values.\<close>

definition scalar :: "nat \<Rightarrow> bool" where
  "scalar c \<longleftrightarrow> c < 0xD800 \<or> (0xE000 \<le> c \<and> c < 0x110000)"

definition utf8_encode :: "nat \<Rightarrow> u8 list" where
  "utf8_encode c =
     (if c < 0x80 then [of_nat c]
      else if c < 0x800 then [of_nat (0xC0 + c div 64), of_nat (0x80 + c mod 64)]
      else if c < 0x10000 then
        [of_nat (0xE0 + c div 4096), of_nat (0x80 + c div 64 mod 64), of_nat (0x80 + c mod 64)]
      else
        [of_nat (0xF0 + c div 262144), of_nat (0x80 + c div 4096 mod 64),
         of_nat (0x80 + c div 64 mod 64), of_nat (0x80 + c mod 64)])"

definition utf8_string :: "nat list \<Rightarrow> u8 list" where
  "utf8_string cs = concat (map utf8_encode cs)"

lemma unat_of_nat_u8: "n < 256 \<Longrightarrow> unat (of_nat n :: u8) = n"
  by (simp add: unat_of_nat)

lemma cont_of_nat: "n < 256 \<Longrightarrow> cont (of_nat n) \<longleftrightarrow> 128 \<le> n \<and> n < 192"
  by (auto simp: cont_def word_le_nat_alt unat_of_nat)

lemma utf8_width_of_nat:
  "n < 256 \<Longrightarrow> utf8_width (of_nat n) =
     (if n < 128 then 1 else if 194 \<le> n \<and> n < 224 then 2 else if 224 \<le> n \<and> n < 240 then 3
      else if 240 \<le> n \<and> n < 245 then 4 else 0)"
  by (auto simp: utf8_width_def word_le_nat_alt unat_of_nat)

lemma of_nat_u8_eq_iff: "n < 256 \<Longrightarrow> m < 256 \<Longrightarrow> (of_nat n :: u8) = of_nat m \<longleftrightarrow> n = m"
  by (metis unat_of_nat_u8)

lemma second3_of_nat:
  assumes "n < 256" "m < 256"
  shows "second3 (of_nat n) (of_nat m) \<longleftrightarrow>
     (if n = 224 then 160 \<le> m \<and> m < 192 else if n = 237 then 128 \<le> m \<and> m < 160
      else 128 \<le> m \<and> m < 192)"
  using of_nat_u8_eq_iff [of n 224] of_nat_u8_eq_iff [of n 237] assms
  by (auto simp: second3_def cont_def word_le_nat_alt unat_of_nat)

lemma second4_of_nat:
  assumes "n < 256" "m < 256"
  shows "second4 (of_nat n) (of_nat m) \<longleftrightarrow>
     (if n = 240 then 144 \<le> m \<and> m < 192 else if n = 244 then 128 \<le> m \<and> m < 144
      else 128 \<le> m \<and> m < 192)"
  using of_nat_u8_eq_iff [of n 240] of_nat_u8_eq_iff [of n 244] assms
  by (auto simp: second4_def cont_def word_le_nat_alt unat_of_nat)

lemmas byte_classes = utf8_width_of_nat second3_of_nat second4_of_nat cont_of_nat

lemma base64_digit: "(q :: nat) < 64 \<Longrightarrow> (a * 64 + q) div 64 = a \<and> (a * 64 + q) mod 64 = q"
  by simp

lemma valid_utf8_encode:
  assumes "scalar c"
  shows "valid_utf8 (utf8_encode c)"
proof -
  consider "c < 128" | "128 \<le> c" "c < 2048" | "2048 \<le> c" "c < 65536" | "65536 \<le> c" "c < 1114112"
    using assms by (force simp: scalar_def)
  then show ?thesis
  proof cases
    case 1
    then show ?thesis by (simp add: utf8_encode_def utf8_width_of_nat)
  next
    case 2
    then have "194 \<le> 192 + c div 64" "192 + c div 64 < 224" by auto
    with 2 show ?thesis
      using byte_classes [of "192 + c div 64"] cont_of_nat [of "128 + c mod 64"]
      by (simp add: utf8_encode_def)
  next
    case 3
    define x y z where "x = 224 + c div 4096" and "y = 128 + c div 64 mod 64" and "z = 128 + c mod 64"
    have "x < 240" "224 \<le> x" using 3 by (auto simp: x_def)
    moreover have "y < 192" "128 \<le> y" "z < 192" "128 \<le> z" by (auto simp: y_def z_def)
    moreover have "x = 224 \<Longrightarrow> 160 \<le> y" using 3 by (auto simp: x_def y_def)
    moreover have "x = 237 \<Longrightarrow> y < 160"
    proof -
      assume "x = 237"
      then have "c div 4096 = 13" by (simp add: x_def)
      then have "53248 \<le> c" "c < 57344" by auto
      then have "c < 55296" using assms by (auto simp: scalar_def)
      with \<open>53248 \<le> c\<close> have "832 \<le> c div 64" "c div 64 < 864" by auto
      then obtain j where "c div 64 = 13 * 64 + j" "j < 32" using le_Suc_ex [of 832 "c div 64"] by auto
      then have "c div 64 mod 64 < 32" using base64_digit [of j 13] by (simp only:)
      then show ?thesis by (simp add: y_def)
    qed
    ultimately have "valid_utf8 [of_nat x, of_nat y, of_nat z]"
      by (simp add: utf8_width_of_nat second3_of_nat cont_of_nat del: of_nat_add)
    with 3 show ?thesis by (simp add: utf8_encode_def x_def y_def z_def)
  next
    case 4
    define x y z w where "x = 240 + c div 262144" and "y = 128 + c div 4096 mod 64"
      and "z = 128 + c div 64 mod 64" and "w = 128 + c mod 64"
    have "x < 245" "240 \<le> x" using 4 by (auto simp: x_def)
    moreover have "y < 192" "128 \<le> y" "z < 192" "128 \<le> z" "w < 192" "128 \<le> w"
      by (auto simp: y_def z_def w_def)
    moreover have "x = 240 \<Longrightarrow> 144 \<le> y" using 4 by (auto simp: x_def y_def)
    moreover have "x = 244 \<Longrightarrow> y < 144"
    proof -
      assume "x = 244"
      with 4 have "c div 262144 = 4" by (simp add: x_def)
      with 4 have "256 \<le> c div 4096" "c div 4096 < 272" by auto
      then obtain j where "c div 4096 = 4 * 64 + j" "j < 16" using le_Suc_ex [of 256 "c div 4096"] by auto
      then have "c div 4096 mod 64 < 16" using base64_digit [of j 4] by (simp only:)
      then show ?thesis by (simp add: y_def)
    qed
    ultimately have "valid_utf8 [of_nat x, of_nat y, of_nat z, of_nat w]"
      by (simp add: utf8_width_of_nat second4_of_nat cont_of_nat del: of_nat_add)
    with 4 show ?thesis by (simp add: utf8_encode_def x_def y_def z_def w_def)
  qed
qed

lemma valid_utf8_string: "list_all scalar cs \<Longrightarrow> valid_utf8 (utf8_string cs)"
  by (induction cs) (auto simp: utf8_string_def valid_utf8_append valid_utf8_encode)

text \<open>Conversely one valid code point is the encoding of a scalar value.\<close>

lemma div_4096: "(c :: nat) div 4096 = c div 64 div 64"
  by (simp flip: div_mult2_eq)

lemma div_262144: "(c :: nat) div 262144 = c div 64 div 64 div 64"
  by (simp flip: div_mult2_eq)

lemma utf8_encode_ex:
  assumes "valid_utf8 (b # cs)" and "length (b # cs) = utf8_width b"
  shows "\<exists>c. scalar c \<and> utf8_encode c = b # cs"
proof -
  define x where "x = unat b"
  have b: "b = of_nat x" "x < 256" using unsigned_less [of b] by (simp_all add: x_def)
  have byte: "\<exists>n. c = of_nat n \<and> n < 256" for c :: u8
    using unsigned_less [of c] by (intro exI [of _ "unat c"]) simp
  consider "x < 128" "cs = []" | y where "194 \<le> x" "x < 224" "cs = [y]"
    | y z where "224 \<le> x" "x < 240" "cs = [y, z]"
    | y z w where "240 \<le> x" "x < 245" "cs = [y, z, w]"
    using assms(2) b by (auto simp: utf8_width_of_nat length_Suc_conv numeral_eq_Suc split: if_splits)
  then show ?thesis
  proof cases
    case 1
    with b show ?thesis by (intro exI [of _ x]) (simp add: scalar_def utf8_encode_def)
  next
    case (2 y)
    obtain n where n: "y = of_nat n" "n < 256" using byte by blast
    with 2 b assms(1) have "128 \<le> n" "n < 192" by (auto simp: utf8_width_of_nat cont_of_nat)
    then obtain m where m: "n = 128 + m" "m < 64" using le_Suc_ex by fastforce
    from 2 obtain k where k: "x = 192 + k" "2 \<le> k" "k < 32"
      using le_Suc_ex [of 194 x] by force
    show ?thesis using k m n b 2
      by (intro exI [of _ "k * 64 + m"]) (simp add: scalar_def utf8_encode_def)
  next
    case (3 y z)
    obtain n m where n: "y = of_nat n" "n < 256" "z = of_nat m" "m < 256" using byte by metis
    have v: "second3 (of_nat x) (of_nat n)" "cont (of_nat m)"
      using 3 b n assms(1) by (auto simp: utf8_width_of_nat)
    then have "128 \<le> m" "m < 192" "128 \<le> n" "n < 192" "x = 224 \<Longrightarrow> 160 \<le> n" "x = 237 \<Longrightarrow> n < 160"
      using n b second3_of_nat [of x n] cont_of_nat [of m] by (auto split: if_splits)
    then obtain p q where pq: "n = 128 + p" "p < 64" "m = 128 + q" "q < 64"
      using le_Suc_ex [of 128 n] le_Suc_ex [of 128 m] by fastforce
    from 3 obtain k where k: "x = 224 + k" "k < 16" using le_Suc_ex [of 224 x] by force
    have lo: "2048 \<le> k * 4096 + p * 64 + q"
      using \<open>x = 224 \<Longrightarrow> 160 \<le> n\<close> k pq by (cases "k = 0") auto
    have sur: "k * 4096 + p * 64 + q < 55296 \<or> 57344 \<le> k * 4096 + p * 64 + q"
      using \<open>x = 237 \<Longrightarrow> n < 160\<close> k pq by (cases "k = 13"; cases "k < 13") auto
    have e: "k * 4096 + p * 64 + q = (k * 64 + p) * 64 + q" by simp
    have d: "(k * 4096 + p * 64 + q) div 4096 = k" "(k * 4096 + p * 64 + q) div 64 mod 64 = p"
      "(k * 4096 + p * 64 + q) mod 64 = q"
      unfolding e using base64_digit [of q "k * 64 + p"] base64_digit [of p k] pq
      by (simp_all add: div_4096)
    show ?thesis using k pq n b 3 lo sur d
      by (intro exI [of _ "k * 4096 + p * 64 + q"]) (simp add: scalar_def utf8_encode_def)
  next
    case (4 y z w)
    obtain n m l where n: "y = of_nat n" "n < 256" "z = of_nat m" "m < 256" "w = of_nat l" "l < 256"
      using byte by metis
    have v: "second4 (of_nat x) (of_nat n)" "cont (of_nat m)" "cont (of_nat l)"
      using 4 b n assms(1) by (auto simp: utf8_width_of_nat)
    then have "128 \<le> m" "m < 192" "128 \<le> l" "l < 192" "128 \<le> n" "n < 192"
      "x = 240 \<Longrightarrow> 144 \<le> n" "x = 244 \<Longrightarrow> n < 144"
      using n b second4_of_nat [of x n] cont_of_nat [of m] cont_of_nat [of l]
      by (auto split: if_splits)
    then obtain p q r where pq: "n = 128 + p" "p < 64" "m = 128 + q" "q < 64" "l = 128 + r" "r < 64"
      using le_Suc_ex [of 128 n] le_Suc_ex [of 128 m] le_Suc_ex [of 128 l] by fastforce
    from 4 obtain k where k: "x = 240 + k" "k < 5" using le_Suc_ex [of 240 x] by force
    have lo: "65536 \<le> k * 262144 + p * 4096 + q * 64 + r"
      using \<open>x = 240 \<Longrightarrow> 144 \<le> n\<close> k pq by (cases "k = 0") auto
    have hi: "k * 262144 + p * 4096 + q * 64 + r < 1114112"
      using \<open>x = 244 \<Longrightarrow> n < 144\<close> k pq by (cases "k = 4") auto
    have e: "k * 262144 + p * 4096 + q * 64 + r = ((k * 64 + p) * 64 + q) * 64 + r" by simp
    have d: "(k * 262144 + p * 4096 + q * 64 + r) div 262144 = k"
      "(k * 262144 + p * 4096 + q * 64 + r) div 4096 mod 64 = p"
      "(k * 262144 + p * 4096 + q * 64 + r) div 64 mod 64 = q"
      "(k * 262144 + p * 4096 + q * 64 + r) mod 64 = r"
      unfolding e using base64_digit [of r "(k * 64 + p) * 64 + q"]
        base64_digit [of q "k * 64 + p"] base64_digit [of p k] pq
      by (simp_all add: div_4096 div_262144)
    show ?thesis using k pq n b 4 lo hi d
      by (intro exI [of _ "k * 262144 + p * 4096 + q * 64 + r"]) (simp add: scalar_def utf8_encode_def)
  qed
qed

lemma valid_utf8_iff: "valid_utf8 bs \<longleftrightarrow> (\<exists>cs. list_all scalar cs \<and> utf8_string cs = bs)"
proof
  show "valid_utf8 bs \<Longrightarrow> \<exists>cs. list_all scalar cs \<and> utf8_string cs = bs"
  proof (induction bs rule: length_induct)
    case (1 bs)
    show ?case
    proof (cases bs)
      case Nil
      then show ?thesis by (intro exI [of _ "[]"]) (simp add: utf8_string_def)
    next
      case (Cons b bs')
      with 1(2) obtain ds r where r: "bs' = ds @ r" "length (b # ds) = utf8_width b"
        "valid_utf8 r" "valid_utf8 (b # ds)" using valid_utf8_lead [of b bs'] by auto
      then obtain c where "scalar c" "utf8_encode c = b # ds" using utf8_encode_ex by blast
      moreover have "\<exists>cs. list_all scalar cs \<and> utf8_string cs = r" using 1(1) r Cons by auto
      then obtain cs where "list_all scalar cs" "utf8_string cs = r" by blast
      ultimately show ?thesis using r Cons
        by (intro exI [of _ "c # cs"]) (simp add: utf8_string_def)
    qed
  qed
qed (auto simp: valid_utf8_string)

end
