(* ===== verification/Lines_Codec.thy ===== *)
theory Lines_Codec
  imports Utf8
begin

text \<open>
  \<open>actix-codec/src/lines.rs\<close> and \<open>actix-codec/src/bcodec.rs\<close>: the line codec with its optional
  length limit and its resumable search, and the pass-through byte codec.  A \<open>BytesMut\<close> buffer
  is its contents, a byte list; \<open>split_to\<close>, \<open>advance\<close>, \<open>truncate\<close> and \<open>put_slice\<close> are the list
  operations their documentation gives, and \<open>reserve\<close> changes capacity only.  The function
  \<open>memchr\<close> comes from a third-party crate: it is an argument of \<open>decode\<close>, and the locale
  \<open>memchr_spec\<close> is its documented contract.
\<close>

section \<open>The search function\<close>

locale memchr_spec =
  fixes mc :: "u8 \<Rightarrow> u8 list \<Rightarrow> nat option"
  assumes mc_None: "mc b xs = None \<Longrightarrow> b \<notin> set xs"
    and mc_Some: "mc b xs = Some n \<Longrightarrow> n < length xs \<and> xs ! n = b \<and> b \<notin> set (take n xs)"
begin

lemma mc_absent: "b \<notin> set xs \<Longrightarrow> mc b xs = None"
  using mc_Some [of b xs] nth_mem by (cases "mc b xs") force+

lemma mc_first:
  assumes "b \<notin> set xs"
  shows "mc b (xs @ b # ys) = Some (length xs)"
proof -
  from mc_None [of b "xs @ b # ys"] obtain n where n: "mc b (xs @ b # ys) = Some n"
    by (cases "mc b (xs @ b # ys)") auto
  from mc_Some [OF this] have "(xs @ b # ys) ! n = b" "b \<notin> set (take n (xs @ b # ys))" by auto
  then have "\<not> n < length xs" "\<not> length xs < n"
    using assms by (auto simp: nth_append take_Cons' split: if_splits dest: nth_mem)
  with n show ?thesis by simp
qed

lemma mc_split:
  "mc b xs = Some n \<Longrightarrow> xs = take n xs @ b # drop (Suc n) xs \<and> b \<notin> set (take n xs) \<and> n < length xs"
  using mc_Some [of b xs n] id_take_nth_drop [of n xs] by auto

end

text \<open>The contract has a model: a plain linear search.\<close>

fun linear_memchr :: "u8 \<Rightarrow> u8 list \<Rightarrow> nat option" where
  "linear_memchr b [] = None"
| "linear_memchr b (x # xs) = (if x = b then Some 0 else map_option Suc (linear_memchr b xs))"

lemma linear_memchr_None: "linear_memchr b xs = None \<Longrightarrow> b \<notin> set xs"
  by (induction xs) (auto split: if_splits)

lemma linear_memchr_Some:
  "linear_memchr b xs = Some n \<Longrightarrow> n < length xs \<and> xs ! n = b \<and> b \<notin> set (take n xs)"
  by (induction xs arbitrary: n) (auto split: if_splits)

interpretation linear: memchr_spec linear_memchr
  by unfold_locales (auto dest: linear_memchr_None linear_memchr_Some)

section \<open>The line codec\<close>

abbreviation LF :: u8 where "LF \<equiv> 0x0A"
abbreviation CR :: u8 where "CR \<equiv> 0x0D"

record lines_codec =
  max_length :: usize
  next_index :: nat

definition lines_new :: lines_codec where
  "lines_new = \<lparr>max_length = usize_max, next_index = 0\<rparr>"

definition lines_new_with_max_length :: "usize \<Rightarrow> lines_codec" where
  "lines_new_with_max_length m = \<lparr>max_length = m, next_index = 0\<rparr>"

definition encode :: "u8 list \<Rightarrow> u8 list \<Rightarrow> (unit, io_error) result \<times> u8 list" where
  "encode item dst = (Ok (), dst @ item @ [LF])"

definition try_into_utf8 :: "u8 list \<Rightarrow> (u8 list option, io_error) result" where
  "try_into_utf8 buf = (if valid_utf8 buf then Ok (Some buf) else Err InvalidData)"

text \<open>The two length checks: the buffered bytes without a delimiter, and the bytes before the
  delimiter; a carriage return in last place is allowed for.\<close>

definition over_limit :: "usize \<Rightarrow> u8 list \<Rightarrow> bool" where
  "over_limit lim line \<longleftrightarrow>
     lim \<noteq> usize_max \<and>
     (let max_cr = saturating_add lim 1 in
      length line > unat lim \<and>
      \<not> (length line = unat max_cr \<and> line \<noteq> [] \<and> last line = CR))"

definition decode ::
  "(u8 \<Rightarrow> u8 list \<Rightarrow> nat option) \<Rightarrow> lines_codec \<Rightarrow> u8 list \<Rightarrow>
     (u8 list option, io_error) result \<times> lines_codec \<times> u8 list" where
  "decode mc c src =
     (if src = [] then (Ok None, c\<lparr>next_index := 0\<rparr>, src)
      else
        let start = (if next_index c < length src then next_index c else 0) in
        case mc LF (drop start src) of
          None \<Rightarrow>
            (if over_limit (max_length c) src then (Err InvalidData, c, src)
             else (Ok None, c\<lparr>next_index := length src\<rparr>, src))
        | Some n \<Rightarrow>
            (let len = start + n in
             if over_limit (max_length c) (take len src) then (Err InvalidData, c, src)
             else
               let c1 = c\<lparr>next_index := 0\<rparr>;
                   buf = take len src;
                   src1 = drop 1 (drop len src) in
               if buf = [] then (Ok (Some []), c1, src1)
               else if last buf = CR then (try_into_utf8 (take (len - 1) buf), c1, src1)
               else (try_into_utf8 buf, c1, src1)))"

definition decode_eof ::
  "(u8 \<Rightarrow> u8 list \<Rightarrow> nat option) \<Rightarrow> lines_codec \<Rightarrow> u8 list \<Rightarrow>
     (u8 list option, io_error) result \<times> lines_codec \<times> u8 list" where
  "decode_eof mc c src =
     (case decode mc c src of
        (Err e, c1, src1) \<Rightarrow> (Err e, c1, src1)
      | (Ok (Some frame), c1, src1) \<Rightarrow> (Ok (Some frame), c1, src1)
      | (Ok None, c1, src1) \<Rightarrow>
          (if src1 = [] then (Ok None, c1, src1)
           else
             let c2 = c1\<lparr>next_index := 0\<rparr>;
                 (buf, src2) =
                   (if last src1 = CR
                    then (take (length src1 - 1) src1, drop (length src1 - 1) src1)
                    else (src1, []))
             in if buf = [] then (Ok None, c2, src2) else (try_into_utf8 buf, c2, src2)))"

section \<open>The byte codec\<close>

definition bytes_encode :: "u8 list \<Rightarrow> u8 list \<Rightarrow> (unit, io_error) result \<times> u8 list" where
  "bytes_encode item dst = (Ok (), dst @ item)"

definition bytes_decode :: "u8 list \<Rightarrow> (u8 list option, io_error) result \<times> u8 list" where
  "bytes_decode src = (if src = [] then (Ok None, src) else (Ok (Some src), []))"

section \<open>Reference splitting\<close>

text \<open>What a reader of the documentation expects of the line codec, without buffers or resumed
  searches: cut at every line feed, drop one carriage return before it, convert each line.\<close>

definition strip_cr :: "u8 list \<Rightarrow> u8 list" where
  "strip_cr l = (if l \<noteq> [] \<and> last l = CR then butlast l else l)"

definition line_result :: "u8 list \<Rightarrow> (u8 list, io_error) result" where
  "line_result l = (let s = strip_cr l in if valid_utf8 s then Ok s else Err InvalidData)"

fun split_lines :: "u8 list \<Rightarrow> u8 list \<Rightarrow> u8 list list \<times> u8 list" where
  "split_lines acc [] = ([], acc)"
| "split_lines acc (b # bs) =
     (if b = LF then (case split_lines [] bs of (ls, r) \<Rightarrow> (acc # ls, r))
      else split_lines (acc @ [b]) bs)"

lemma split_lines_no_lf: "LF \<notin> set xs \<Longrightarrow> split_lines acc xs = ([], acc @ xs)"
  by (induction xs arbitrary: acc) auto

lemma split_lines_no_lf_append: "LF \<notin> set xs \<Longrightarrow> split_lines acc (xs @ ys) = split_lines (acc @ xs) ys"
  by (induction xs arbitrary: acc) auto

lemma split_lines_append:
  "split_lines acc (xs @ ys) =
     (case split_lines acc xs of (ls, r) \<Rightarrow> (case split_lines r ys of (ls', r') \<Rightarrow> (ls @ ls', r')))"
  by (induction acc xs rule: split_lines.induct) (auto split: prod.splits)

lemma split_lines_rest: "LF \<notin> set acc \<Longrightarrow> LF \<notin> set (snd (split_lines acc xs))"
  by (induction acc xs rule: split_lines.induct) (auto split: prod.splits)

lemma split_lines_rest_idem: "split_lines [] (snd (split_lines [] xs)) = ([], snd (split_lines [] xs))"
  using split_lines_no_lf [OF split_lines_rest [of "[]" xs]] by simp

section \<open>One decode step\<close>

text \<open>\<open>scanned\<close> is the codec's buffer invariant: the bytes before \<open>next_index\<close> hold no line feed.\<close>

definition scanned :: "lines_codec \<Rightarrow> u8 list \<Rightarrow> bool" where
  "scanned c src \<longleftrightarrow> LF \<notin> set (take (next_index c) src)"

lemma over_limit_unlimited: "\<not> over_limit usize_max l"
  by (simp add: over_limit_def)

lemma over_limit_False:
  assumes "\<not> over_limit m l" and "m \<noteq> usize_max"
  shows "length (strip_cr l) \<le> unat m \<and> length l \<le> unat m + 1"
proof -
  have "unat m < 2 ^ 64 - 1"
    using assms(2) unat_lt_64 [of m] unat_usize_max word_unat_eq_iff [of m usize_max] by linarith
  then have "unat (saturating_add m 1) = unat m + 1" by (simp add: unat_saturating_add)
  with assms show ?thesis by (auto simp: over_limit_def strip_cr_def Let_def)
qed

text \<open>The check of the code, with its case for a carriage return, compares the line as it is returned.\<close>

lemma over_limit_iff:
  assumes "m \<noteq> usize_max"
  shows "over_limit m l \<longleftrightarrow> unat m < length (strip_cr l)"
proof
  assume "unat m < length (strip_cr l)"
  then show "over_limit m l" using over_limit_False [OF _ assms, of l] by fastforce
next
  assume l: "over_limit m l"
  have "unat m < 2 ^ 64 - 1"
    using assms unat_lt_64 [of m] unat_usize_max word_unat_eq_iff [of m usize_max] by linarith
  then have "unat (saturating_add m 1) = unat m + 1" by (simp add: unat_saturating_add)
  with l show "unat m < length (strip_cr l)" by (auto simp: over_limit_def strip_cr_def Let_def)
qed

context memchr_spec
begin

lemma decode_nil: "decode mc c [] = (Ok None, c\<lparr>next_index := 0\<rparr>, [])"
  by (simp add: decode_def)

lemma mc_resume:
  assumes "LF \<notin> set (take k src)"
  shows "mc LF (drop k src) = map_option (\<lambda>n. n - k) (mc LF src)
    \<and> (\<forall>n. mc LF src = Some n \<longrightarrow> k \<le> n)"
proof (cases "LF \<in> set src")
  case False
  then have "LF \<notin> set (drop k src)" using in_set_dropD by fast
  with False show ?thesis by (simp add: mc_absent)
next
  case True
  then obtain xs ys where src: "src = xs @ LF # ys" "LF \<notin> set xs" by (meson split_list_first)
  have k: "k \<le> length xs"
  proof (rule ccontr)
    assume "\<not> k \<le> length xs"
    then have "LF \<in> set (take k src)" using src by (simp add: take_Cons')
    with assms show False by simp
  qed
  then have "mc LF (drop k src) = Some (length (drop k xs))"
    using src mc_first [of LF "drop k xs" ys] in_set_dropD [of LF k xs] by auto
  with src k mc_first [of LF xs ys] show ?thesis by simp
qed

text \<open>Resuming the search where the last one stopped gives what a fresh search gives, and the
  scanned prefix never holds a line feed.\<close>

lemma decode_resume:
  assumes "scanned c src"
  shows "fst (decode mc c src) = fst (decode mc (c\<lparr>next_index := 0\<rparr>) src)
    \<and> snd (snd (decode mc c src)) = snd (snd (decode mc (c\<lparr>next_index := 0\<rparr>) src))"
  using mc_resume [of "next_index c" src] assms
  by (cases "mc LF src") (auto simp: decode_def Let_def scanned_def)

lemma decode_scanned:
  assumes "scanned c src" and "decode mc c src = (r, c', src')"
  shows "scanned c' src'"
proof (cases "r = Ok None")
  case True
  with assms mc_None [of LF "drop (next_index c) src"] mc_None [of LF src]
  show ?thesis
    by (auto simp: decode_def Let_def scanned_def try_into_utf8_def
        split: if_splits option.splits) (metis append_take_drop_id Un_iff set_append)
next
  case False
  with assms show ?thesis
    by (auto simp: decode_def Let_def scanned_def try_into_utf8_def split: if_splits option.splits)
qed

text \<open>The first line of the buffer.\<close>

lemma decode_line:
  assumes "LF \<notin> set l" and "scanned c (l @ LF # rest)"
  shows "decode mc c (l @ LF # rest) =
    (if over_limit (max_length c) l then (Err InvalidData, c, l @ LF # rest)
     else (map_result Some (line_result l), c\<lparr>next_index := 0\<rparr>, rest))"
proof -
  let ?src = "l @ LF # rest"
  let ?start = "if next_index c < length ?src then next_index c else 0"
  have k: "LF \<notin> set (take ?start ?src)" using assms(2) by (auto simp: scanned_def)
  have m: "mc LF ?src = Some (length l)" using assms(1) by (rule mc_first)
  with mc_resume [OF k] have s: "mc LF (drop ?start ?src) = Some (length l - ?start)" "?start \<le> length l"
    by auto
  then have len: "?start + (length l - ?start) = length l" by simp
  have "take (length l - 1) l = butlast l" by (simp add: butlast_conv_take)
  then show ?thesis
    unfolding decode_def Let_def s(1) option.case len
    by (simp add: try_into_utf8_def line_result_def strip_cr_def Let_def)
qed

lemma decode_no_line:
  assumes "LF \<notin> set src" and "src \<noteq> []"
  shows "decode mc c src =
    (if over_limit (max_length c) src then (Err InvalidData, c, src)
     else (Ok None, c\<lparr>next_index := length src\<rparr>, src))"
proof -
  have "mc LF (drop k src) = None" for k
    using assms(1) in_set_dropD [of LF k src] by (blast intro: mc_absent)
  with assms(2) show ?thesis by (simp add: decode_def Let_def)
qed

end

section \<open>Draining a buffer\<close>

text \<open>Calling \<open>decode\<close> (or \<open>decode_eof\<close>) as the framed transport does, until it asks for more data,
  or stops consuming, which it does only on an over-long line.\<close>

function decode_run ::
  "(u8 \<Rightarrow> u8 list \<Rightarrow> nat option) \<Rightarrow> lines_codec \<Rightarrow> u8 list \<Rightarrow>
     (u8 list, io_error) result list \<times> lines_codec \<times> u8 list" where
  "decode_run mc c src =
     (case decode mc c src of
        (Ok None, c1, src1) \<Rightarrow> ([], c1, src1)
      | (Ok (Some l), c1, src1) \<Rightarrow>
          (if length src1 < length src
           then (case decode_run mc c1 src1 of (rs, c2, src2) \<Rightarrow> (Ok l # rs, c2, src2))
           else ([Ok l], c1, src1))
      | (Err e, c1, src1) \<Rightarrow>
          (if length src1 < length src
           then (case decode_run mc c1 src1 of (rs, c2, src2) \<Rightarrow> (Err e # rs, c2, src2))
           else ([Err e], c1, src1)))"
  by pat_completeness auto
termination by (relation "measure (\<lambda>(mc, c, src). length src)") auto

declare decode_run.simps [simp del]

fun feed_all ::
  "(u8 \<Rightarrow> u8 list \<Rightarrow> nat option) \<Rightarrow> lines_codec \<Rightarrow> u8 list \<Rightarrow> u8 list list \<Rightarrow>
     (u8 list, io_error) result list \<times> lines_codec \<times> u8 list" where
  "feed_all mc c buf [] = ([], c, buf)"
| "feed_all mc c buf (chunk # chunks) =
     (case decode_run mc c (buf @ chunk) of
        (rs, c1, buf1) \<Rightarrow>
          (case feed_all mc c1 buf1 chunks of (rs', c2, buf2) \<Rightarrow> (rs @ rs', c2, buf2)))"

lemma over_limit_prefix:
  assumes "\<not> over_limit m (p @ q)"
  shows "\<not> over_limit m p"
proof (cases "m = usize_max \<or> q = []")
  case False
  then have "length (p @ q) \<le> unat m + 1" "0 < length q"
    using over_limit_False [OF assms] by auto
  then have "length p \<le> unat m" by (cases q) auto
  then show ?thesis by (simp add: over_limit_def Let_def)
qed (use assms in \<open>auto simp: over_limit_def\<close>)

definition within_limit :: "usize \<Rightarrow> u8 list list \<times> u8 list \<Rightarrow> bool" where
  "within_limit m lr \<longleftrightarrow> (\<forall>l \<in> set (fst lr). \<not> over_limit m l) \<and> \<not> over_limit m (snd lr)"

lemma within_unlimited: "within_limit usize_max lr"
  by (simp add: within_limit_def over_limit_unlimited)

lemma split_first:
  "LF \<notin> set l \<Longrightarrow> split_lines acc (l @ LF # rest) =
     (case split_lines [] rest of (ls, r) \<Rightarrow> ((acc @ l) # ls, r))"
  by (simp add: split_lines_no_lf_append)

text \<open>The rest of a prefix is a prefix of a line or of the rest, so a stream within the limit is
  within the limit at every cut.\<close>

lemma split_lines_acc_limit:
  "within_limit m (split_lines acc xs) \<Longrightarrow> \<not> over_limit m acc"
proof (induction acc xs rule: split_lines.induct)
  case (2 acc b bs)
  show ?case
  proof (cases "b = LF")
    case True
    with 2 show ?thesis by (auto simp: within_limit_def split: prod.splits)
  next
    case False
    with 2 have "\<not> over_limit m (acc @ [b])" by simp
    then show ?thesis by (rule over_limit_prefix)
  qed
qed (simp add: within_limit_def)

lemma within_limit_prefix:
  assumes "within_limit m (split_lines [] (xs @ ys))"
  shows "within_limit m (split_lines [] xs) \<and>
    within_limit m (split_lines [] (snd (split_lines [] xs) @ ys))"
proof -
  obtain ls r where lr: "split_lines [] xs = (ls, r)" by force
  then have r: "LF \<notin> set r" using split_lines_rest [of "[]" xs] by simp
  obtain ls' r' where lr': "split_lines r ys = (ls', r')" by force
  with assms lr have *: "\<forall>l \<in> set (ls @ ls'). \<not> over_limit m l" "\<not> over_limit m r'"
    by (auto simp: split_lines_append within_limit_def)
  then have "\<not> over_limit m r"
    using split_lines_acc_limit [of m r ys] lr' by (simp add: within_limit_def)
  with * lr lr' r show ?thesis by (simp add: within_limit_def split_lines_no_lf_append)
qed

context memchr_spec
begin

lemma decode_run_lines:
  assumes "within_limit (max_length c) (split_lines [] src)" and "scanned c src"
  shows "decode_run mc c src =
    (map line_result (fst (split_lines [] src)),
     c\<lparr>next_index := length (snd (split_lines [] src))\<rparr>, snd (split_lines [] src))"
  using assms
proof (induction src arbitrary: c rule: length_induct)
  case (1 src)
  show ?case
  proof (cases "LF \<in> set src")
    case False
    with 1(2) have "\<not> over_limit (max_length c) src"
      by (simp add: split_lines_no_lf within_limit_def)
    with False show ?thesis
      by (cases "src = []")
        (simp_all add: decode_run.simps [of mc c src] decode_run.simps [of mc c "[]"]
          decode_nil decode_no_line split_lines_no_lf)
  next
    case True
    then obtain l rest where src: "src = l @ LF # rest" "LF \<notin> set l" by (meson split_list_first)
    obtain ls r where lr: "split_lines [] rest = (ls, r)" by force
    with src have lr': "split_lines [] src = (l # ls, r)" by (simp add: split_first)
    with 1(2) have ok: "\<not> over_limit (max_length c) l" "within_limit (max_length c) (ls, r)"
      by (auto simp: within_limit_def)
    have d: "decode mc c src = (map_result Some (line_result l), c\<lparr>next_index := 0\<rparr>, rest)"
      using decode_line [of l c rest] 1(3) src ok by simp
    have "decode_run mc (c\<lparr>next_index := 0\<rparr>) rest =
        (map line_result ls, c\<lparr>next_index := length r\<rparr>, r)"
      using 1(1) src ok lr by (auto simp: scanned_def)
    with d lr' src show ?thesis
      by (cases "line_result l") (simp_all add: decode_run.simps [of mc c "l @ LF # rest"])
  qed
qed

lemma feed_all_lines:
  assumes "within_limit (max_length c) (split_lines [] (buf @ concat chunks))"
    and "LF \<notin> set buf" and "next_index c \<le> length buf"
  shows "fst (feed_all mc c buf chunks) = map line_result (fst (split_lines [] (buf @ concat chunks)))
    \<and> snd (snd (feed_all mc c buf chunks)) = snd (split_lines [] (buf @ concat chunks))"
  using assms
proof (induction chunks arbitrary: c buf)
  case Nil
  then show ?case by (simp add: split_lines_no_lf)
next
  case (Cons chunk chunks)
  define r where "r = snd (split_lines [] (buf @ chunk))"
  have lim: "within_limit (max_length c) (split_lines [] (buf @ chunk))"
    "within_limit (max_length c) (split_lines [] (r @ concat chunks))"
    using within_limit_prefix [of "max_length c" "buf @ chunk" "concat chunks"] Cons.prems(1)
    by (simp_all add: r_def)
  have "scanned c (buf @ chunk)"
    using Cons.prems(2,3) by (auto simp: scanned_def dest: in_set_takeD)
  then have run: "decode_run mc c (buf @ chunk) =
      (map line_result (fst (split_lines [] (buf @ chunk))), c\<lparr>next_index := length r\<rparr>, r)"
    using decode_run_lines [OF lim(1)] by (simp add: r_def)
  have r: "LF \<notin> set r" by (simp add: r_def split_lines_rest)
  have "split_lines [] (buf @ concat (chunk # chunks)) =
      (fst (split_lines [] (buf @ chunk)) @ fst (split_lines [] (r @ concat chunks)),
       snd (split_lines [] (r @ concat chunks)))"
    using r split_lines_append [of "[]" "buf @ chunk" "concat chunks"]
    by (simp add: r_def split_lines_no_lf_append split: prod.splits)
  with run r lim(2) Cons.IH [of "c\<lparr>next_index := length r\<rparr>" r] show ?case
    by (auto split: prod.splits)
qed

lemma encode_decode:
  assumes "valid_utf8 item" and "LF \<notin> set item" and "item = [] \<or> last item \<noteq> CR"
    and "length item \<le> unat (max_length c)" and "next_index c = 0"
  shows "decode mc c (snd (encode item []) @ rest) = (Ok (Some item), c, rest)"
proof -
  have "\<not> over_limit (max_length c) item" using assms(4) by (simp add: over_limit_def Let_def)
  moreover have "line_result item = Ok item"
    using assms(1,3) by (auto simp: line_result_def strip_cr_def)
  ultimately show ?thesis
    using assms(5) decode_line [OF assms(2), of c rest] by (simp add: encode_def scanned_def)
qed

text \<open>At the end of the stream: the complete lines, then the unterminated rest without one final
  carriage return.\<close>

lemma decode_eof_rest:
  assumes "LF \<notin> set r" and "\<not> over_limit (max_length c) r"
  shows "decode_eof mc c r =
    (if strip_cr r = [] then Ok None else map_result Some (line_result r), c\<lparr>next_index := 0\<rparr>,
     if r \<noteq> [] \<and> last r = CR then [CR] else [])"
proof (cases "r = []")
  case True
  then show ?thesis by (simp add: decode_eof_def decode_nil strip_cr_def)
next
  case False
  have "r \<noteq> [] \<Longrightarrow> last r = CR \<Longrightarrow> drop (length r - 1) r = [CR]"
    by (metis append_butlast_last_id append_eq_conv_conj length_butlast)
  moreover have "last r = CR \<Longrightarrow> length r \<le> 1 \<Longrightarrow> r = [CR]" using False by (cases r) auto
  ultimately show ?thesis using False assms
    by (simp add: decode_eof_def decode_no_line Let_def strip_cr_def try_into_utf8_def line_result_def
        butlast_conv_take)
qed

lemma decode_eof_line:
  assumes "LF \<notin> set l" and "scanned c (l @ LF # rest)" and "\<not> over_limit (max_length c) l"
  shows "decode_eof mc c (l @ LF # rest) = (map_result Some (line_result l), c\<lparr>next_index := 0\<rparr>, rest)"
  using decode_line [OF assms(1,2)] assms(3)
  by (cases "line_result l") (simp_all add: decode_eof_def)

text \<open>The limit, for both ways of decoding: \<open>eof\<close> selects \<open>decode_eof\<close>.\<close>

lemma decode_limit_line:
  assumes "LF \<notin> set l" and "scanned c (l @ LF # rest)" and "max_length c \<noteq> usize_max"
    and "(if eof then decode_eof mc c else decode mc c) (l @ LF # rest) = (r, c', src')"
  shows "(if unat (max_length c) < length (strip_cr l) then r = Err InvalidData \<and> src' = l @ LF # rest \<and> c' = c
    else r = map_result Some (line_result l) \<and> src' = rest)"
  using decode_line [OF assms(1,2)] decode_eof_line [OF assms(1,2)] assms(4) over_limit_iff [OF assms(3), of l]
  by (cases eof) (auto simp: decode_eof_def)

lemma decode_limit_no_line:
  assumes "LF \<notin> set src" and "max_length c \<noteq> usize_max"
    and "(if eof then decode_eof mc c else decode mc c) src = (r, c', src')"
  shows "(if unat (max_length c) < length (strip_cr src) then r = Err InvalidData \<and> src' = src \<and> c' = c
    else if \<not> eof then r = Ok None \<and> src' = src
    else r = (if strip_cr src = [] then Ok None else map_result Some (line_result src))
      \<and> src' = (if src \<noteq> [] \<and> last src = CR then [CR] else []))"
proof (cases "over_limit (max_length c) src")
  case True
  then have "src \<noteq> []" by (auto simp: over_limit_def)
  with True decode_no_line [OF assms(1), of c] assms(3) over_limit_iff [OF assms(2), of src] show ?thesis
    by (cases eof) (auto simp: decode_eof_def)
next
  case False
  with decode_no_line [OF assms(1), of c] decode_eof_rest [OF assms(1), of c] assms(3) over_limit_iff [OF assms(2), of src]
  show ?thesis by (cases eof; cases "src = []") (auto simp: decode_nil)
qed

end

section \<open>Properties\<close>



text \<open>
  C32. The length limit of \<open>LinesCodec\<close>, in \<open>decode\<close> and \<open>decode_eof\<close>: no line they return, the
  unterminated one at the end of the stream included, is longer than \<open>max_length\<close>; the first line of the
  buffer, up to its line feed or the end of the buffer and without a carriage return at its end, is refused
  exactly when it is longer, without consuming a byte or changing the codec; and \<open>decode\<close> asks for more
  data only while at most \<open>max_length + 1\<close> bytes are buffered.
\<close>

theorem lines_limit_enforced:
  assumes "memchr_spec mc" and "scanned c src" and "max_length c \<noteq> usize_max"
    and "(if eof then decode_eof mc c else decode mc c) src = (r, c', src')"
  shows "(\<forall>l. r = Ok (Some l) \<longrightarrow> length l \<le> unat (max_length c))
    \<and> (unat (max_length c) < length (strip_cr (takeWhile (\<lambda>b. b \<noteq> LF) src)) \<longleftrightarrow> \<not> is_ok r \<and> src' = src)
    \<and> (\<not> is_ok r \<and> src' = src \<longrightarrow> r = Err InvalidData \<and> c' = c)
    \<and> (\<not> eof \<and> r = Ok None \<longrightarrow> src' = src \<and> length src \<le> unat (max_length c) + 1)"
proof (cases "LF \<in> set src")
  case True
  then obtain l rest where src: "src = l @ LF # rest" "LF \<notin> set l" by (meson split_list_first)
  then have t: "takeWhile (\<lambda>b. b \<noteq> LF) src = l" by (auto simp: takeWhile_tail)
  from memchr_spec.decode_limit_line [OF assms(1) src(2), of c rest eof r c' src'] assms(2-4) src(1)
  have d: "if unat (max_length c) < length (strip_cr l) then r = Err InvalidData \<and> src' = src \<and> c' = c
      else r = map_result Some (line_result l) \<and> src' = rest" by simp
  have "src' \<noteq> src" if "src' = rest" using that src(1) by simp
  with d t show ?thesis
    by (cases "unat (max_length c) < length (strip_cr l)"; cases "valid_utf8 (strip_cr l)")
      (simp_all add: line_result_def Let_def)
next
  case False
  then have t: "takeWhile (\<lambda>b. b \<noteq> LF) src = src" by (auto simp: takeWhile_eq_all_conv)
  have len: "length src \<le> Suc (length (strip_cr src))" by (simp add: strip_cr_def)
  have rest: "(if src \<noteq> [] \<and> last src = CR then [CR] else []) \<noteq> src" if "strip_cr src \<noteq> []"
    using that by (auto simp: strip_cr_def split: if_splits)
  show ?thesis
  proof (cases "unat (max_length c) < length (strip_cr src)")
    case True
    with memchr_spec.decode_limit_no_line [OF assms(1) False assms(3,4)] show ?thesis by (simp add: t)
  next
    case False': False
    with memchr_spec.decode_limit_no_line [OF assms(1) False assms(3,4)] len rest show ?thesis
      by (cases eof; cases "strip_cr src = []"; cases "valid_utf8 (strip_cr src)")
        (simp_all add: t line_result_def Let_def)
  qed
qed

text \<open>At the end of the stream a rest of two bytes and a carriage return is within a limit of two, and a
  rest of three bytes is refused.\<close>

theorem lines_limit_enforced_witness:
  "length [0x61, 0x62 :: u8] \<le> unat (max_length (lines_new_with_max_length 2))
   \<and> decode_eof linear_memchr (lines_new_with_max_length 2) [0x61, 0x62, CR]
      = (Ok (Some [0x61, 0x62]), lines_new_with_max_length 2, [CR])
   \<and> \<not> is_ok (fst (decode_eof linear_memchr (lines_new_with_max_length 2) [0x61, 0x62, 0x63]))"
proof -
  let ?c = "lines_new_with_max_length 2"
  have ok: "decode_eof linear_memchr ?c [0x61, 0x62, CR] = (Ok (Some [0x61, 0x62]), ?c, [CR])"
    by (simp add: decode_eof_def decode_def lines_new_with_max_length_def over_limit_def try_into_utf8_def utf8_width_def
        saturating_add_def)
  have c: "scanned ?c src" "max_length ?c \<noteq> usize_max" for src
    by (simp_all add: scanned_def lines_new_with_max_length_def)
  obtain r c' src' where no: "decode_eof linear_memchr ?c [0x61, 0x62, 0x63] = (r, c', src')"
    by (cases "decode_eof linear_memchr ?c [0x61, 0x62, 0x63]")
  have "length [0x61, 0x62 :: u8] \<le> unat (max_length ?c)"
    using lines_limit_enforced [OF linear.memchr_spec_axioms c, where eof = True, simplified if_True, OF ok] by simp
  moreover have "\<not> is_ok r"
    using lines_limit_enforced [OF linear.memchr_spec_axioms c, where eof = True, simplified if_True, OF no]
    by (simp add: lines_new_with_max_length_def strip_cr_def)
  ultimately show ?thesis using ok no by simp
qed

text \<open>
  Round trip of one line: what \<open>encode\<close> appends, \<open>decode\<close> returns, leaving the bytes that follow.
\<close>

theorem lines_encode_decode:
  assumes "memchr_spec mc" and "valid_utf8 item" and "LF \<notin> set item"
    and "item = [] \<or> last item \<noteq> CR" and "length item \<le> unat (max_length c)" and "next_index c = 0"
  shows "decode mc c (snd (encode item []) @ rest) = (Ok (Some item), c, rest)"
  using memchr_spec.encode_decode [OF assms] .

theorem lines_encode_decode_witness:
  "decode linear_memchr lines_new (snd (encode [0x68, 0x69] []) @ [0x21]) = (Ok (Some [0x68, 0x69]), lines_new, [0x21])"
  by (rule lines_encode_decode [OF linear.memchr_spec_axioms])
    (simp_all add: lines_new_def utf8_width_def unat_usize_max)

end
