(* ===== verification/Framed.thy ===== *)
theory Framed
  imports Lines_Codec
begin

text \<open>
  \<open>actix-codec/src/framed.rs\<close>: the framed transport, a codec and two buffers over an I/O object.
  The I/O object and the codec are type parameters of the code, so their methods are arguments
  here: \<open>poll_read\<close> is \<open>tokio_util::io::poll_read_buf\<close> on the object (the bytes it appended,
  none at the end of the stream), \<open>poll_write\<close>, \<open>poll_flush\<close> and \<open>poll_shutdown\<close> the methods of
  \<open>AsyncWrite\<close>, and \<open>dec\<close>, \<open>dec_eof\<close>, \<open>enc\<close> those of the codec.  Buffers are their contents:
  \<open>reserve\<close> changes capacity only.  \<open>from_io\<close> is \<open>From<io::Error>\<close> of the codec's error type.
\<close>

section \<open>State\<close>

definition HW :: nat where "HW = 8 * 1024"

record ('io, 'c) framed =
  fio :: 'io
  codec :: 'c
  fl_eof :: bool
  fl_readable :: bool
  read_buf :: "u8 list"
  write_buf :: "u8 list"

definition framed_new :: "'io \<Rightarrow> 'c \<Rightarrow> ('io, 'c) framed" where
  "framed_new io cd = \<lparr>fio = io, codec = cd, fl_eof = False, fl_readable = False,
     read_buf = [], write_buf = []\<rparr>"

definition is_read_buf_empty :: "('io, 'c) framed \<Rightarrow> bool" where
  "is_read_buf_empty f \<longleftrightarrow> read_buf f = []"

definition is_write_buf_empty :: "('io, 'c) framed \<Rightarrow> bool" where
  "is_write_buf_empty f \<longleftrightarrow> write_buf f = []"

definition is_write_buf_full :: "('io, 'c) framed \<Rightarrow> bool" where
  "is_write_buf_full f \<longleftrightarrow> HW \<le> length (write_buf f)"

definition is_write_ready :: "('io, 'c) framed \<Rightarrow> bool" where
  "is_write_ready f \<longleftrightarrow> length (write_buf f) < HW"

definition into_map_io :: "('io \<Rightarrow> 'io2) \<Rightarrow> ('io, 'c) framed \<Rightarrow> ('io2, 'c) framed" where
  "into_map_io g f = \<lparr>fio = g (fio f), codec = codec f, fl_eof = fl_eof f,
     fl_readable = fl_readable f, read_buf = read_buf f, write_buf = write_buf f\<rparr>"

definition into_map_codec :: "('c \<Rightarrow> 'c2) \<Rightarrow> ('io, 'c) framed \<Rightarrow> ('io, 'c2) framed" where
  "into_map_codec g f = \<lparr>fio = fio f, codec = g (codec f), fl_eof = fl_eof f,
     fl_readable = fl_readable f, read_buf = read_buf f, write_buf = write_buf f\<rparr>"

definition replace_codec :: "'c2 \<Rightarrow> ('io, 'c) framed \<Rightarrow> ('io, 'c2) framed" where
  "replace_codec cd f = \<lparr>fio = fio f, codec = cd, fl_eof = fl_eof f,
     fl_readable = fl_readable f, read_buf = read_buf f, write_buf = write_buf f\<rparr>"

record ('io, 'c) framed_parts =
  p_io :: 'io
  p_codec :: 'c
  p_read_buf :: "u8 list"
  p_write_buf :: "u8 list"
  p_eof :: bool
  p_readable :: bool

definition parts_new :: "'io \<Rightarrow> 'c \<Rightarrow> ('io, 'c) framed_parts" where
  "parts_new io cd = \<lparr>p_io = io, p_codec = cd, p_read_buf = [], p_write_buf = [],
     p_eof = False, p_readable = False\<rparr>"

definition parts_with_read_buf :: "'io \<Rightarrow> 'c \<Rightarrow> u8 list \<Rightarrow> ('io, 'c) framed_parts" where
  "parts_with_read_buf io cd rb = \<lparr>p_io = io, p_codec = cd, p_read_buf = rb, p_write_buf = [],
     p_eof = False, p_readable = False\<rparr>"

definition from_parts :: "('io, 'c) framed_parts \<Rightarrow> ('io, 'c) framed" where
  "from_parts p = \<lparr>fio = p_io p, codec = p_codec p, fl_eof = p_eof p, fl_readable = p_readable p,
     read_buf = p_read_buf p, write_buf = p_write_buf p\<rparr>"

definition into_parts :: "('io, 'c) framed \<Rightarrow> ('io, 'c) framed_parts" where
  "into_parts f = \<lparr>p_io = fio f, p_codec = codec f, p_read_buf = read_buf f,
     p_write_buf = write_buf f, p_eof = fl_eof f, p_readable = fl_readable f\<rparr>"

section \<open>Reading\<close>

text \<open>One iteration of the loop of \<open>next_item\<close> is a decoding part and a reading part; each either
  returns from the function, panics, or falls through.\<close>

datatype ('r, 's) flow = Return 'r 's | Continue 's | Panics panic

definition next_item_decode ::
  "('c \<Rightarrow> u8 list \<Rightarrow> ('i option, 'e) result \<times> 'c \<times> u8 list) \<Rightarrow>
   ('c \<Rightarrow> u8 list \<Rightarrow> ('i option, 'e) result \<times> 'c \<times> u8 list) \<Rightarrow>
   ('io, 'c) framed \<Rightarrow> (('i, 'e) result option poll, ('io, 'c) framed) flow" where
  "next_item_decode dec dec_eof f =
     (if fl_readable f then
        (if fl_eof f then
           (case dec_eof (codec f) (read_buf f) of
              (Ok (Some frame), c, b) \<Rightarrow> Return (Ready (Some (Ok frame))) (f\<lparr>codec := c, read_buf := b\<rparr>)
            | (Ok None, c, b) \<Rightarrow> Return (Ready None) (f\<lparr>codec := c, read_buf := b\<rparr>)
            | (Err e, c, b) \<Rightarrow> Return (Ready (Some (Err e))) (f\<lparr>codec := c, read_buf := b\<rparr>))
         else
           (case dec (codec f) (read_buf f) of
              (Ok (Some frame), c, b) \<Rightarrow> Return (Ready (Some (Ok frame))) (f\<lparr>codec := c, read_buf := b\<rparr>)
            | (Err e, c, b) \<Rightarrow> Return (Ready (Some (Err e))) (f\<lparr>codec := c, read_buf := b\<rparr>)
            | (Ok None, c, b) \<Rightarrow> Continue (f\<lparr>codec := c, read_buf := b, fl_readable := False\<rparr>)))
      else Continue f)"

definition next_item_read ::
  "('io \<Rightarrow> (u8 list, io_error) result poll \<times> 'io) \<Rightarrow> (io_error \<Rightarrow> 'e) \<Rightarrow>
   ('io, 'c) framed \<Rightarrow> (('i, 'e) result option poll, ('io, 'c) framed) flow" where
  "next_item_read poll_read from_io f =
     (if fl_eof f then Panics AssertFailed
      else
        case poll_read (fio f) of
          (Pending, io) \<Rightarrow> Return Pending (f\<lparr>fio := io\<rparr>)
        | (Ready (Err e), io) \<Rightarrow> Return (Ready (Some (Err (from_io e)))) (f\<lparr>fio := io\<rparr>)
        | (Ready (Ok bs), io) \<Rightarrow>
            (let f1 = f\<lparr>fio := io, read_buf := read_buf f @ bs\<rparr>;
                 f2 = (if length bs = 0 then f1\<lparr>fl_eof := True\<rparr> else f1)
             in Continue (f2\<lparr>fl_readable := True\<rparr>)))"

text \<open>The loop itself: \<^term>\<open>None\<close> is a call that never returns.\<close>

partial_function (option) next_item ::
  "('c \<Rightarrow> u8 list \<Rightarrow> ('i option, 'e) result \<times> 'c \<times> u8 list) \<Rightarrow>
   ('c \<Rightarrow> u8 list \<Rightarrow> ('i option, 'e) result \<times> 'c \<times> u8 list) \<Rightarrow>
   ('io \<Rightarrow> (u8 list, io_error) result poll \<times> 'io) \<Rightarrow> (io_error \<Rightarrow> 'e) \<Rightarrow>
   ('io, 'c) framed \<Rightarrow> (('i, 'e) result option poll \<times> ('io, 'c) framed, panic) result option" where
  "next_item dec dec_eof poll_read from_io f =
     (case next_item_decode dec dec_eof f of
        Return r f1 \<Rightarrow> Some (Ok (r, f1))
      | Panics p \<Rightarrow> Some (Err p)
      | Continue f1 \<Rightarrow>
          (case next_item_read poll_read from_io f1 of
             Return r f2 \<Rightarrow> Some (Ok (r, f2))
           | Panics p \<Rightarrow> Some (Err p)
           | Continue f2 \<Rightarrow> next_item dec dec_eof poll_read from_io f2))"

section \<open>Writing\<close>

text \<open>\<open>write\<close> encodes into the write buffer; the capacity it reserves first is not observable.\<close>

definition framed_write ::
  "('item \<Rightarrow> 'c \<Rightarrow> u8 list \<Rightarrow> (unit, 'e) result \<times> 'c \<times> u8 list) \<Rightarrow> 'item \<Rightarrow>
   ('io, 'c) framed \<Rightarrow> (unit, 'e) result \<times> ('io, 'c) framed" where
  "framed_write enc item f =
     (case enc item (codec f) (write_buf f) of
        (Err e, c, b) \<Rightarrow> (Err e, f\<lparr>codec := c, write_buf := b\<rparr>)
      | (Ok _, c, b) \<Rightarrow> (Ok (), f\<lparr>codec := c, write_buf := b\<rparr>))"

text \<open>The loop of \<open>flush\<close>; \<open>advance\<close> panics when the object claims to have written more than it
  was given.\<close>

function flush_loop ::
  "('io \<Rightarrow> u8 list \<Rightarrow> (nat, io_error) result poll \<times> 'io) \<Rightarrow> 'io \<Rightarrow> u8 list \<Rightarrow>
   ((unit, io_error) result poll, panic) result \<times> 'io \<times> u8 list" where
  "flush_loop poll_write io wb =
     (if wb = [] then (Ok (Ready (Ok ())), io, wb)
      else
        case poll_write io wb of
          (Pending, io1) \<Rightarrow> (Ok Pending, io1, wb)
        | (Ready (Err e), io1) \<Rightarrow> (Ok (Ready (Err e)), io1, wb)
        | (Ready (Ok n), io1) \<Rightarrow>
            (if n = 0 then (Ok (Ready (Err WriteZero)), io1, wb)
             else if n > length wb then (Err ExplicitPanic, io1, wb)
             else flush_loop poll_write io1 (drop n wb)))"
  by pat_completeness auto
termination by (relation "measure (\<lambda>(pw, io, wb). length wb)") auto

declare flush_loop.simps [simp del]

definition framed_flush ::
  "('io \<Rightarrow> u8 list \<Rightarrow> (nat, io_error) result poll \<times> 'io) \<Rightarrow>
   ('io \<Rightarrow> (unit, io_error) result poll \<times> 'io) \<Rightarrow> (io_error \<Rightarrow> 'e) \<Rightarrow>
   ('io, 'c) framed \<Rightarrow> ((unit, 'e) result poll \<times> ('io, 'c) framed, panic) result" where
  "framed_flush poll_write poll_flush from_io f =
     (case flush_loop poll_write (fio f) (write_buf f) of
        (Err p, io, wb) \<Rightarrow> Err p
      | (Ok Pending, io, wb) \<Rightarrow> Ok (Pending, f\<lparr>fio := io, write_buf := wb\<rparr>)
      | (Ok (Ready (Err e)), io, wb) \<Rightarrow> Ok (Ready (Err (from_io e)), f\<lparr>fio := io, write_buf := wb\<rparr>)
      | (Ok (Ready (Ok _)), io, wb) \<Rightarrow>
          (case poll_flush io of
             (Pending, io1) \<Rightarrow> Ok (Pending, f\<lparr>fio := io1, write_buf := wb\<rparr>)
           | (Ready (Err e), io1) \<Rightarrow> Ok (Ready (Err (from_io e)), f\<lparr>fio := io1, write_buf := wb\<rparr>)
           | (Ready (Ok _), io1) \<Rightarrow> Ok (Ready (Ok ()), f\<lparr>fio := io1, write_buf := wb\<rparr>)))"

definition framed_close ::
  "('io \<Rightarrow> (unit, io_error) result poll \<times> 'io) \<Rightarrow>
   ('io \<Rightarrow> (unit, io_error) result poll \<times> 'io) \<Rightarrow> (io_error \<Rightarrow> 'e) \<Rightarrow>
   ('io, 'c) framed \<Rightarrow> (unit, 'e) result poll \<times> ('io, 'c) framed" where
  "framed_close poll_flush poll_shutdown from_io f =
     (case poll_flush (fio f) of
        (Pending, io) \<Rightarrow> (Pending, f\<lparr>fio := io\<rparr>)
      | (Ready (Err e), io) \<Rightarrow> (Ready (Err (from_io e)), f\<lparr>fio := io\<rparr>)
      | (Ready (Ok _), io) \<Rightarrow>
          (case poll_shutdown io of
             (Pending, io1) \<Rightarrow> (Pending, f\<lparr>fio := io1\<rparr>)
           | (Ready (Err e), io1) \<Rightarrow> (Ready (Err (from_io e)), f\<lparr>fio := io1\<rparr>)
           | (Ready (Ok _), io1) \<Rightarrow> (Ready (Ok ()), f\<lparr>fio := io1\<rparr>)))"

text \<open>\<open>Sink::poll_ready\<close>: flush when the write buffer has reached the high-water mark.\<close>

definition framed_poll_ready ::
  "('io \<Rightarrow> u8 list \<Rightarrow> (nat, io_error) result poll \<times> 'io) \<Rightarrow>
   ('io \<Rightarrow> (unit, io_error) result poll \<times> 'io) \<Rightarrow> (io_error \<Rightarrow> 'e) \<Rightarrow>
   ('io, 'c) framed \<Rightarrow> ((unit, 'e) result poll \<times> ('io, 'c) framed, panic) result" where
  "framed_poll_ready poll_write poll_flush from_io f =
     (if is_write_ready f then Ok (Ready (Ok ()), f)
      else framed_flush poll_write poll_flush from_io f)"

section \<open>Contracts of the transport\<close>

text \<open>\<open>AsyncWrite\<close>: a successful write takes a prefix of what it is offered and appends it to the
  bytes accepted so far; nothing else changes them.\<close>

locale async_write =
  fixes pw :: "'io \<Rightarrow> u8 list \<Rightarrow> (nat, io_error) result poll \<times> 'io"
    and pf :: "'io \<Rightarrow> (unit, io_error) result poll \<times> 'io"
    and accepted :: "'io \<Rightarrow> u8 list"
  assumes write_ok: "pw io wb = (Ready (Ok n), io') \<Longrightarrow>
      n \<le> length wb \<and> accepted io' = accepted io @ take n wb"
    and write_pending: "pw io wb = (Pending, io') \<Longrightarrow> accepted io' = accepted io"
    and write_err: "pw io wb = (Ready (Err e), io') \<Longrightarrow> accepted io' = accepted io"
    and flush_keeps: "pf io = (p, io') \<Longrightarrow> accepted io' = accepted io"
begin

lemma flush_loop_lossless:
  "flush_loop pw io wb = (r, io', wb') \<Longrightarrow>
     accepted io' @ wb' = accepted io @ wb \<and> is_ok r \<and> (r = Ok (Ready (Ok ())) \<longrightarrow> wb' = [])"
proof (induction wb arbitrary: io rule: length_induct)
  case (1 wb)
  show ?case
  proof (cases "wb = [] \<or> (\<nexists>n io1. pw io wb = (Ready (Ok n), io1) \<and> 0 < n)")
    case True
    with 1(2) write_pending [of io wb] write_err [of io wb] write_ok [of io wb 0] show ?thesis
      by (auto simp: flush_loop.simps [of pw io wb] split: prod.splits poll.splits result.splits if_splits)
  next
    case False
    then obtain n io1 where n: "pw io wb = (Ready (Ok n), io1)" "0 < n" "wb \<noteq> []" by auto
    from write_ok [OF n(1)] have w: "n \<le> length wb" "accepted io1 = accepted io @ take n wb" by auto
    then have "flush_loop pw io1 (drop n wb) = (r, io', wb')"
      using 1(2) n by (simp add: flush_loop.simps [of pw io wb])
    with 1(1) [rule_format, of "drop n wb" io1] n w show ?thesis by auto
  qed
qed

lemma framed_flush_lossless:
  "\<exists>p f'. framed_flush pw pf from_io f = Ok (p, f')
    \<and> accepted (fio f') @ write_buf f' = accepted (fio f) @ write_buf f
    \<and> (p = Ready (Ok ()) \<longrightarrow> write_buf f' = []) \<and> read_buf f' = read_buf f \<and> codec f' = codec f"
proof -
  obtain r io wb where l: "flush_loop pw (fio f) (write_buf f) = (r, io, wb)" by (metis prod_cases3)
  note ll = flush_loop_lossless [OF l]
  then obtain q where r: "r = Ok q" by (auto simp: is_ok_iff)
  obtain q1 io1 where q: "pf io = (q1, io1)" by force
  then have io1: "accepted io1 = accepted io" by (rule flush_keeps)
  consider "q = Pending" | e where "q = Ready (Err e)" | "q = Ready (Ok ())" "q1 = Pending"
    | e where "q = Ready (Ok ())" "q1 = Ready (Err e)" | "q = Ready (Ok ())" "q1 = Ready (Ok ())"
    by (metis poll.exhaust result.exhaust unit.exhaust)
  then show ?thesis
    using l ll r q io1 by cases (auto simp: framed_flush_def)
qed

end

section \<open>A transport that follows a script\<close>

text \<open>The environment of a connection, written out: what successive reads deliver and what
  successive writes accept.  The end of the read script is the end of the stream, an exhausted
  write script blocks.\<close>

datatype read_event = Chunk "u8 list" | Stall | ReadError io_error
datatype write_event = Accept nat | Block | WriteError io_error

record script_io =
  reads :: "read_event list"
  writes :: "write_event list"
  out :: "u8 list"

fun script_read :: "script_io \<Rightarrow> (u8 list, io_error) result poll \<times> script_io" where
  "script_read t =
     (case reads t of
        [] \<Rightarrow> (Ready (Ok []), t)
      | Chunk bs # r \<Rightarrow> (Ready (Ok bs), t\<lparr>reads := r\<rparr>)
      | Stall # r \<Rightarrow> (Pending, t\<lparr>reads := r\<rparr>)
      | ReadError e # r \<Rightarrow> (Ready (Err e), t\<lparr>reads := r\<rparr>))"

fun script_write :: "script_io \<Rightarrow> u8 list \<Rightarrow> (nat, io_error) result poll \<times> script_io" where
  "script_write t wb =
     (case writes t of
        [] \<Rightarrow> (Pending, t)
      | Accept n # r \<Rightarrow>
          (Ready (Ok (min n (length wb))), t\<lparr>writes := r, out := out t @ take (min n (length wb)) wb\<rparr>)
      | Block # r \<Rightarrow> (Pending, t\<lparr>writes := r\<rparr>)
      | WriteError e # r \<Rightarrow> (Ready (Err e), t\<lparr>writes := r\<rparr>))"

definition script_flush :: "script_io \<Rightarrow> (unit, io_error) result poll \<times> script_io" where
  "script_flush t = (Ready (Ok ()), t)"

interpretation script: async_write script_write script_flush out
proof unfold_locales
  fix io wb n io'
  assume "script_write io wb = (Ready (Ok n), io')"
  then show "n \<le> length wb \<and> out io' = out io @ take n wb"
    by (auto split: list.splits write_event.splits)
qed (auto simp: script_flush_def split: list.splits write_event.splits)

section \<open>The reading loop\<close>

text \<open>The end-of-file flag is only ever set together with the readable flag, which is what the
  loop's \<open>debug_assert\<close> relies on.\<close>

definition framed_inv :: "('io, 'c) framed \<Rightarrow> bool" where
  "framed_inv f \<longleftrightarrow> (fl_eof f \<longrightarrow> fl_readable f)"

lemma framed_inv_new [inv_intros]: "framed_inv (framed_new io cd)"
  by (simp add: framed_inv_def framed_new_def)

lemma framed_inv_parts [inv_intros]:
  "framed_inv (from_parts (parts_new io cd))" "framed_inv (from_parts (parts_with_read_buf io cd rb))"
  "framed_inv f \<Longrightarrow> framed_inv (from_parts (into_parts f))"
  by (simp_all add: framed_inv_def from_parts_def parts_new_def parts_with_read_buf_def into_parts_def)

lemma next_item_decode_inv:
  "framed_inv f \<Longrightarrow> next_item_decode dec dec_eof f = Return r f' \<Longrightarrow> framed_inv f'"
  "framed_inv f \<Longrightarrow> next_item_decode dec dec_eof f = Continue f' \<Longrightarrow> \<not> fl_eof f' \<and> \<not> fl_readable f' \<and> fio f' = fio f"
  "next_item_decode dec dec_eof f \<noteq> Panics p"
  by (auto simp: framed_inv_def next_item_decode_def split: if_splits prod.splits result.splits option.splits)

lemma next_item_read_inv:
  "\<not> fl_eof f \<Longrightarrow> next_item_read pr from_io f = Return r f' \<Longrightarrow> framed_inv f'"
  "next_item_read pr from_io f = Continue f' \<Longrightarrow> framed_inv f' \<and> fl_readable f'"
  "\<not> fl_eof f \<Longrightarrow> next_item_read pr from_io f \<noteq> Panics p"
  by (auto simp: framed_inv_def next_item_read_def Let_def
      split: if_splits prod.splits poll.splits result.splits)

text \<open>When the readable flag is set together with end of file, the call returns at once.\<close>

lemma next_item_decode_eof:
  "fl_readable f \<Longrightarrow> fl_eof f \<Longrightarrow> \<exists>r f'. next_item_decode dec dec_eof f = Return r f'"
  by (auto simp: next_item_decode_def split: prod.splits result.splits option.splits)

lemma next_item_total:
  assumes "framed_inv f"
    and prog: "\<And>io bs io'. pr io = (Ready (Ok bs), io') \<Longrightarrow> bs \<noteq> [] \<Longrightarrow> m io' < (m io :: nat)"
  shows "\<exists>r f'. next_item dec dec_eof pr from_io f = Some (Ok (r, f')) \<and> framed_inv f'"
  using assms(1)
proof (induction "m (fio f)" arbitrary: f rule: less_induct)
  case less
  show ?case
  proof (cases "next_item_decode dec dec_eof f")
    case (Return r f')
    with less.prems next_item_decode_inv(1) [OF less.prems Return] show ?thesis
      by (subst next_item.simps) simp
  next
    case (Continue f1)
    note f1 = next_item_decode_inv(2) [OF less.prems Continue]
    show ?thesis
    proof (cases "next_item_read pr from_io f1 :: (('c, 'd) result option poll, ('a, 'b) framed) flow")
      case (Return r f')
      with Continue f1 next_item_read_inv(1) show ?thesis
        by (subst next_item.simps) (simp, blast)
    next
      case C2: (Continue f2)
      note f2 = next_item_read_inv(2) [OF C2]
      obtain bs io' where bs: "pr (fio f1) = (Ready (Ok bs), io')" "fio f2 = io'"
        "fl_eof f2 \<longleftrightarrow> bs = []"
        using C2 f1 by (auto simp: next_item_read_def Let_def
            split: if_splits prod.splits poll.splits result.splits)
      have "\<exists>r f'. next_item dec dec_eof pr from_io f2 = Some (Ok (r, f')) \<and> framed_inv f'"
      proof (cases "bs = []")
        case True
        with bs f2 next_item_decode_eof [of f2 dec dec_eof] obtain r f' where
          "next_item_decode dec dec_eof f2 = Return r f'" by auto
        with next_item_decode_inv(1) f2 show ?thesis by (subst next_item.simps) (simp, blast)
      next
        case False
        with prog [OF bs(1)] bs(2) f1 f2 less.hyps [of f2] show ?thesis by auto
      qed
      then show ?thesis using Continue C2 by (subst next_item.simps) simp
    qed (use f1 next_item_read_inv(3) in blast)
  qed (use next_item_decode_inv(3) in blast)
qed

section \<open>Properties\<close>

text \<open>
  C33. \<open>next_item\<close> always returns and never trips its \<open>debug_assert\<close>: for any codec and any transport
  that has only finitely many non-empty chunks left, from every state the public constructors and
  \<open>next_item\<close> itself can leave behind.
\<close>

theorem framed_next_item_returns:
  assumes "framed_inv f"
    and "\<And>io bs io'. poll_read io = (Ready (Ok bs), io') \<Longrightarrow> bs \<noteq> [] \<Longrightarrow> m io' < (m io :: nat)"
  shows "\<exists>r f'. next_item dec dec_eof poll_read from_io f = Some (Ok (r, f')) \<and> framed_inv f'"
  using next_item_total [OF assms] .

lemma script_read_measure:
  "script_read io = (Ready (Ok bs), io') \<Longrightarrow> bs \<noteq> [] \<Longrightarrow> length (reads io') < length (reads io)"
  by (auto split: list.splits read_event.splits)

theorem framed_next_item_returns_witness:
  "\<exists>r f'. next_item (decode linear_memchr) (decode_eof linear_memchr) script_read id
      (framed_new \<lparr>reads = [Chunk [0x61], Stall], writes = [], out = []\<rparr> lines_new) = Some (Ok (r, f')) \<and> framed_inv f'"
  by (rule framed_next_item_returns [OF framed_inv_new script_read_measure])

text \<open>
  C34. Flushing loses and repeats nothing: for any transport that honours the \<open>AsyncWrite\<close> contract,
  \<open>flush\<close> never panics, the accepted bytes followed by the write buffer are the same before and
  after whatever the outcome, and success means the buffer is empty.
\<close>

theorem framed_flush_preserves_bytes:
  assumes "async_write pw pf accepted"
  shows "\<exists>p f'. framed_flush pw pf from_io f = Ok (p, f')
    \<and> accepted (fio f') @ write_buf f' = accepted (fio f) @ write_buf f
    \<and> (p = Ready (Ok ()) \<longrightarrow> write_buf f' = []) \<and> read_buf f' = read_buf f \<and> codec f' = codec f"
  using async_write.framed_flush_lossless [OF assms] .

theorem framed_flush_preserves_bytes_witness:
  "\<exists>p f'. framed_flush script_write script_flush id
      (framed_new \<lparr>reads = [], writes = [Accept 2, Block], out = [1]\<rparr> ()\<lparr>write_buf := [5, 6, 7]\<rparr>) = Ok (p, f')
    \<and> out (fio f') @ write_buf f' = [1, 5, 6, 7]"
  using framed_flush_preserves_bytes [OF script.async_write_axioms, of id
      "framed_new \<lparr>reads = [], writes = [Accept 2, Block], out = [1]\<rparr> ()\<lparr>write_buf := [5, 6, 7]\<rparr>"]
  by (auto simp: framed_new_def)

text \<open>
  Back-pressure of the sink: \<open>poll_ready\<close> says ready only with less than the high-water mark
  buffered, and it flushes only when the buffer had reached it.
\<close>

theorem framed_poll_ready_bound:
  assumes "async_write pw pf accepted" and "framed_poll_ready pw pf from_io f = Ok (Ready (Ok ()), f')"
  shows "length (write_buf f') < HW \<and> (length (write_buf f) < HW \<longrightarrow> f' = f)
    \<and> accepted (fio f') @ write_buf f' = accepted (fio f) @ write_buf f"
  using async_write.framed_flush_lossless [OF assms(1), of from_io f] assms(2)
  by (auto simp: framed_poll_ready_def is_write_ready_def HW_def split: if_splits)

theorem framed_poll_ready_bound_witness:
  "length ([5] :: u8 list) < HW"
  using framed_poll_ready_bound [OF script.async_write_axioms, of id
      "framed_new \<lparr>reads = [], writes = [], out = []\<rparr> ()\<lparr>write_buf := [5]\<rparr>"
      "framed_new \<lparr>reads = [], writes = [], out = []\<rparr> ()\<lparr>write_buf := [5]\<rparr>"]
  by (simp add: framed_poll_ready_def is_write_ready_def HW_def framed_new_def)

text \<open>
  \<open>close\<close> (and the sink's \<open>poll_close\<close>) flushes and shuts down the I/O object only: it offers none
  of the buffered frames to it.  For any transport whose flush and shutdown accept no bytes, the
  write buffer and the accepted bytes are the same after it, so a successful close of a sink with
  buffered frames has not sent them.
\<close>

theorem framed_close_keeps_buffer:
  assumes "\<And>io p io'. pf io = (p, io') \<Longrightarrow> accepted io' = accepted io"
    and "\<And>io p io'. ps io = (p, io') \<Longrightarrow> accepted io' = accepted io"
    and "framed_close pf ps from_io f = (p, f')"
  shows "write_buf f' = write_buf f \<and> accepted (fio f') = accepted (fio f)"
proof -
  obtain p1 io1 where 1: "pf (fio f) = (p1, io1)" by force
  obtain p2 io2 where 2: "ps io1 = (p2, io2)" by force
  from assms(1) [OF 1] assms(2) [OF 2] assms(3) 1 2 show ?thesis
    by (auto simp: framed_close_def split: poll.splits result.splits)
qed

theorem framed_close_keeps_buffer_witness:
  "\<exists>f'. framed_close script_flush script_flush id
      (framed_new \<lparr>reads = [], writes = [Accept 9], out = []\<rparr> ()\<lparr>write_buf := [5]\<rparr>) = (Ready (Ok ()), f')
    \<and> write_buf f' = [5] \<and> out (fio f') = []"
proof -
  let ?f = "framed_new \<lparr>reads = [], writes = [Accept 9], out = []\<rparr> ()\<lparr>write_buf := [5]\<rparr>"
  have "framed_close script_flush script_flush id ?f = (Ready (Ok ()), ?f)"
    by (simp add: framed_close_def script_flush_def framed_new_def)
  from framed_close_keeps_buffer [OF script.flush_keeps script.flush_keeps this] this
  show ?thesis by (simp add: framed_new_def)
qed

end
