(* ===== verification/Lines_Stream.thy ===== *)
theory Lines_Stream
  imports Framed
begin

text \<open>
  \<open>Framed<T, LinesCodec>\<close> as a whole: the stream of frames a reader sees, for every way the
  transport can cut the byte stream into chunks and interleave it with \<open>Pending\<close>.  The transport
  is the scripted one of \<open>Framed\<close>; the search function is any function that meets
  \<open>memchr_spec\<close>.
\<close>

section \<open>Reference result of a byte stream\<close>

fun stream_bytes :: "read_event list \<Rightarrow> u8 list" where
  "stream_bytes [] = []"
| "stream_bytes (Chunk bs # es) = bs @ stream_bytes es"
| "stream_bytes (_ # es) = stream_bytes es"

text \<open>A transport without errors whose reads are never empty before the end.\<close>

fun clean_event :: "read_event \<Rightarrow> bool" where
  "clean_event (Chunk bs) \<longleftrightarrow> bs \<noteq> []"
| "clean_event Stall \<longleftrightarrow> True"
| "clean_event (ReadError e) \<longleftrightarrow> False"

definition spec_results :: "u8 list \<Rightarrow> (u8 list, io_error) result list" where
  "spec_results bs =
     (case split_lines [] bs of (ls, r) \<Rightarrow>
        map line_result ls @ (if strip_cr r = [] then [] else [line_result r]))"

lemma spec_results_line:
  "LF \<notin> set l \<Longrightarrow> spec_results (l @ LF # rest) = line_result l # spec_results rest"
  by (simp add: spec_results_def split_first split: prod.splits)

lemma spec_results_no_lf:
  "LF \<notin> set r \<Longrightarrow> spec_results r = (if strip_cr r = [] then [] else [line_result r])"
  by (simp add: spec_results_def split_lines_no_lf)

lemma strip_cr_CR: "strip_cr [CR] = []" "strip_cr [] = []"
  by (simp_all add: strip_cr_def)

lemma over_limit_CR: "\<not> over_limit m [CR]"
proof (cases "m = 0")
  case True
  then show ?thesis by (simp add: over_limit_def saturating_add_def)
next
  case False
  then have "0 < unat m" by (simp add: unat_gt_0)
  then show ?thesis by (simp add: over_limit_def Let_def)
qed

lemma over_limit_Nil: "\<not> over_limit m []"
  by (simp add: over_limit_def Let_def)

section \<open>Invariant of the transport\<close>

type_synonym lines_framed = "(script_io, lines_codec) framed"

definition unread :: "lines_framed \<Rightarrow> u8 list" where
  "unread f = read_buf f @ stream_bytes (reads (fio f))"

definition lines_inv :: "lines_framed \<Rightarrow> bool" where
  "lines_inv f \<longleftrightarrow>
     framed_inv f \<and> scanned (codec f) (read_buf f) \<and>
     (\<not> fl_readable f \<longrightarrow> LF \<notin> set (read_buf f) \<and> next_index (codec f) \<le> length (read_buf f)) \<and>
     list_all clean_event (reads (fio f)) \<and> (fl_eof f \<longrightarrow> reads (fio f) = []) \<and>
     within_limit (max_length (codec f)) (split_lines [] (unread f))"

definition lines_out :: "lines_framed \<Rightarrow> (u8 list, io_error) result option poll \<Rightarrow> lines_framed \<Rightarrow> bool" where
  "lines_out f p f' \<longleftrightarrow>
     lines_inv f' \<and> length (reads (fio f')) \<le> length (reads (fio f)) \<and>
     (case p of
        Pending \<Rightarrow> length (reads (fio f')) < length (reads (fio f)) \<and>
          spec_results (unread f') = spec_results (unread f)
      | Ready (Some x) \<Rightarrow> spec_results (unread f) = x # spec_results (unread f')
      | Ready None \<Rightarrow> spec_results (unread f) = [])"

abbreviation lines_next ::
  "(u8 \<Rightarrow> u8 list \<Rightarrow> nat option) \<Rightarrow> lines_framed \<Rightarrow>
     ((u8 list, io_error) result option poll \<times> lines_framed, panic) result option" where
  "lines_next mc \<equiv> next_item (decode mc) (decode_eof mc) script_read id"

abbreviation lines_read :: "lines_framed \<Rightarrow> ((u8 list, io_error) result option poll, lines_framed) flow" where
  "lines_read \<equiv> next_item_read script_read id"

lemma within_limit_lineD:
  assumes "within_limit m (split_lines [] (l @ LF # rest))" and "LF \<notin> set l"
  shows "\<not> over_limit m l \<and> within_limit m (split_lines [] rest)"
  using assms by (auto simp: split_first within_limit_def split: prod.splits)

lemma within_limit_headD:
  "within_limit m (split_lines [] (xs @ ys)) \<Longrightarrow> LF \<notin> set xs \<Longrightarrow> \<not> over_limit m xs"
  using within_limit_prefix [of m xs ys] by (simp add: split_lines_no_lf within_limit_def)

context memchr_spec
begin

text \<open>At the end of the stream one call returns a complete line, then the rest, then the end.\<close>

lemma lines_eof_step:
  assumes inv: "lines_inv f" and "fl_eof f"
  shows "\<exists>p f'. next_item_decode (decode mc) (decode_eof mc) f = Return p f' \<and> lines_out f p f'"
proof -
  let ?c = "codec f" and ?b = "read_buf f"
  from assms have rd: "fl_readable f" "reads (fio f) = []" "unread f = ?b" "scanned ?c ?b"
    "within_limit (max_length ?c) (split_lines [] ?b)"
    by (auto simp: lines_inv_def framed_inv_def unread_def)
  show ?thesis
  proof (cases "LF \<in> set ?b")
    case True
    then obtain l rest where b: "?b = l @ LF # rest" "LF \<notin> set l" by (meson split_list_first)
    with within_limit_lineD rd have ok: "\<not> over_limit (max_length ?c) l"
      "within_limit (max_length ?c) (split_lines [] rest)" by auto
    define f' where "f' = f\<lparr>codec := ?c\<lparr>next_index := 0\<rparr>, read_buf := rest\<rparr>"
    have "decode_eof mc ?c ?b = (map_result Some (line_result l), ?c\<lparr>next_index := 0\<rparr>, rest)"
      using decode_eof_line [of l ?c rest] b rd ok by simp
    then have "next_item_decode (decode mc) (decode_eof mc) f = Return (Ready (Some (line_result l))) f'"
      using rd assms(2) by (cases "line_result l") (simp_all add: next_item_decode_def f'_def)
    moreover have "lines_out f (Ready (Some (line_result l))) f'"
      using rd b ok inv assms(2) spec_results_line [of l rest]
      by (simp add: lines_out_def lines_inv_def f'_def framed_inv_def unread_def scanned_def)
    ultimately show ?thesis by blast
  next
    case False
    with within_limit_headD [of "max_length ?c" ?b "[]"] rd have ok: "\<not> over_limit (max_length ?c) ?b"
      by simp
    define left where "left = (if ?b \<noteq> [] \<and> last ?b = CR then [CR] else [])"
    define f' where "f' = f\<lparr>codec := ?c\<lparr>next_index := 0\<rparr>, read_buf := left\<rparr>"
    define p where "p = Ready (if strip_cr ?b = [] then None else Some (line_result ?b))"
    have "decode_eof mc ?c ?b =
        (if strip_cr ?b = [] then Ok None else map_result Some (line_result ?b), ?c\<lparr>next_index := 0\<rparr>, left)"
      using decode_eof_rest [OF False ok] by (simp add: left_def)
    then have "next_item_decode (decode mc) (decode_eof mc) f = Return p f'"
      using rd assms(2) by (cases "line_result ?b") (simp_all add: next_item_decode_def f'_def p_def)
    moreover have "spec_results left = []" "LF \<notin> set left" "\<not> over_limit (max_length ?c) left"
      by (auto simp: left_def spec_results_no_lf strip_cr_CR over_limit_CR over_limit_Nil)
    then have "lines_out f p f'"
      using rd inv assms(2) spec_results_no_lf [OF False]
      by (auto simp: lines_out_def lines_inv_def f'_def p_def framed_inv_def unread_def scanned_def
          split_lines_no_lf within_limit_def)
    ultimately show ?thesis by blast
  qed
qed

text \<open>A complete buffered line is returned without reading; otherwise the loop goes on to read
  with the same pending result.\<close>

lemma lines_decode_step:
  assumes inv: "lines_inv f" and "\<not> fl_eof f"
  shows "(\<exists>p f'. next_item_decode (decode mc) (decode_eof mc) f = Return p f' \<and> lines_out f p f')
    \<or> (\<exists>f'. next_item_decode (decode mc) (decode_eof mc) f = Continue f' \<and> lines_inv f' \<and>
        \<not> fl_eof f' \<and> \<not> fl_readable f' \<and> unread f' = unread f \<and> fio f' = fio f)"
proof (cases "fl_readable f")
  case False
  with assms show ?thesis by (auto simp: next_item_decode_def)
next
  case True
  let ?c = "codec f" and ?b = "read_buf f" and ?s = "stream_bytes (reads (fio f))"
  from inv have i: "scanned ?c ?b" "within_limit (max_length ?c) (split_lines [] (?b @ ?s))"
    by (auto simp: lines_inv_def unread_def)
  show ?thesis
  proof (cases "LF \<in> set ?b")
    case LF: True
    then obtain l rest where b: "?b = l @ LF # rest" "LF \<notin> set l" by (meson split_list_first)
    with within_limit_lineD [of "max_length ?c" l "rest @ ?s"] i have ok: "\<not> over_limit (max_length ?c) l"
      "within_limit (max_length ?c) (split_lines [] (rest @ ?s))" by auto
    define f' where "f' = f\<lparr>codec := ?c\<lparr>next_index := 0\<rparr>, read_buf := rest\<rparr>"
    have "decode mc ?c ?b = (map_result Some (line_result l), ?c\<lparr>next_index := 0\<rparr>, rest)"
      using decode_line [of l ?c rest] b i ok by simp
    then have "next_item_decode (decode mc) (decode_eof mc) f = Return (Ready (Some (line_result l))) f'"
      using True assms(2) by (cases "line_result l") (simp_all add: next_item_decode_def f'_def)
    moreover have "lines_out f (Ready (Some (line_result l))) f'"
      using b ok inv assms(2) True spec_results_line [of l "rest @ ?s"]
      by (simp add: lines_out_def lines_inv_def f'_def framed_inv_def unread_def scanned_def)
    ultimately show ?thesis by blast
  next
    case no: False
    with within_limit_headD i have ok: "\<not> over_limit (max_length ?c) ?b" by blast
    define f' where "f' = f\<lparr>codec := ?c\<lparr>next_index := length ?b\<rparr>, fl_readable := False\<rparr>"
    have "decode mc ?c ?b = (Ok None, ?c\<lparr>next_index := length ?b\<rparr>, ?b)"
      using decode_no_line [OF no] ok decode_nil by (cases "?b = []") simp_all
    then have "next_item_decode (decode mc) (decode_eof mc) f = Continue f'"
      using True assms(2) by (simp add: next_item_decode_def f'_def)
    moreover have "lines_inv f'"
      using inv no assms(2) by (simp add: lines_inv_def f'_def framed_inv_def scanned_def unread_def)
    ultimately show ?thesis using assms(2) by (auto simp: f'_def unread_def)
  qed
qed

text \<open>The read takes one event of the transport, or finds its end; a reader that stalls gives a
  pending result.\<close>

lemma lines_read_step:
  assumes inv: "lines_inv f" and "\<not> fl_eof f" "\<not> fl_readable f"
  shows "(\<exists>f'. lines_read f = Return Pending f' \<and> lines_out f Pending f')
    \<or> (\<exists>f'. lines_read f = Continue f' \<and> lines_inv f' \<and> unread f' = unread f \<and>
        (fl_eof f' \<and> fio f' = fio f \<or> length (reads (fio f')) < length (reads (fio f))))"
proof (cases "reads (fio f)")
  case Nil
  define f' where "f' = f\<lparr>fl_eof := True, fl_readable := True\<rparr>"
  have "lines_read f = Continue f'" using Nil assms by (simp add: next_item_read_def f'_def Let_def)
  moreover have "lines_inv f'" "unread f' = unread f" "fl_eof f'" "fio f' = fio f"
    using assms Nil by (simp_all add: lines_inv_def f'_def framed_inv_def unread_def)
  ultimately show ?thesis by blast
next
  case (Cons e es)
  show ?thesis
  proof (cases e)
    case (Chunk bs)
    define f' where "f' = f\<lparr>fio := (fio f)\<lparr>reads := es\<rparr>, read_buf := read_buf f @ bs, fl_readable := True\<rparr>"
    have bs: "bs \<noteq> []" using inv Cons Chunk by (simp add: lines_inv_def)
    have "lines_read f = Continue f'" using Cons Chunk assms bs by (simp add: next_item_read_def f'_def Let_def)
    moreover have "lines_inv f'" "unread f' = unread f" "length (reads (fio f')) < length (reads (fio f))"
      using assms Cons Chunk by (auto simp: lines_inv_def f'_def framed_inv_def unread_def scanned_def dest: in_set_takeD)
    ultimately show ?thesis by blast
  next
    case Stall
    define f' where "f' = f\<lparr>fio := (fio f)\<lparr>reads := es\<rparr>\<rparr>"
    have "lines_read f = Return Pending f'" using Cons Stall assms by (simp add: next_item_read_def f'_def)
    moreover have "lines_out f Pending f'"
      using assms Cons Stall by (simp add: lines_out_def lines_inv_def f'_def framed_inv_def unread_def)
    ultimately show ?thesis by blast
  next
    case (ReadError x)
    with inv Cons show ?thesis by (simp add: lines_inv_def)
  qed
qed

lemma lines_out_weaken:
  "lines_out f p f' \<Longrightarrow> unread f = unread g \<Longrightarrow> length (reads (fio f)) \<le> length (reads (fio g)) \<Longrightarrow> lines_out g p f'"
  by (auto simp: lines_out_def split: poll.splits option.splits)

lemma lines_next_step:
  "lines_inv f \<Longrightarrow> \<exists>p f'. lines_next mc f = Some (Ok (p, f')) \<and> lines_out f p f'"
proof (induction "length (reads (fio f))" arbitrary: f rule: less_induct)
  case less
  have at_eof: "\<exists>p f'. lines_next mc g = Some (Ok (p, f')) \<and> lines_out g p f'" if "lines_inv g" "fl_eof g" for g
    using lines_eof_step [OF that] by (subst next_item.simps) fastforce
  show ?case
  proof (cases "fl_eof f")
    case False
    from lines_decode_step [OF less.prems False] show ?thesis
    proof (elim disjE exE conjE)
      fix f1
      assume f1: "next_item_decode (decode mc) (decode_eof mc) f = Continue f1" "lines_inv f1"
        "\<not> fl_eof f1" "\<not> fl_readable f1" "unread f1 = unread f" "fio f1 = fio f"
      from lines_read_step [OF f1(2-4)] show ?thesis
      proof (elim disjE exE conjE)
        fix f2
        assume "lines_read f1 = Return Pending f2" "lines_out f1 Pending f2"
        with f1 lines_out_weaken [of f1 Pending f2 f] show ?thesis by (subst next_item.simps) simp
      next
        fix f2
        assume f2: "lines_read f1 = Continue f2" "lines_inv f2" "unread f2 = unread f1" "fl_eof f2" "fio f2 = fio f1"
        obtain p f3 where "lines_next mc f2 = Some (Ok (p, f3))" "lines_out f2 p f3" using at_eof [OF f2(2,4)] by blast
        with f1 f2 lines_out_weaken [of f2 p f3 f] show ?thesis by (subst next_item.simps) simp
      next
        fix f2
        assume f2: "lines_read f1 = Continue f2" "lines_inv f2" "unread f2 = unread f1"
          "length (reads (fio f2)) < length (reads (fio f1))"
        obtain p f3 where "lines_next mc f2 = Some (Ok (p, f3))" "lines_out f2 p f3" using less.hyps [of f2] f1(6) f2 by auto
        with f1 f2 lines_out_weaken [of f2 p f3 f] show ?thesis by (subst next_item.simps) simp
      qed
    qed (subst next_item.simps, simp)
  qed (use at_eof less.prems in blast)
qed

end

section \<open>The whole stream\<close>

text \<open>Polling a reader \<open>n\<close> times, as a task that is woken again and again does: the items it gets,
  and whether the stream has ended.\<close>

fun frames ::
  "(u8 \<Rightarrow> u8 list \<Rightarrow> nat option) \<Rightarrow> nat \<Rightarrow> lines_framed \<Rightarrow> (u8 list, io_error) result list \<times> bool" where
  "frames mc 0 f = ([], False)"
| "frames mc (Suc n) f =
     (case lines_next mc f of
        Some (Ok (Ready (Some x), f')) \<Rightarrow> (case frames mc n f' of (xs, e) \<Rightarrow> (x # xs, e))
      | Some (Ok (Ready None, f')) \<Rightarrow> ([], True)
      | Some (Ok (Pending, f')) \<Rightarrow> frames mc n f'
      | _ \<Rightarrow> ([], False))"

context memchr_spec
begin

lemma frames_spec:
  "lines_inv f \<Longrightarrow> length (reads (fio f)) + length (spec_results (unread f)) < n \<Longrightarrow>
     frames mc n f = (spec_results (unread f), True)"
proof (induction n arbitrary: f)
  case (Suc n)
  from lines_next_step [OF Suc.prems(1)] obtain p f' where
    p: "lines_next mc f = Some (Ok (p, f'))" "lines_out f p f'" by blast
  then show ?case
  proof (cases p)
    case Pending
    with p Suc.IH [of f'] Suc.prems(2) show ?thesis by (simp add: lines_out_def)
  next
    case (Ready o')
    with p Suc.IH [of f'] Suc.prems(2) show ?thesis
      by (cases o') (auto simp: lines_out_def)
  qed
qed simp

end

definition lines_reader :: "usize \<Rightarrow> read_event list \<Rightarrow> lines_framed" where
  "lines_reader m es = framed_new \<lparr>reads = es, writes = [], out = []\<rparr> (lines_new_with_max_length m)"

lemma lines_reader_inv:
  assumes "list_all clean_event es" and "within_limit m (split_lines [] (stream_bytes es))"
  shows "lines_inv (lines_reader m es)" and "unread (lines_reader m es) = stream_bytes es"
  using assms by (simp_all add: lines_reader_def lines_inv_def framed_new_def framed_inv_def
      lines_new_with_max_length_def scanned_def unread_def)

lemma lines_reader_frames:
  assumes "memchr_spec mc" and "list_all clean_event es"
    and "within_limit m (split_lines [] (stream_bytes es))"
    and "length es + length (spec_results (stream_bytes es)) < n"
  shows "frames mc n (lines_reader m es) = (spec_results (stream_bytes es), True)"
  using memchr_spec.frames_spec [OF assms(1) lines_reader_inv(1) [OF assms(2,3)], of n] assms(4)
    lines_reader_inv(2) [OF assms(2,3)]
  by (simp add: lines_reader_def framed_new_def)

text \<open>Writing lines: the codec's encoder as \<open>Framed\<close> calls it, and the bytes of a list of items.\<close>

definition lines_enc :: "u8 list \<Rightarrow> lines_codec \<Rightarrow> u8 list \<Rightarrow> (unit, io_error) result \<times> lines_codec \<times> u8 list" where
  "lines_enc item c dst = (case encode item dst of (r, dst') \<Rightarrow> (r, c, dst'))"

fun write_all :: "u8 list list \<Rightarrow> lines_framed \<Rightarrow> lines_framed" where
  "write_all [] f = f"
| "write_all (i # is) f = write_all is (snd (framed_write lines_enc i f))"

lemma write_all_buf:
  "write_buf (write_all is f) = write_buf f @ concat (map (\<lambda>i. i @ [LF]) is) \<and> fio (write_all is f) = fio f"
  by (induction "is" arbitrary: f) (simp_all add: framed_write_def lines_enc_def encode_def)

definition plain_line :: "usize \<Rightarrow> u8 list \<Rightarrow> bool" where
  "plain_line m i \<longleftrightarrow> valid_utf8 i \<and> LF \<notin> set i \<and> (i = [] \<or> last i \<noteq> CR) \<and> length i \<le> unat m"

lemma split_lines_items:
  "list_all (plain_line m) is \<Longrightarrow> split_lines [] (concat (map (\<lambda>i. i @ [LF]) is)) = (is, [])"
  by (induction "is") (simp_all add: plain_line_def split_first)

lemma plain_line_ok: "plain_line m i \<Longrightarrow> \<not> over_limit m i \<and> line_result i = Ok i"
  by (auto simp: plain_line_def over_limit_def line_result_def strip_cr_def Let_def)

lemma items_within: "list_all (plain_line m) is \<Longrightarrow> within_limit m (is, [])"
  using plain_line_ok by (auto simp: within_limit_def over_limit_Nil list_all_iff)

lemma items_results: "list_all (plain_line m) is \<Longrightarrow> map line_result is = map Ok is"
  using plain_line_ok by (auto simp: list_all_iff)

section \<open>Properties\<close>

text \<open>
  C11. A reader over \<open>Framed\<close> and \<open>LinesCodec\<close>, with or without a length limit: however the transport
  cuts the bytes into chunks and whenever it answers \<open>Pending\<close>, enough polls yield exactly the
  reference lines of the byte stream (each complete line without its CRLF or LF, then the
  unterminated rest, invalid UTF-8 reported in place), and then the end of the stream.
\<close>

theorem framed_lines_stream:
  assumes "memchr_spec mc" and "list_all clean_event es"
    and "within_limit m (split_lines [] (stream_bytes es))"
    and "length es + length (spec_results (stream_bytes es)) < n"
  shows "frames mc n (lines_reader m es) = (spec_results (stream_bytes es), True)"
  using lines_reader_frames [OF assms] .

theorem framed_lines_stream_witness:
  "frames linear_memchr 6 (lines_reader 3 [Chunk [0x61, 0x62], Stall, Chunk [CR, LF, 0x63]]) =
     ([Ok [0x61, 0x62], Ok [0x63]], True)"
  using framed_lines_stream [OF linear.memchr_spec_axioms, of "[Chunk [0x61, 0x62], Stall, Chunk [CR, LF, 0x63]]" 3 6]
  by (simp add: spec_results_def line_result_def strip_cr_def within_limit_def over_limit_def
      utf8_width_def Let_def)

text \<open>
  C31. End to end: items written line by line through one \<open>Framed\<close> and flushed are read back, item by
  item, by a \<open>Framed\<close> at the other end, for every chunking of the bytes in between.  The items are
  strings without a line feed, without a final carriage return, and within the limit.
\<close>

theorem framed_lines_roundtrip:
  assumes "memchr_spec mc" and "list_all (plain_line m) items"
    and "framed_flush script_write script_flush id (write_all items (lines_reader m' [])\<lparr>fio := t\<rparr>)
           = Ok (Ready (Ok ()), f')"
    and "out t = []" and "stream_bytes es = out (fio f')" and "list_all clean_event es"
  shows "\<exists>n. frames mc n (lines_reader m es) = (map Ok items, True)"
proof -
  let ?f = "write_all items (lines_reader m' [])\<lparr>fio := t\<rparr>"
  have "out (fio f') @ write_buf f' = out (fio ?f) @ write_buf ?f \<and> write_buf f' = []"
    using script.framed_flush_lossless [of id ?f] assms(3) by auto
  then have bytes: "stream_bytes es = concat (map (\<lambda>i. i @ [LF]) items)"
    using assms(4,5) by (auto simp: write_all_buf lines_reader_def framed_new_def)
  then have split: "split_lines [] (stream_bytes es) = (items, [])"
    using split_lines_items [OF assms(2)] by simp
  then have "spec_results (stream_bytes es) = map Ok items"
    using items_results [OF assms(2)] by (simp add: spec_results_def strip_cr_CR)
  then show ?thesis
    using lines_reader_frames [OF assms(1,6)] split items_within [OF assms(2)] by auto
qed

theorem framed_lines_roundtrip_witness:
  "\<exists>n. frames linear_memchr n (lines_reader 3 [Chunk [0x61], Chunk [LF]]) = ([Ok [0x61]], True)"
proof -
  have "framed_flush script_write script_flush id
      (write_all [[0x61]] (lines_reader 3 [])\<lparr>fio := \<lparr>reads = [], writes = [Accept 1, Accept 9], out = []\<rparr>\<rparr>)
      = Ok (Ready (Ok ()), \<lparr>fio = \<lparr>reads = [], writes = [], out = [0x61, LF]\<rparr>,
          codec = lines_new_with_max_length 3, fl_eof = False, fl_readable = False,
          read_buf = [], write_buf = []\<rparr>)"
    by (simp add: framed_flush_def script_flush_def lines_reader_def framed_new_def framed_write_def
        lines_enc_def encode_def flush_loop.simps lines_new_with_max_length_def)
  from framed_lines_roundtrip [OF linear.memchr_spec_axioms _ this, of 3 "[Chunk [0x61], Chunk [LF]]"]
  show ?thesis by (simp add: plain_line_def utf8_width_def)
qed

end
