(* ===== verification/Byte_String.thy ===== *)
theory Byte_String
  imports Utf8 "HOL-Library.List_Lexorder"
begin

text \<open>
  \<open>bytestring/src/lib.rs\<close>: \<open>ByteString\<close>, a string in a \<open>Bytes\<close> buffer.  The buffer is its list of
  bytes (sharing it is not observable); a \<open>&str\<close>, \<open>String\<close> or \<open>Box<str>\<close> argument is a byte list with
  \<open>valid_utf8\<close>, the invariant of these types.  Equality and order are those of the bytes, as derived
  from \<open>Bytes\<close>; both are instances of the library's classes.
\<close>

section \<open>ByteString\<close>

datatype bytestring = ByteString (into_bytes: "u8 list")

definition bs_new :: bytestring where
  "bs_new = ByteString []"

definition from_static :: "u8 list \<Rightarrow> bytestring" where
  "from_static src = ByteString src"

definition from_bytes_unchecked :: "u8 list \<Rightarrow> bytestring" where
  "from_bytes_unchecked src = ByteString src"

text \<open>\<open>Deref\<close>, on which \<open>AsRef<str>\<close>, \<open>Borrow<str>\<close>, \<open>Hash\<close> and \<open>Display\<close> rest.\<close>

definition deref_str :: "bytestring \<Rightarrow> u8 list" where
  "deref_str s = into_bytes s"

text \<open>\<open>str::split_at\<close> of the standard library, and \<open>Bytes::split_to\<close>.\<close>

definition str_split_at :: "u8 list \<Rightarrow> nat \<Rightarrow> (u8 list \<times> u8 list, panic) result" where
  "str_split_at s mid = (if is_char_boundary s mid then Ok (take mid s, drop mid s) else Err ExplicitPanic)"

definition split_to :: "nat \<Rightarrow> u8 list \<Rightarrow> (u8 list \<times> u8 list, panic) result" where
  "split_to n b = (if n \<le> length b then Ok (take n b, drop n b) else Err AssertFailed)"

definition bs_split_at :: "bytestring \<Rightarrow> nat \<Rightarrow> (bytestring \<times> bytestring, panic) result" where
  "bs_split_at self mid =
     (let this = deref_str self in
      bind_result (str_split_at this mid) (\<lambda>valid_midpoint_check.
      bind_result (split_to mid (into_bytes self)) (\<lambda>(first, last).
      Ok (from_bytes_unchecked first, from_bytes_unchecked last))))"

text \<open>\<open>Bytes::slice_ref\<close> is a parameter: it needs the address of the sub-slice.\<close>

definition bs_slice_ref ::
  "(u8 list \<Rightarrow> 'ref \<Rightarrow> (u8 list, panic) result) \<Rightarrow> bytestring \<Rightarrow> 'ref \<Rightarrow> (bytestring, panic) result" where
  "bs_slice_ref bytes_slice_ref self sub = map_result ByteString (bytes_slice_ref (into_bytes self) sub)"

text \<open>\<open>PartialEq\<close> with a string.\<close>

definition bs_eq_str :: "bytestring \<Rightarrow> u8 list \<Rightarrow> bool" where
  "bs_eq_str self other \<longleftrightarrow> deref_str self = other"

definition bs_from_str :: "u8 list \<Rightarrow> bytestring" where
  "bs_from_str value = ByteString value"

definition bs_into_string :: "bytestring \<Rightarrow> u8 list" where
  "bs_into_string value = into_bytes value"

text \<open>\<open>From<String>\<close> and \<open>From<Box<str>>\<close>.\<close>

definition bs_from_string :: "u8 list \<Rightarrow> bytestring" where
  "bs_from_string value = ByteString value"

definition bs_from_box_str :: "u8 list \<Rightarrow> bytestring" where
  "bs_from_box_str value = ByteString value"

text \<open>\<open>TryFrom\<close> for a slice, \<open>Vec<u8>\<close>, \<open>Bytes\<close>, \<open>BytesMut\<close> and arrays; the error carries the bytes.\<close>

definition bs_try_from :: "u8 list \<Rightarrow> (bytestring, u8 list) result" where
  "bs_try_from value =
     (if is_ascii value then Ok (ByteString value)
      else if \<not> valid_utf8 value then Err value
      else Ok (ByteString value))"

definition bs_try_from_vec :: "u8 list \<Rightarrow> (bytestring, u8 list) result" where
  "bs_try_from_vec value =
     (if is_ascii value then Ok (ByteString value)
      else map_result ByteString (if valid_utf8 value then Ok value else Err value))"

definition bs_try_from_bytes :: "u8 list \<Rightarrow> (bytestring, u8 list) result" where
  "bs_try_from_bytes value =
     (if is_ascii value then Ok (ByteString value)
      else if \<not> valid_utf8 value then Err value
      else Ok (ByteString value))"

definition bs_try_from_bytes_mut :: "u8 list \<Rightarrow> (bytestring, u8 list) result" where
  "bs_try_from_bytes_mut value =
     (if is_ascii value then Ok (ByteString value)
      else if \<not> valid_utf8 value then Err value
      else Ok (ByteString value))"

definition bs_try_from_array :: "u8 list \<Rightarrow> (bytestring, u8 list) result" where
  "bs_try_from_array value = bs_try_from value"

text \<open>\<open>serde\<close>: what the deserializer gives for a string is its answer.\<close>

definition bs_serialize :: "bytestring \<Rightarrow> (u8 list \<Rightarrow> ('o, 'e) result) \<Rightarrow> ('o, 'e) result" where
  "bs_serialize self serialize_str = serialize_str (deref_str self)"

definition bs_deserialize :: "(u8 list, 'e) result \<Rightarrow> (bytestring, 'e) result" where
  "bs_deserialize answer = map_result bs_from_string answer"

section \<open>Equality and order\<close>

definition bs_le :: "bytestring \<Rightarrow> bytestring \<Rightarrow> bool" where
  "bs_le s t \<longleftrightarrow> into_bytes s \<le> into_bytes t"

definition bs_less :: "bytestring \<Rightarrow> bytestring \<Rightarrow> bool" where
  "bs_less s t \<longleftrightarrow> into_bytes s < into_bytes t"

instantiation bytestring :: linorder
begin

definition less_eq_bytestring :: "bytestring \<Rightarrow> bytestring \<Rightarrow> bool" where
  "s \<le> t \<longleftrightarrow> bs_le s t"

definition less_bytestring :: "bytestring \<Rightarrow> bytestring \<Rightarrow> bool" where
  "s < t \<longleftrightarrow> bs_less s t"

instance
  by intro_classes (auto simp: less_eq_bytestring_def less_bytestring_def bs_le_def bs_less_def bytestring.expand)

end

section \<open>Safe construction\<close>

text \<open>The values a program without \<open>unsafe\<close> can make; \<open>slice_ref\<close> takes a \<open>&str\<close>, whose bytes are those of
  the result.\<close>

inductive safe_bs :: "bytestring \<Rightarrow> bool" where
  safe_new: "safe_bs bs_new"
| safe_static: "valid_utf8 s \<Longrightarrow> safe_bs (from_static s)"
| safe_from: "valid_utf8 s \<Longrightarrow> safe_bs (bs_from_str s)"
| safe_try: "bs_try_from b = Ok s \<Longrightarrow> safe_bs s"
| safe_try_vec: "bs_try_from_vec b = Ok s \<Longrightarrow> safe_bs s"
| safe_string: "valid_utf8 s \<Longrightarrow> safe_bs (bs_from_string s)"
| safe_box: "valid_utf8 s \<Longrightarrow> safe_bs (bs_from_box_str s)"
| safe_try_bytes: "bs_try_from_bytes b = Ok s \<Longrightarrow> safe_bs s"
| safe_try_bytes_mut: "bs_try_from_bytes_mut b = Ok s \<Longrightarrow> safe_bs s"
| safe_try_array: "bs_try_from_array b = Ok s \<Longrightarrow> safe_bs s"
| safe_deserialize: "valid_utf8 v \<Longrightarrow> bs_deserialize (Ok v :: (u8 list, nat) result) = Ok s \<Longrightarrow> safe_bs s"
| safe_slice: "safe_bs s \<Longrightarrow> (\<And>b v. bytes_slice_ref b sub = Ok v \<Longrightarrow> v = str_of sub) \<Longrightarrow> valid_utf8 (str_of sub) \<Longrightarrow>
     bs_slice_ref bytes_slice_ref s (sub :: nat) = Ok t \<Longrightarrow> safe_bs t"
| safe_split_first: "safe_bs s \<Longrightarrow> bs_split_at s mid = Ok (t, u) \<Longrightarrow> safe_bs t"
| safe_split_last: "safe_bs s \<Longrightarrow> bs_split_at s mid = Ok (t, u) \<Longrightarrow> safe_bs u"
| safe_round: "safe_bs s \<Longrightarrow> safe_bs (bs_from_str (bs_into_string s))"

lemma bs_try_from_iff: "bs_try_from b = (if valid_utf8 b then Ok (ByteString b) else Err b)"
  using valid_utf8_ascii by (auto simp: bs_try_from_def)

lemma bs_try_from_vec_eq: "bs_try_from_vec b = bs_try_from b"
  by (simp add: bs_try_from_vec_def bs_try_from_def)

lemma bs_try_from_eqs: "bs_try_from_bytes = bs_try_from" "bs_try_from_bytes_mut = bs_try_from" "bs_try_from_array = bs_try_from"
  by (auto simp: bs_try_from_bytes_def bs_try_from_bytes_mut_def bs_try_from_array_def bs_try_from_def)

lemma bs_split_at_eq:
  "bs_split_at s mid =
     (if is_char_boundary (into_bytes s) mid
      then Ok (ByteString (take mid (into_bytes s)), ByteString (drop mid (into_bytes s)))
      else Err ExplicitPanic)"
  by (auto simp: bs_split_at_def str_split_at_def split_to_def deref_str_def from_bytes_unchecked_def
      Let_def is_char_boundary_def)

lemma safe_bs_valid: "safe_bs s \<Longrightarrow> valid_utf8 (into_bytes s)"
proof (induction rule: safe_bs.induct)
  case (safe_slice s bytes_slice_ref sub str_of t)
  then show ?case by (cases "bytes_slice_ref (into_bytes s) sub") (auto simp: bs_slice_ref_def)
qed (auto simp: bs_new_def from_static_def bs_from_str_def bs_into_string_def bs_try_from_iff bs_from_string_def
    bs_from_box_str_def bs_try_from_eqs bs_deserialize_def bs_try_from_vec_eq bs_split_at_eq valid_utf8_split split: if_splits)

section \<open>The order of code points\<close>

lemma of_nat_u8_less_iff: "n < 256 \<Longrightarrow> m < 256 \<Longrightarrow> (of_nat n :: u8) < of_nat m \<longleftrightarrow> n < m"
  by (simp add: word_less_nat_alt unat_of_nat_u8)

lemma list_less_append: "(xs :: u8 list) < ys \<Longrightarrow> length xs = length ys \<Longrightarrow> xs @ us < ys @ vs"
  by (induction xs ys rule: list_induct2') auto

lemma map_of_nat_less:
  "xs < ys \<Longrightarrow> list_all (\<lambda>n. n < 256) xs \<Longrightarrow> list_all (\<lambda>n. n < 256) ys \<Longrightarrow>
   (map of_nat xs :: u8 list) < map of_nat ys"
  by (induction xs ys rule: list_induct2') (auto simp: of_nat_u8_less_iff)

lemma div_mod_less: "(c :: nat) < d \<Longrightarrow> c div 64 < d div 64 \<or> (c div 64 = d div 64 \<and> c mod 64 < d mod 64)"
  using div_le_mono [of c d 64] by (metis div_mult_mod_eq le_eq_less_or_eq less_imp_le_nat nat_add_left_cancel_less)

lemma utf8_encode_bytes:
  assumes "scalar c"
  shows "length (utf8_encode c) = (if c < 0x80 then 1 else if c < 0x800 then 2 else if c < 0x10000 then 3 else 4)"
    and "utf8_encode c \<noteq> []"
    and "hd (utf8_encode c) = of_nat (if c < 0x80 then c else if c < 0x800 then 0xC0 + c div 64
           else if c < 0x10000 then 0xE0 + c div 4096 else 0xF0 + c div 262144)"
  by (auto simp: utf8_encode_def)

lemma utf8_encode_less_same:
  assumes "scalar c" "scalar d" "c < d" "length (utf8_encode c) = length (utf8_encode d)"
  shows "utf8_encode c @ us < utf8_encode d @ vs"
proof -
  note d = div_mod_less [OF assms(3)] div_mod_less [of "c div 64" "d div 64"] div_mod_less [of "c div 64 div 64" "d div 64 div 64"]
  have m: "x mod 64 < 64" for x :: nat by simp
  have m': "x mod 64 < 128" for x :: nat using m [of x] by linarith
  have bounds: "c < 0x110000" "d < 0x110000" using assms(1,2) by (auto simp: scalar_def)
  consider "d < 128" | "128 \<le> c" "d < 2048" | "2048 \<le> c" "d < 65536" | "65536 \<le> c"
    using assms(3,4) utf8_encode_bytes(1) [OF assms(1)] utf8_encode_bytes(1) [OF assms(2)]
    by (auto split: if_splits)
  then show ?thesis
  proof cases
    case 1
    then show ?thesis using assms(3) by (simp add: utf8_encode_def of_nat_u8_less_iff)
  next
    case 2
    then have "c div 64 < 64" "d div 64 < 64" using assms(3) by auto
    then show ?thesis using 2 assms(3) d(1) m
      by (auto simp: utf8_encode_def of_nat_u8_less_iff of_nat_u8_eq_iff simp del: of_nat_add)
  next
    case 3
    then have "c div 64 div 64 < 16" "d div 64 div 64 < 16" using assms(3) by auto
    then show ?thesis using 3 assms(3) d m
      by (auto simp: utf8_encode_def of_nat_u8_less_iff of_nat_u8_eq_iff div_4096 simp del: of_nat_add)
  next
    case 4
    define c1 where "c1 = c div 64"
    define c2 where "c2 = c1 div 64"
    define c3 where "c3 = c2 div 64"
    define d1 where "d1 = d div 64"
    define d2 where "d2 = d1 div 64"
    define d3 where "d3 = d2 div 64"
    note defs = c1_def c2_def c3_def d1_def d2_def d3_def
    have b: "c3 < 5" "d3 < 5" using bounds by (auto simp: defs)
    have e: "utf8_encode c = map of_nat [0xF0 + c3, 0x80 + c2 mod 64, 0x80 + c1 mod 64, 0x80 + c mod 64]"
      "utf8_encode d = map of_nat [0xF0 + d3, 0x80 + d2 mod 64, 0x80 + d1 mod 64, 0x80 + d mod 64]"
      using 4 assms(3) by (simp_all add: utf8_encode_def defs div_4096 div_262144)
    have "c1 < d1 \<or> (c1 = d1 \<and> c mod 64 < d mod 64)" using div_mod_less [OF assms(3)] by (simp add: defs)
    moreover have "c1 < d1 \<Longrightarrow> c2 < d2 \<or> (c2 = d2 \<and> c1 mod 64 < d1 mod 64)" using div_mod_less by (simp add: c2_def d2_def)
    moreover have "c2 < d2 \<Longrightarrow> c3 < d3 \<or> (c3 = d3 \<and> c2 mod 64 < d2 mod 64)" using div_mod_less by (simp add: c3_def d3_def)
    ultimately consider "c3 < d3" | "c3 = d3" "c2 mod 64 < d2 mod 64"
      | "c2 = d2" "c1 mod 64 < d1 mod 64" | "c1 = d1" "c mod 64 < d mod 64" by blast
    then have "[0xF0 + c3, 0x80 + c2 mod 64, 0x80 + c1 mod 64, 0x80 + c mod 64]
        < [0xF0 + d3, 0x80 + d2 mod 64, 0x80 + d1 mod 64, 0x80 + d mod 64]"
      by cases (simp_all add: c2_def d2_def c3_def d3_def)
    then have "utf8_encode c < utf8_encode d"
      unfolding e by (rule map_of_nat_less) (use b in \<open>simp_all add: m'\<close>)
    then show ?thesis using assms(4) by (rule list_less_append)
  qed
qed

lemma utf8_encode_less:
  assumes "scalar c" "scalar d" "c < d"
  shows "utf8_encode c @ us < utf8_encode d @ vs"
proof (cases "length (utf8_encode c) = length (utf8_encode d)")
  case True
  with assms show ?thesis by (rule utf8_encode_less_same)
next
  case False
  have "c < 0x110000" "d < 0x110000" using assms(1,2) by (auto simp: scalar_def)
  then have "hd (utf8_encode c) < hd (utf8_encode d)"
    using False assms(3) utf8_encode_bytes(1,3) [OF assms(1)] utf8_encode_bytes(1,3) [OF assms(2)]
    by (auto simp: of_nat_u8_less_iff simp del: of_nat_add split: if_splits)
  then show ?thesis
    using utf8_encode_bytes(2) [OF assms(1)] utf8_encode_bytes(2) [OF assms(2)]
    by (cases "utf8_encode c"; cases "utf8_encode d") auto
qed

lemma append_less_cancel: "(xs :: u8 list) @ us < xs @ vs \<longleftrightarrow> us < vs"
  by (induction xs) auto

lemma utf8_string_less:
  "list_all scalar cs \<Longrightarrow> list_all scalar ds \<Longrightarrow> cs < ds \<Longrightarrow> utf8_string cs < utf8_string ds"
proof (induction cs ds rule: list_induct2')
  case (3 d ds)
  then show ?case using utf8_encode_bytes(2) [of d]
    by (cases "utf8_encode d") (auto simp: utf8_string_def)
next
  case (4 c cs d ds)
  then show ?case by (auto simp: utf8_string_def utf8_encode_less append_less_cancel)
qed auto

lemma utf8_string_less_iff:
  assumes "list_all scalar cs" "list_all scalar ds"
  shows "utf8_string cs < utf8_string ds \<longleftrightarrow> cs < ds"
  using utf8_string_less [OF assms] utf8_string_less [OF assms(2,1)] by (metis linorder_less_linear order_less_asym)

section \<open>Properties\<close>

text \<open>
  C24. \<open>ByteString\<close> is a string type.  Every one that safe code can construct - from strings, by the checked
  conversions from bytes, with or without their ASCII fast path, by deserializing, slicing and splitting -
  holds valid UTF-8, the encoding of a sequence of scalar values, which is what the \<open>unsafe\<close> blocks of
  \<open>Deref\<close> and \<open>split_at\<close> rely on.  The checked conversions accept exactly the valid byte sequences and
  keep them.  \<open>split_at\<close> panics exactly when the index is past the end or inside a code point, and
  otherwise cuts the string at it, into two such strings.
\<close>

theorem bytestring_valid:
  assumes "safe_bs s"
  shows "valid_utf8 (deref_str s) \<and> (\<exists>cs. list_all scalar cs \<and> utf8_string cs = deref_str s)
    \<and> (\<forall>conv \<in> {bs_try_from, bs_try_from_vec, bs_try_from_bytes, bs_try_from_bytes_mut, bs_try_from_array}.
         conv b = (if valid_utf8 b then Ok (ByteString b) else Err b))
    \<and> (case bs_split_at s mid of
         Ok (t, u) \<Rightarrow> is_char_boundary (deref_str s) mid \<and> deref_str t = take mid (deref_str s)
           \<and> deref_str t @ deref_str u = deref_str s \<and> valid_utf8 (deref_str t) \<and> valid_utf8 (deref_str u)
       | Err p \<Rightarrow> \<not> is_char_boundary (deref_str s) mid)"
proof -
  have v: "valid_utf8 (deref_str s)" using safe_bs_valid [OF assms] by (simp add: deref_str_def)
  have "case bs_split_at s mid of
         Ok (t, u) \<Rightarrow> is_char_boundary (deref_str s) mid \<and> deref_str t = take mid (deref_str s)
           \<and> deref_str t @ deref_str u = deref_str s \<and> valid_utf8 (deref_str t) \<and> valid_utf8 (deref_str u)
       | Err p \<Rightarrow> \<not> is_char_boundary (deref_str s) mid"
    using valid_utf8_split [OF safe_bs_valid [OF assms], of mid] by (auto simp: bs_split_at_eq deref_str_def)
  with v show ?thesis by (simp add: valid_utf8_iff bs_try_from_eqs bs_try_from_vec_eq bs_try_from_iff)
qed

theorem bytestring_valid_witness:
  "valid_utf8 (deref_str (ByteString [0xC3, 0xBC, 0x61])) \<and> bs_try_from_vec [0xC3] = Err [0xC3]
   \<and> bs_split_at (ByteString [0xC3, 0xBC, 0x61]) 2 = Ok (ByteString [0xC3, 0xBC], ByteString [0x61])
   \<and> bs_split_at (ByteString [0xC3, 0xBC, 0x61]) 1 = Err ExplicitPanic
   \<and> valid_utf8 (deref_str (ByteString [0xC3, 0xBC]))"
proof -
  have "bs_try_from [0xC3, 0xBC, 0x61] = Ok (ByteString [0xC3, 0xBC, 0x61])" by code_simp
  then have s: "safe_bs (ByteString [0xC3, 0xBC, 0x61])" by (rule safe_try)
  have e: "bs_split_at (ByteString [0xC3, 0xBC, 0x61]) 2 = Ok (ByteString [0xC3, 0xBC], ByteString [0x61])"
    "bs_split_at (ByteString [0xC3, 0xBC, 0x61]) 1 = Err ExplicitPanic" "\<not> valid_utf8 [0xC3]" by code_simp+
  from bytestring_valid [OF s, of "[0xC3]" 2] e(2) show ?thesis
    unfolding e(1) by (auto simp only: e(3) if_False result.case prod.case)
qed

text \<open>
  The derived order of \<open>ByteString\<close>, which compares bytes, is the order of the code points.
\<close>

theorem bytestring_order:
  assumes "list_all scalar cs" and "list_all scalar ds"
  shows "bs_from_str (utf8_string cs) < bs_from_str (utf8_string ds) \<longleftrightarrow> cs < ds"
  using utf8_string_less_iff [OF assms] by (simp add: less_bytestring_def bs_less_def bs_from_str_def)

theorem bytestring_order_witness:
  "bs_from_str (utf8_string [0x7A, 0xFC]) < bs_from_str (utf8_string [0x7A, 0x20AC])"
  using bytestring_order [of "[0x7A, 0xFC]" "[0x7A, 0x20AC]"] by (simp add: scalar_def)

end
