(* ===== verification/Worker_Counter.thy ===== *)
theory Worker_Counter
  imports Availability
begin

text \<open>
  The connection counter of \<open>actix-server/src/worker.rs\<close> (\<open>Counter\<close>, \<open>WorkerCounter\<close> and its
  guard, \<open>WorkerHandleAccept\<close>) and the protocol around it: the accept thread increments and may
  mark the worker unavailable, the worker decrements and may queue a \<open>WorkerAvailable\<close>
  notification.  The raw counter is a \<open>usize\<close> that wraps as \<open>fetch_add\<close> and \<open>fetch_sub\<close> do, and
  is one higher than the number of connections.
\<close>

section \<open>The counter\<close>

record wcounter =
  raw :: usize
  limit :: usize

definition wc_new :: "usize \<Rightarrow> wcounter" where
  "wc_new l = \<lparr>raw = 1, limit = l\<rparr>"

definition wc_inc :: "wcounter \<Rightarrow> bool \<times> wcounter" where
  "wc_inc c = (let prev = raw c in (prev \<noteq> limit c, c\<lparr>raw := prev + 1\<rparr>))"

definition wc_dec :: "wcounter \<Rightarrow> bool \<times> wcounter" where
  "wc_dec c = (let prev = raw c in (Some prev = checked_add (limit c) 1, c\<lparr>raw := prev - 1\<rparr>))"

definition wc_total :: "wcounter \<Rightarrow> (usize, panic) result" where
  "wc_total c = (if raw c = 0 then Err ArithOverflow else Ok (raw c - 1))"

text \<open>Dropping a \<open>WorkerCounterGuard\<close> of worker \<open>idx\<close>: the notification it queues, if any.\<close>

definition guard_dropped :: "nat \<Rightarrow> wcounter \<Rightarrow> nat option \<times> wcounter" where
  "guard_dropped idx c = (case wc_dec c of (b, c') \<Rightarrow> (if b then Some idx else None, c'))"

lemmas wc_defs = wc_inc_def wc_dec_def wc_total_def Let_def

lemma unat_suc: "unat (a :: usize) + 1 < 2 ^ 64 \<Longrightarrow> unat (a + 1) = unat a + 1"
  by (simp add: unat_word_ariths)

lemma checked_add_1_iff:
  "Some p = checked_add l 1 \<longleftrightarrow> unat p = unat l + 1"
proof (cases "unat l + 1 < 2 ^ 64")
  case True
  then show ?thesis by (simp add: checked_add_def word_unat_eq_iff unat_suc)
next
  case False
  then have "unat p \<noteq> unat l + 1" using unat_lt_64 [of p] by linarith
  with False show ?thesis by (simp add: checked_add_def)
qed

lemma unat_minus_1: "0 < unat (a :: usize) \<Longrightarrow> unat (a - 1) = unat a - 1"
  using unat_minus_one [of a] by (cases "a = 0") simp_all

section \<open>The handle of the accept thread\<close>

record conn =
  c_io :: nat
  c_token :: nat

text \<open>\<open>conn_tx\<close> is the channel to the worker: \<open>h_open\<close> while the worker's receiver lives, and the
  connections sent and not yet received.\<close>

record handle =
  h_idx :: nat
  h_open :: bool
  h_queue :: "conn list"
  h_counter :: wcounter

definition handle_send :: "conn \<Rightarrow> handle \<Rightarrow> (bool, conn) result \<times> handle" where
  "handle_send c h =
     (case wc_inc (h_counter h) of
        (has_cap, k) \<Rightarrow>
          (if h_open h then (Ok has_cap, h\<lparr>h_counter := k, h_queue := h_queue h @ [c]\<rparr>)
           else (Err c, h\<lparr>h_counter := snd (wc_dec k)\<rparr>)))"

text \<open>A failed send leaves the handle as it was.\<close>

lemma handle_send_closed: "\<not> h_open h \<Longrightarrow> handle_send c h = (Err c, h)"
  by (simp add: handle_send_def wc_defs split: prod.splits)

lemma handle_send_open:
  "h_open h \<Longrightarrow> handle_send c h =
     (Ok (raw (h_counter h) \<noteq> limit (h_counter h)),
      h\<lparr>h_counter := (h_counter h)\<lparr>raw := raw (h_counter h) + 1\<rparr>, h_queue := h_queue h @ [c]\<rparr>)"
  by (simp add: handle_send_def wc_defs)

lemma handle_send_idx: "h_idx (snd (handle_send c h)) = h_idx h \<and> h_open (snd (handle_send c h)) = h_open h"
  by (simp add: handle_send_def split: prod.splits)

section \<open>The capacity protocol\<close>

text \<open>
  One worker's counter, its flag in the accept thread's cache, the number of queued
  \<open>WorkerAvailable\<close> notifications and the live connections.  The accept thread is between
  operations, or between the increment that filled the worker and the write of its flag
  (\<open>MarkFull\<close>).  Sends are taken from the flag; \<open>cap_forced\<close> is the send of \<open>accept_one\<close> to an
  unavailable worker, which it makes only when every worker is unavailable.  Worker steps
  interleave at every point.
\<close>

datatype accept_pc = AcceptIdle | MarkFull

record cap =
  wctr :: wcounter
  flag :: bool
  pend :: nat
  live :: nat
  pc :: accept_pc

definition cap_init :: "usize \<Rightarrow> cap" where
  "cap_init l = \<lparr>wctr = wc_new l, flag = True, pend = 0, live = 0, pc = AcceptIdle\<rparr>"

inductive cap_step :: "bool \<Rightarrow> cap \<Rightarrow> cap \<Rightarrow> bool" for forced where
  cap_send: "pc s = AcceptIdle \<Longrightarrow> flag s \<Longrightarrow> live s + 2 < 2 ^ 64 \<Longrightarrow> wc_inc (wctr s) = (b, k) \<Longrightarrow>
     cap_step forced s (s\<lparr>wctr := k, live := live s + 1, pc := (if b then AcceptIdle else MarkFull)\<rparr>)"
| cap_forced: "forced \<Longrightarrow> pc s = AcceptIdle \<Longrightarrow> \<not> flag s \<Longrightarrow> live s + 2 < 2 ^ 64 \<Longrightarrow>
     wc_inc (wctr s) = (b, k) \<Longrightarrow>
     cap_step forced s (s\<lparr>wctr := k, live := live s + 1, pc := (if b then AcceptIdle else MarkFull)\<rparr>)"
| cap_mark: "pc s = MarkFull \<Longrightarrow> cap_step forced s (s\<lparr>flag := False, pc := AcceptIdle\<rparr>)"
| cap_notified: "pc s = AcceptIdle \<Longrightarrow> pend s > 0 \<Longrightarrow>
     cap_step forced s (s\<lparr>flag := True, pend := pend s - 1\<rparr>)"
| cap_done: "live s > 0 \<Longrightarrow> wc_dec (wctr s) = (b, k) \<Longrightarrow>
     cap_step forced s (s\<lparr>wctr := k, live := live s - 1, pend := (if b then pend s + 1 else pend s)\<rparr>)"

inductive cap_reachable :: "bool \<Rightarrow> usize \<Rightarrow> cap \<Rightarrow> bool" for forced l where
  cap_start: "cap_reachable forced l (cap_init l)"
| cap_next: "cap_reachable forced l s \<Longrightarrow> cap_step forced s s' \<Longrightarrow> cap_reachable forced l s'"

text \<open>What holds with and without forced sends: the counter counts, and a worker below its limit
  is either flagged or about to be.\<close>

definition cap_inv :: "usize \<Rightarrow> cap \<Rightarrow> bool" where
  "cap_inv l s \<longleftrightarrow>
     limit (wctr s) = l \<and> unat (raw (wctr s)) = live s + 1 \<and>
     (live s < unat l \<and> (\<not> flag s \<or> pc s = MarkFull) \<longrightarrow> pend s > 0)"

lemma wc_inc_cases:
  assumes "wc_inc k = (b, k')" and "unat (raw k) + 1 < 2 ^ 64"
  shows "unat (raw k') = unat (raw k) + 1 \<and> limit k' = limit k \<and> (b \<longleftrightarrow> unat (raw k) \<noteq> unat (limit k))"
  using assms by (auto simp: wc_defs unat_suc word_unat_eq_iff)

lemma wc_dec_cases:
  assumes "wc_dec k = (b, k')" and "0 < unat (raw k)"
  shows "unat (raw k') = unat (raw k) - 1 \<and> limit k' = limit k \<and> (b \<longleftrightarrow> unat (raw k) = unat (limit k) + 1)"
  using assms by (auto simp: wc_defs unat_minus_1 checked_add_1_iff)

lemma cap_inv_init: "cap_inv l (cap_init l)"
  by (simp add: cap_inv_def cap_init_def wc_new_def)

lemma cap_step_inv: "cap_step forced s s' \<Longrightarrow> cap_inv l s \<Longrightarrow> cap_inv l s'"
proof (induction rule: cap_step.induct)
  case (cap_send s b k)
  with wc_inc_cases [OF cap_send(4)] show ?case by (auto simp: cap_inv_def)
next
  case (cap_forced s b k)
  with wc_inc_cases [OF cap_forced(5)] show ?case by (auto simp: cap_inv_def)
next
  case (cap_done s b k)
  with wc_dec_cases [OF cap_done(2)] show ?case by (auto simp: cap_inv_def)
qed (auto simp: cap_inv_def)

lemma cap_reachable_inv: "cap_reachable forced l s \<Longrightarrow> cap_inv l s"
  by (induction rule: cap_reachable.induct) (auto intro: cap_inv_init cap_step_inv)

text \<open>Without forced sends the limit is never passed.\<close>

definition cap_strict :: "usize \<Rightarrow> cap \<Rightarrow> bool" where
  "cap_strict l s \<longleftrightarrow> cap_inv l s \<and> live s + pend s \<le> unat l \<and>
     (pc s = AcceptIdle \<and> flag s \<longrightarrow> live s < unat l \<and> pend s = 0) \<and> pend s \<le> 1 \<and>
     (pc s = MarkFull \<or> \<not> flag s \<longrightarrow> live s + pend s = unat l \<or> pend s = 1)"

lemma cap_strict_init: "0 < unat l \<Longrightarrow> cap_strict l (cap_init l)"
  using cap_inv_init by (simp add: cap_strict_def cap_init_def)

lemma cap_step_strict: "cap_step False s s' \<Longrightarrow> cap_strict l s \<Longrightarrow> cap_strict l s'"
proof (induction rule: cap_step.induct)
  case (cap_send s b k)
  have "cap_inv l (s\<lparr>wctr := k, live := live s + 1, pc := (if b then AcceptIdle else MarkFull)\<rparr>)"
    using cap_step_inv [OF cap_step.cap_send [OF cap_send(1-4)], where l = l] cap_send(5)
    by (simp add: cap_strict_def)
  with cap_send wc_inc_cases [OF cap_send(4)] show ?case by (auto simp: cap_strict_def cap_inv_def)
next
  case (cap_done s b k)
  have "cap_inv l (s\<lparr>wctr := k, live := live s - 1, pend := (if b then pend s + 1 else pend s)\<rparr>)"
    using cap_step_inv [OF cap_step.cap_done [OF cap_done(1,2)], where l = l] cap_done(3)
    by (simp add: cap_strict_def)
  with cap_done wc_dec_cases [OF cap_done(2)] show ?case
    by (cases "pc s") (auto simp: cap_strict_def cap_inv_def)
qed (auto simp: cap_strict_def cap_inv_def)

lemma cap_reachable_strict: "cap_reachable False l s \<Longrightarrow> 0 < unat l \<Longrightarrow> cap_strict l s"
  by (induction rule: cap_reachable.induct) (auto intro: cap_strict_init cap_step_strict)

section \<open>Properties\<close>

text \<open>
  C2. The connection limit: as long as the accept thread sends only to workers it believes available,
  no interleaving of sends, completions and notifications gives a worker more than \<open>limit\<close>
  connections, and a worker marked available has room.
\<close>

theorem connection_limit_respected:
  assumes "cap_reachable False l s" and "l \<noteq> 0"
  shows "live s \<le> unat l \<and> (pc s = AcceptIdle \<and> flag s \<longrightarrow> live s < unat l)"
  using cap_reachable_strict [OF assms(1)] assms(2) by (auto simp: cap_strict_def unat_gt_0)

lemma cap_one: "cap_reachable forced 1 \<lparr>wctr = \<lparr>raw = 2, limit = 1\<rparr>, flag = False, pend = 0, live = 1, pc = AcceptIdle\<rparr>"
proof -
  have "cap_step forced (cap_init 1)
      (cap_init 1\<lparr>wctr := \<lparr>raw = 2, limit = 1\<rparr>, live := live (cap_init 1) + 1, pc := (if False then AcceptIdle else MarkFull)\<rparr>)"
    by (rule cap_step.cap_send) (simp_all add: cap_init_def wc_new_def wc_inc_def)
  from cap_next [OF cap_next [OF cap_start this] cap_step.cap_mark]
  show ?thesis by (simp add: cap_init_def)
qed

theorem connection_limit_respected_witness: "(1 :: nat) \<le> unat (1 :: usize)"
  using connection_limit_respected [OF cap_one] by simp

text \<open>
  C5. No lost availability: in every interleaving, forced sends included, a worker that is below its
  limit is marked available or has a \<open>WorkerAvailable\<close> notification waiting for the accept thread;
  and the counter is the number of live connections.
\<close>

theorem no_lost_availability:
  assumes "cap_reachable forced l s"
  shows "wc_total (wctr s) = Ok (of_nat (live s))
    \<and> (pc s = AcceptIdle \<and> live s < unat l \<and> \<not> flag s \<longrightarrow> 0 < pend s)"
proof -
  from cap_reachable_inv [OF assms] have inv: "unat (raw (wctr s)) = live s + 1"
    "live s < unat l \<and> \<not> flag s \<longrightarrow> 0 < pend s" by (auto simp: cap_inv_def)
  have "of_nat (unat (raw (wctr s))) = (of_nat (live s + 1) :: usize)" using inv(1) by simp
  then have "raw (wctr s) = of_nat (live s) + 1" by simp
  moreover from inv have "raw (wctr s) \<noteq> 0" by (metis add_is_0 one_neq_zero unsigned_0)
  ultimately show ?thesis using inv by (simp add: wc_total_def)
qed

theorem no_lost_availability_witness: "wc_total \<lparr>raw = 2, limit = 1\<rparr> = Ok 1"
  using no_lost_availability [OF cap_one] by simp

text \<open>
  C30. The forced send can break the limit: it may reach a worker whose notification is still queued,
  after which the worker is marked available at its limit and no later increment marks it
  unavailable.  For every number of connections there is a run with limit one that reaches it, the
  worker still marked available.
\<close>

theorem forced_send_breaks_limit:
  assumes "n + 3 < 2 ^ 64"
  shows "\<exists>s. cap_reachable True 1 s \<and> live s = Suc n \<and> flag s \<and> pc s = AcceptIdle"
  using assms
proof (induction n)
  case 0
  have d: "cap_step True \<lparr>wctr = \<lparr>raw = 2, limit = 1\<rparr>, flag = False, pend = 0, live = 1, pc = AcceptIdle\<rparr>
      \<lparr>wctr = \<lparr>raw = 1, limit = 1\<rparr>, flag = False, pend = 1, live = 0, pc = AcceptIdle\<rparr>"
    using cap_step.cap_done [of "\<lparr>wctr = \<lparr>raw = 2, limit = 1\<rparr>, flag = False, pend = 0, live = 1, pc = AcceptIdle\<rparr>"
        True "\<lparr>raw = 1, limit = 1\<rparr>" True]
    by (simp add: wc_dec_def checked_add_def)
  have f: "cap_step True \<lparr>wctr = \<lparr>raw = 1, limit = 1\<rparr>, flag = False, pend = 1, live = 0, pc = AcceptIdle\<rparr>
      \<lparr>wctr = \<lparr>raw = 2, limit = 1\<rparr>, flag = False, pend = 1, live = 1, pc = MarkFull\<rparr>"
    using cap_step.cap_forced [of True "\<lparr>wctr = \<lparr>raw = 1, limit = 1\<rparr>, flag = False, pend = 1, live = 0, pc = AcceptIdle\<rparr>"
        False "\<lparr>raw = 2, limit = 1\<rparr>"]
    by (simp add: wc_inc_def)
  have m: "cap_step True \<lparr>wctr = \<lparr>raw = 2, limit = 1\<rparr>, flag = False, pend = 1, live = 1, pc = MarkFull\<rparr>
      \<lparr>wctr = \<lparr>raw = 2, limit = 1\<rparr>, flag = False, pend = 1, live = 1, pc = AcceptIdle\<rparr>"
    using cap_step.cap_mark [of "\<lparr>wctr = \<lparr>raw = 2, limit = 1\<rparr>, flag = False, pend = 1, live = 1, pc = MarkFull\<rparr>"]
    by simp
  have w: "cap_step True \<lparr>wctr = \<lparr>raw = 2, limit = 1\<rparr>, flag = False, pend = 1, live = 1, pc = AcceptIdle\<rparr>
      \<lparr>wctr = \<lparr>raw = 2, limit = 1\<rparr>, flag = True, pend = 0, live = 1, pc = AcceptIdle\<rparr>"
    using cap_step.cap_notified [of "\<lparr>wctr = \<lparr>raw = 2, limit = 1\<rparr>, flag = False, pend = 1, live = 1, pc = AcceptIdle\<rparr>"]
    by simp
  show ?case using cap_next [OF cap_next [OF cap_next [OF cap_next [OF cap_one d] f] m] w] by auto
next
  case (Suc n)
  then obtain s where s: "cap_reachable True 1 s" "live s = Suc n" "flag s" "pc s = AcceptIdle" by auto
  obtain b k where k: "wc_inc (wctr s) = (b, k)" by force
  from cap_reachable_inv [OF s(1)] have inv: "unat (raw (wctr s)) = Suc (Suc n)" "limit (wctr s) = 1"
    using s(2) by (simp_all add: cap_inv_def)
  then have "b" using wc_inc_cases [OF k] Suc.prems by simp
  with cap_step.cap_send [OF s(4,3) _ k] s Suc.prems show ?case
    by (intro exI [of _ "s\<lparr>wctr := k, live := live s + 1, pc := AcceptIdle\<rparr>"])
      (auto intro: cap_next)
qed

theorem forced_send_breaks_limit_witness:
  "\<exists>s. cap_reachable True 1 s \<and> live s = Suc 99 \<and> flag s \<and> pc s = AcceptIdle"
  by (rule forced_send_breaks_limit) simp

end
