(* ===== verification/Accept.thy ===== *)
theory Accept
  imports Worker_Counter
begin

text \<open>
  \<open>actix-server/src/accept.rs\<close> and \<open>waker_queue.rs\<close>: the accept thread.  \<open>acc\<close> is \<open>Accept\<close> together
  with the listener slice it is always called with.  What the thread sends to the server
  (\<open>WorkerFaulted\<close>) and the connections it drops are logs; a listener's \<open>backlog\<close> is what its
  successive \<open>accept()\<close> calls answer, \<open>WouldBlock\<close> when exhausted; \<open>interest\<close> is the last
  registration request issued for it (failures of the registry are only logged by the code).
  Durations and instants are milliseconds; the clock is read once per call and passed in.
  A handler that may not return has type \<open>(_, panic) result option\<close>.
\<close>

section \<open>State\<close>

record socket_info =
  token :: nat
  backlog :: "(nat, io_error) result list"
  deadline :: "nat option"
  interest :: bool

datatype waker_interest = WorkerAvailable nat | Pause | Resume | Stop | NewWorker handle

record acc =
  handles :: "handle list"
  next_worker :: nat
  next_listener :: nat
  avail :: availability
  atimeout :: "nat option"
  paused :: bool
  socks :: "socket_info list"
  faulted :: "nat list"
  dropped :: "conn list"

definition ACCEPT_ERROR_BACKOFF :: nat where "ACCEPT_ERROR_BACKOFF = 500"
definition ACCEPT_ERROR_POLL_TIMEOUT :: nat where
  "ACCEPT_ERROR_POLL_TIMEOUT = ACCEPT_ERROR_BACKOFF + 10"

definition connection_error :: "io_error \<Rightarrow> bool" where
  "connection_error e \<longleftrightarrow> e = ConnectionRefused \<or> e = ConnectionAborted \<or> e = ConnectionReset"

text \<open>Sequencing of steps that may panic or not return.\<close>

definition seq_acc ::
  "(acc, panic) result option \<Rightarrow> (acc \<Rightarrow> (acc, panic) result option) \<Rightarrow> (acc, panic) result option" where
  "seq_acc r k = (case r of None \<Rightarrow> None | Some (Err p) \<Rightarrow> Some (Err p) | Some (Ok s) \<Rightarrow> k s)"

section \<open>Choosing a worker\<close>

definition set_next :: "acc \<Rightarrow> (acc, panic) result" where
  "set_next s =
     (if handles s = [] then Err DivisionByZero
      else Ok (s\<lparr>next_worker := (next_worker s + 1) mod length (handles s)\<rparr>))"

text \<open>\<open>Vec::swap_remove\<close> puts the last element in the place of the removed one.\<close>

definition swap_remove :: "'a list \<Rightarrow> nat \<Rightarrow> 'a list" where
  "swap_remove xs i = butlast (xs[i := last xs])"

definition remove_next :: "acc \<Rightarrow> (acc, panic) result" where
  "remove_next s =
     (if length (handles s) \<le> next_worker s then Err IndexOutOfBounds
      else
        let idx = h_idx (handles s ! next_worker s);
            s1 = s\<lparr>handles := swap_remove (handles s) (next_worker s), faulted := faulted s @ [idx]\<rparr>
        in case set_available (avail s1) idx False of
             Err p \<Rightarrow> Err p
           | Ok a \<Rightarrow> Ok (s1\<lparr>avail := a\<rparr>))"

text \<open>\<open>send_connection\<close>: the inner \<open>result\<close> is the function's own, the outer one a panic.\<close>

definition send_connection :: "conn \<Rightarrow> acc \<Rightarrow> ((unit, conn) result \<times> acc, panic) result" where
  "send_connection c s =
     (if length (handles s) \<le> next_worker s then Err IndexOutOfBounds
      else
        case handle_send c (handles s ! next_worker s) of
          (Ok has_cap, h) \<Rightarrow>
            (let s1 = s\<lparr>handles := (handles s)[next_worker s := h]\<rparr> in
             case (if has_cap then Ok (avail s1) else set_available (avail s1) (h_idx h) False) of
               Err p \<Rightarrow> Err p
             | Ok a \<Rightarrow>
                 (case set_next (s1\<lparr>avail := a\<rparr>) of Err p \<Rightarrow> Err p | Ok s2 \<Rightarrow> Ok (Ok (), s2)))
        | (Err c1, h) \<Rightarrow>
            (case remove_next (s\<lparr>handles := (handles s)[next_worker s := h]\<rparr>) of
               Err p \<Rightarrow> Err p
             | Ok s1 \<Rightarrow>
                 (if handles s1 = [] then Ok (Ok (), s1\<lparr>dropped := dropped s1 @ [c1]\<rparr>)
                  else if length (handles s1) \<le> next_worker s1
                  then Ok (Err c1, s1\<lparr>next_worker := 0\<rparr>)
                  else Ok (Err c1, s1))))"

text \<open>The inner \<open>while let Err(c)\<close> loop of \<open>accept_one\<close>.\<close>

partial_function (option) send_until :: "conn \<Rightarrow> acc \<Rightarrow> (acc, panic) result option" where
  "send_until c s =
     (case send_connection c s of
        Err p \<Rightarrow> Some (Err p)
      | Ok (Ok u, s1) \<Rightarrow> Some (Ok s1)
      | Ok (Err c1, s1) \<Rightarrow> send_until c1 s1)"

partial_function (option) accept_one :: "conn \<Rightarrow> acc \<Rightarrow> (acc, panic) result option" where
  "accept_one c s =
     (if length (handles s) \<le> next_worker s then Some (Err IndexOutOfBounds)
      else
        let idx = h_idx (handles s ! next_worker s) in
        case get_available (avail s) idx of
          Err p \<Rightarrow> Some (Err p)
        | Ok b \<Rightarrow>
            (if b then
               (case send_connection c s of
                  Err p \<Rightarrow> Some (Err p)
                | Ok (Ok u, s1) \<Rightarrow> Some (Ok s1)
                | Ok (Err c1, s1) \<Rightarrow> accept_one c1 s1)
             else
               (case set_available (avail s) idx False of
                  Err p \<Rightarrow> Some (Err p)
                | Ok a \<Rightarrow>
                    (case set_next (s\<lparr>avail := a\<rparr>) of
                       Err p \<Rightarrow> Some (Err p)
                     | Ok s1 \<Rightarrow>
                         (if \<not> available (avail s1) then send_until c s1 else accept_one c s1)))))"

section \<open>Listeners\<close>

definition set_timeout :: "nat \<Rightarrow> acc \<Rightarrow> acc" where
  "set_timeout d s =
     (case atimeout s of
        Some t \<Rightarrow> (if t > d then s\<lparr>atimeout := Some d\<rparr> else s)
      | None \<Rightarrow> s\<lparr>atimeout := Some d\<rparr>)"

definition upd_sock :: "nat \<Rightarrow> (socket_info \<Rightarrow> socket_info) \<Rightarrow> acc \<Rightarrow> acc" where
  "upd_sock i f s = s\<lparr>socks := (socks s)[i := f (socks s ! i)]\<rparr>"

definition register_logged :: "nat \<Rightarrow> acc \<Rightarrow> acc" where
  "register_logged i s = upd_sock i (\<lambda>k. k\<lparr>interest := True\<rparr>) s"

definition deregister_logged :: "nat \<Rightarrow> acc \<Rightarrow> acc" where
  "deregister_logged i s = upd_sock i (\<lambda>k. k\<lparr>interest := False\<rparr>) s"

definition deregister_all :: "acc \<Rightarrow> acc" where
  "deregister_all s =
     s\<lparr>socks := map (\<lambda>k. if deadline k = None then k\<lparr>interest := False\<rparr> else k\<lparr>deadline := None\<rparr>) (socks s)\<rparr>"

text \<open>\<open>accept\<close>, by recursion on the answers the listener still has to give.\<close>

fun accept_loop :: "nat \<Rightarrow> nat \<Rightarrow> (nat, io_error) result list \<Rightarrow> acc \<Rightarrow> (acc, panic) result option" where
  "accept_loop now tok [] s =
     (if \<not> available (avail s) then Some (Ok s)
      else if length (socks s) \<le> tok then Some (Err IndexOutOfBounds)
      else Some (Ok s))"
| "accept_loop now tok (r # rs) s =
     (if \<not> available (avail s) then Some (Ok s)
      else if length (socks s) \<le> tok then Some (Err IndexOutOfBounds)
      else
        let s1 = upd_sock tok (\<lambda>k. k\<lparr>backlog := rs\<rparr>) s in
        case r of
          Ok io \<Rightarrow> seq_acc (accept_one \<lparr>c_io = io, c_token = tok\<rparr> s1) (accept_loop now tok rs)
        | Err e \<Rightarrow>
            (if e = WouldBlock then Some (Ok s1)
             else if connection_error e then accept_loop now tok rs s1
             else
               let s2 = deregister_logged tok s1;
                   s3 = upd_sock tok (\<lambda>k. k\<lparr>deadline := Some (now + ACCEPT_ERROR_BACKOFF)\<rparr>) s2
               in Some (Ok (set_timeout ACCEPT_ERROR_POLL_TIMEOUT s3))))"

definition accept :: "nat \<Rightarrow> nat \<Rightarrow> acc \<Rightarrow> (acc, panic) result option" where
  "accept now tok s =
     accept_loop now tok (if tok < length (socks s) then backlog (socks s ! tok) else []) s"

fun accept_from :: "nat \<Rightarrow> nat \<Rightarrow> nat list \<Rightarrow> acc \<Rightarrow> (acc, panic) result option" where
  "accept_from now start [] s = Some (Ok s)"
| "accept_from now start (off # offs) s =
     (let idx = (start + off) mod length (socks s) in
      seq_acc (accept now (token (socks s ! idx)) s) (accept_from now start offs))"

definition accept_all :: "nat \<Rightarrow> acc \<Rightarrow> (acc, panic) result option" where
  "accept_all now s =
     (if length (socks s) = 1 then accept now (token (socks s ! 0)) s
      else
        let start = next_listener s in
        seq_acc (accept_from now start [0..<length (socks s)] s)
          (\<lambda>s1. if socks s1 = [] then Some (Err DivisionByZero)
                else Some (Ok (s1\<lparr>next_listener := (start + 1) mod length (socks s1)\<rparr>))))"

section \<open>The event loop\<close>

definition process_one :: "nat \<Rightarrow> nat \<Rightarrow> acc \<Rightarrow> acc" where
  "process_one now i s =
     (case deadline (socks s ! i) of
        None \<Rightarrow> s
      | Some inst \<Rightarrow>
          (let s1 = upd_sock i (\<lambda>k. k\<lparr>deadline := None\<rparr>) s in
           if now < inst then
             set_timeout (inst - now) (upd_sock i (\<lambda>k. k\<lparr>deadline := Some inst\<rparr>) s1)
           else if \<not> paused s1 then register_logged i s1
           else s1))"

fun process_socks :: "nat \<Rightarrow> nat list \<Rightarrow> acc \<Rightarrow> acc" where
  "process_socks now [] s = s"
| "process_socks now (i # is) s = process_socks now is (process_one now i s)"

definition process_timeout :: "nat \<Rightarrow> acc \<Rightarrow> acc" where
  "process_timeout now s =
     (case atimeout s of
        None \<Rightarrow> s
      | Some t \<Rightarrow> process_socks now [0..<length (socks s)] (s\<lparr>atimeout := None\<rparr>))"

text \<open>\<open>handle_waker\<close> pops until the queue is empty; the list is what it pops in this call, pushes
  that arrive meanwhile included.  The flag says whether the thread must exit.\<close>

fun handle_waker :: "nat \<Rightarrow> waker_interest list \<Rightarrow> acc \<Rightarrow> (bool \<times> acc, panic) result option" where
  "handle_waker now [] s = Some (Ok (False, s))"
| "handle_waker now (WorkerAvailable idx # q) s =
     (case set_available (avail s) idx True of
        Err p \<Rightarrow> Some (Err p)
      | Ok a \<Rightarrow>
          (let s1 = s\<lparr>avail := a\<rparr> in
           if paused s1 then handle_waker now q s1
           else case accept_all now s1 of
                  None \<Rightarrow> None
                | Some (Err p) \<Rightarrow> Some (Err p)
                | Some (Ok s2) \<Rightarrow> handle_waker now q s2))"
| "handle_waker now (NewWorker h # q) s =
     (case set_available (avail s) (h_idx h) True of
        Err p \<Rightarrow> Some (Err p)
      | Ok a \<Rightarrow>
          (let s1 = s\<lparr>avail := a, handles := handles s @ [h]\<rparr> in
           if paused s1 then handle_waker now q s1
           else case accept_all now s1 of
                  None \<Rightarrow> None
                | Some (Err p) \<Rightarrow> Some (Err p)
                | Some (Ok s2) \<Rightarrow> handle_waker now q s2))"
| "handle_waker now (Pause # q) s =
     (if paused s then handle_waker now q s
      else handle_waker now q (deregister_all (s\<lparr>paused := True\<rparr>)))"
| "handle_waker now (Resume # q) s =
     (if paused s then
        let s1 = s\<lparr>paused := False, socks := map (\<lambda>k. k\<lparr>interest := True\<rparr>) (socks s)\<rparr> in
        case accept_all now s1 of
          None \<Rightarrow> None
        | Some (Err p) \<Rightarrow> Some (Err p)
        | Some (Ok s2) \<Rightarrow> handle_waker now q s2
      else handle_waker now q s)"
| "handle_waker now (Stop # q) s =
     Some (Ok (True, if paused s then s else deregister_all s))"

datatype mio_event = WakerEvent "waker_interest list" | ListenerEvent nat

fun handle_events :: "nat \<Rightarrow> mio_event list \<Rightarrow> acc \<Rightarrow> (bool \<times> acc, panic) result option" where
  "handle_events now [] s = Some (Ok (False, s))"
| "handle_events now (WakerEvent q # es) s =
     (case handle_waker now q s of
        None \<Rightarrow> None
      | Some (Err p) \<Rightarrow> Some (Err p)
      | Some (Ok (True, s1)) \<Rightarrow> Some (Ok (True, s1))
      | Some (Ok (False, s1)) \<Rightarrow> handle_events now es s1)"
| "handle_events now (ListenerEvent tok # es) s =
     (case accept now tok s of
        None \<Rightarrow> None
      | Some (Err p) \<Rightarrow> Some (Err p)
      | Some (Ok s1) \<Rightarrow> handle_events now es s1)"

text \<open>\<open>poll_with\<close>: one entry per return of the poll, its error or its events at a time.  The flag
  says whether the thread has exited.\<close>

fun poll_with :: "(nat \<times> (mio_event list, io_error) result) list \<Rightarrow> acc \<Rightarrow> (bool \<times> acc, panic) result option" where
  "poll_with [] s = Some (Ok (False, s))"
| "poll_with ((now, r) # ps) s =
     (case r of
        Err e \<Rightarrow>
          (if e = Interrupted then poll_with ps (process_timeout now s) else Some (Err ExplicitPanic))
      | Ok events \<Rightarrow>
          (case handle_events now events s of
             None \<Rightarrow> None
           | Some (Err p) \<Rightarrow> Some (Err p)
           | Some (Ok (True, s1)) \<Rightarrow> Some (Ok (True, s1))
           | Some (Ok (False, s1)) \<Rightarrow> poll_with ps (process_timeout now s1)))"

section \<open>Start-up\<close>

text \<open>\<open>new_with_sockets\<close>, for listeners that could all be registered.\<close>

definition new_with_sockets :: "(nat \<times> (nat, io_error) result list) list \<Rightarrow> handle list \<Rightarrow> (acc, panic) result" where
  "new_with_sockets ls hs =
     (case set_available_all default_avail (map h_idx hs) of
        Err p \<Rightarrow> Err p
      | Ok a \<Rightarrow> Ok \<lparr>handles = hs, next_worker = 0, next_listener = 0, avail = a, atimeout = None,
          paused = False,
          socks = map (\<lambda>(t, b). \<lparr>token = t, backlog = b, deadline = None, interest = True\<rparr>) ls,
          faulted = [], dropped = []\<rparr>)"

end
