(* ===== verification/Accept_Dispatch.thy ===== *)
theory Accept_Dispatch
  imports Accept "HOL-Library.Multiset"
begin

text \<open>
  Dispatch of one connection (\<open>send_connection\<close>, \<open>accept_one\<close>, \<open>remove_next\<close>, \<open>set_next\<close> of
  \<open>actix-server/src/accept.rs\<close>).  \<open>acc_wf\<close> is the invariant of the accept thread; under it
  \<open>accept_one\<close> returns, hands the connection to exactly one live worker or drops it when no worker
  is left, and reports exactly the workers it removes.
\<close>

section \<open>Invariant\<close>

abbreviation idxs :: "handle list \<Rightarrow> nat set" where
  "idxs hs \<equiv> h_idx ` set hs"

definition acc_wf :: "acc \<Rightarrow> bool" where
  "acc_wf s \<longleftrightarrow> wf_avail (avail s) \<and> (\<forall>h \<in> set (handles s). h_idx h < MAX_WORKERS)
     \<and> distinct (map h_idx (handles s)) \<and> next_worker s < max 1 (length (handles s))
     \<and> (\<forall>i. avail_bit (avail s) i \<longrightarrow> i \<in> idxs (handles s))"

lemma acc_wfD:
  assumes "acc_wf s"
  shows "wf_avail (avail s)" "h \<in> set (handles s) \<Longrightarrow> h_idx h < MAX_WORKERS"
    "distinct (map h_idx (handles s))" "handles s \<noteq> [] \<Longrightarrow> next_worker s < length (handles s)"
    "avail_bit (avail s) i \<Longrightarrow> i \<in> idxs (handles s)"
  using assms by (auto simp: acc_wf_def max_def not_le split: if_splits)

lemma set_available_ok: "i < MAX_WORKERS \<Longrightarrow> \<exists>a'. set_available a i v = Ok a'"
  by (simp add: set_available_eq)

section \<open>Removing a handle\<close>

lemma mset_swap_remove: "i < length xs \<Longrightarrow> add_mset (xs ! i) (mset (swap_remove xs i)) = mset xs"
proof -
  assume i: "i < length xs"
  then have ne: "xs[i := last xs] \<noteq> []" by auto
  have l: "last (xs[i := last xs]) = last xs"
    using i by (subst last_list_update) auto
  have "mset (xs[i := last xs]) = add_mset (last xs) (mset xs - {#xs ! i#})"
    using i by (simp add: mset_update)
  moreover have "mset (xs[i := last xs]) = add_mset (last xs) (mset (swap_remove xs i))"
    using append_butlast_last_id [OF ne] l unfolding swap_remove_def
    by (metis mset.simps(2) mset_append mset_single_iff_right union_mset_add_mset_right add_mset_add_single)
  ultimately have "mset (swap_remove xs i) = mset xs - {#xs ! i#}" by simp
  with i show ?thesis by simp
qed

lemma length_swap_remove [simp]: "length (swap_remove xs i) = length xs - 1"
  by (simp add: swap_remove_def)

lemma swap_remove_Nil [simp]: "swap_remove xs i = [] \<longleftrightarrow> length xs \<le> 1"
  using length_swap_remove [of xs i] by (simp flip: length_0_conv)

lemma set_swap_remove: "i < length xs \<Longrightarrow> insert (xs ! i) (set (swap_remove xs i)) = set xs"
  by (metis mset_swap_remove set_mset_add_mset_insert set_mset_mset)

lemma distinct_swap_remove:
  assumes "distinct (map f xs)" "i < length xs"
  shows "distinct (map f (swap_remove xs i)) \<and> f (xs ! i) \<notin> f ` set (swap_remove xs i)"
proof -
  have "mset (map f xs) = mset (map f (xs ! i # swap_remove xs i))"
    using mset_swap_remove [OF assms(2)] by (metis mset.simps(2) mset_map)
  with assms(1) have "distinct (map f (xs ! i # swap_remove xs i))"
    by (metis mset_eq_imp_distinct_iff)
  then show ?thesis by simp
qed

text \<open>What happened between two states of a dispatch: the handles \<open>R\<close>, all of dead workers, were
  taken out and reported.\<close>

definition removed :: "handle multiset \<Rightarrow> acc \<Rightarrow> acc \<Rightarrow> bool" where
  "removed R s s' \<longleftrightarrow> mset (handles s) = R + mset (handles s') \<and> (\<forall>h \<in># R. \<not> h_open h)
     \<and> mset (faulted s') = mset (faulted s) + image_mset h_idx R
     \<and> dropped s' = dropped s \<and> socks s' = socks s \<and> atimeout s' = atimeout s \<and> paused s' = paused s
     \<and> next_listener s' = next_listener s"

lemma removed_refl: "removed {#} s s"
  by (simp add: removed_def)

lemma removed_trans: "removed R s t \<Longrightarrow> removed Q t u \<Longrightarrow> removed (R + Q) s u"
  by (auto simp: removed_def)

lemma idx_next: "acc_wf s \<Longrightarrow> handles s \<noteq> [] \<Longrightarrow> h_idx (handles s ! next_worker s) < MAX_WORKERS"
  by (simp add: acc_wfD)

lemma set_next_ok:
  assumes "acc_wf s" "handles s \<noteq> []"
  shows "set_next s = Ok (s\<lparr>next_worker := (next_worker s + 1) mod length (handles s)\<rparr>)
    \<and> acc_wf (s\<lparr>next_worker := (next_worker s + 1) mod length (handles s)\<rparr>)"
  using assms by (auto simp: set_next_def acc_wf_def less_max_iff_disj)

lemma remove_next_ok:
  assumes wf: "acc_wf s" and ne: "handles s \<noteq> []"
  obtains a where "remove_next s = Ok (s\<lparr>handles := swap_remove (handles s) (next_worker s),
      faulted := faulted s @ [h_idx (handles s ! next_worker s)], avail := a\<rparr>)"
    "wf_avail a" "\<And>j. avail_bit a j = (j \<noteq> h_idx (handles s ! next_worker s) \<and> avail_bit (avail s) j)"
proof -
  obtain a where a: "set_available (avail s) (h_idx (handles s ! next_worker s)) False = Ok a"
    using set_available_ok idx_next [OF wf ne] by blast
  have "remove_next s = Ok (s\<lparr>handles := swap_remove (handles s) (next_worker s),
      faulted := faulted s @ [h_idx (handles s ! next_worker s)], avail := a\<rparr>)"
    using a acc_wfD(4) [OF wf ne] by (simp add: remove_next_def Let_def not_le)
  with set_available_wf [OF _ a] avail_bit_set [OF _ a] acc_wfD(1) [OF wf] that show thesis by simp
qed

section \<open>Sending\<close>

lemma send_connection_open:
  assumes wf: "acc_wf s" and ne: "handles s \<noteq> []" and op: "h_open (handles s ! next_worker s)"
  obtains a where "send_connection c s = Ok (Ok (), s\<lparr>avail := a,
      handles := (handles s)[next_worker s := snd (handle_send c (handles s ! next_worker s))],
      next_worker := (next_worker s + 1) mod length (handles s)\<rparr>)" "wf_avail a"
    "\<And>j. avail_bit a j = (avail_bit (avail s) j
        \<and> (j = h_idx (handles s ! next_worker s)
             \<longrightarrow> raw (h_counter (handles s ! next_worker s)) \<noteq> limit (h_counter (handles s ! next_worker s))))"
proof -
  let ?h = "handles s ! next_worker s"
  obtain a where a: "set_available (avail s) (h_idx ?h) False = Ok a"
    using set_available_ok idx_next [OF wf ne] by blast
  let ?full = "raw (h_counter ?h) = limit (h_counter ?h)"
  let ?a = "if ?full then a else avail s"
  have "send_connection c s = Ok (Ok (), s\<lparr>avail := ?a,
      handles := (handles s)[next_worker s := snd (handle_send c ?h)],
      next_worker := (next_worker s + 1) mod length (handles s)\<rparr>)"
    using a acc_wfD(4) [OF wf ne] ne
    by (simp add: send_connection_def handle_send_open [OF op] set_next_def not_le)
  moreover have "wf_avail ?a" using set_available_wf [OF _ a] acc_wfD(1) [OF wf] by simp
  ultimately show thesis
    using avail_bit_set [OF _ a] acc_wfD(1) [OF wf] by (intro that [of ?a]) auto
qed

lemma idxs_send:
  "i < length hs \<Longrightarrow> map h_idx (hs[i := snd (handle_send c (hs ! i))]) = map h_idx hs"
  by (simp add: map_update handle_send_idx list_update_same_conv)

lemma idxs_eq_map: "idxs hs = set (map h_idx hs)"
  by simp

lemma send_connection_open_wf:
  assumes wf: "acc_wf s" and ne: "handles s \<noteq> []" and op: "h_open (handles s ! next_worker s)"
    and snd: "send_connection c s = Ok (r, s')"
  shows "acc_wf s'"
proof -
  obtain a where s': "s' = s\<lparr>avail := a,
      handles := (handles s)[next_worker s := snd (handle_send c (handles s ! next_worker s))],
      next_worker := (next_worker s + 1) mod length (handles s)\<rparr>" "wf_avail a"
    and ab: "\<And>j. avail_bit a j \<Longrightarrow> avail_bit (avail s) j"
    by (rule send_connection_open [OF wf ne op, where c = c]) (use snd in auto)
  have m: "map h_idx (handles s') = map h_idx (handles s)"
    using s' idxs_send acc_wfD(4) [OF wf ne] by simp
  then have i: "idxs (handles s') = idxs (handles s)" by (metis idxs_eq_map)
  have "\<forall>h \<in> set (handles s'). h_idx h < MAX_WORKERS"
    using i acc_wfD(2) [OF wf] by (metis image_iff)
  moreover have "next_worker s' < max 1 (length (handles s'))" using s' ne by (simp add: less_max_iff_disj)
  ultimately show ?thesis using s' ab acc_wfD [OF wf] m i by (simp add: acc_wf_def)
qed

text \<open>A send to a dead worker: its handle is removed, and the connection comes back unless it was
  the last worker.\<close>

lemma send_connection_dead:
  assumes wf: "acc_wf s" and ne: "handles s \<noteq> []" and cl: "\<not> h_open (handles s ! next_worker s)"
  obtains s1 where "removed {#handles s ! next_worker s#} s s1" "acc_wf s1"
    "\<forall>j. avail_bit (avail s1) j \<longrightarrow> avail_bit (avail s) j"
    "length (handles s1) = length (handles s) - 1"
    "send_connection c s =
       (if handles s1 = [] then Ok (Ok (), s1\<lparr>dropped := dropped s1 @ [c]\<rparr>) else Ok (Err c, s1))"
proof -
  let ?n = "next_worker s" and ?h = "handles s ! next_worker s"
  obtain a where r: "remove_next s = Ok (s\<lparr>handles := swap_remove (handles s) ?n,
      faulted := faulted s @ [h_idx ?h], avail := a\<rparr>)" "wf_avail a"
    and ab: "\<And>j. avail_bit a j = (j \<noteq> h_idx ?h \<and> avail_bit (avail s) j)"
    by (rule remove_next_ok [OF wf ne]) blast
  let ?hs = "swap_remove (handles s) ?n"
  let ?s0 = "s\<lparr>handles := ?hs, faulted := faulted s @ [h_idx ?h], avail := a\<rparr>"
  let ?s1 = "if length ?hs \<le> ?n \<and> ?hs \<noteq> [] then ?s0\<lparr>next_worker := 0\<rparr> else ?s0"
  have n: "?n < length (handles s)" by (rule acc_wfD(4) [OF wf ne])
  have m4: "send_connection c s =
       (if handles ?s1 = [] then Ok (Ok (), ?s1\<lparr>dropped := dropped ?s1 @ [c]\<rparr>) else Ok (Err c, ?s1))"
    using n r(1) handle_send_closed [OF cl] by (simp add: send_connection_def not_le)
  have m1: "removed {#?h#} s ?s1"
    using mset_swap_remove [OF n] cl by (simp add: removed_def)
  have m2: "acc_wf ?s1"
  proof -
    have st: "set (handles s) = insert ?h (set ?hs)" using set_swap_remove [OF n] by simp
    have bits: "avail_bit a i \<Longrightarrow> i \<in> idxs ?hs" for i
      using acc_wfD(5) [OF wf, of i] ab st by auto
    have lt: "h \<in> set ?hs \<Longrightarrow> h_idx h < MAX_WORKERS" for h
      using acc_wfD(2) [OF wf, of h] st by simp
    have "distinct (map h_idx ?hs)" using distinct_swap_remove [OF acc_wfD(3) [OF wf] n] by simp
    with bits lt r(2) n show ?thesis by (auto simp: acc_wf_def not_le max_def)
  qed
  have m3: "\<forall>j. avail_bit (avail ?s1) j \<longrightarrow> avail_bit (avail s) j" using ab by simp
  have m5: "length (handles ?s1) = length (handles s) - 1" by simp
  show thesis by (rule that [OF m1 m2 m3 m5 m4])
qed

section \<open>Outcome of a dispatch\<close>

definition same_frame :: "acc \<Rightarrow> acc \<Rightarrow> bool" where
  "same_frame s s' \<longleftrightarrow> socks s' = socks s \<and> atimeout s' = atimeout s \<and> paused s' = paused s
     \<and> next_listener s' = next_listener s"

text \<open>The connection was queued to one live worker \<open>h\<close>; the handles \<open>R\<close> taken out on the way are
  all dead and reported, and the others are as they were.\<close>

definition delivered :: "conn \<Rightarrow> acc \<Rightarrow> acc \<Rightarrow> bool" where
  "delivered c s s' \<longleftrightarrow> (\<exists>R K h. mset (handles s) = R + add_mset h K
     \<and> mset (handles s') = add_mset (snd (handle_send c h)) K \<and> h_open h \<and> (\<forall>r \<in># R. \<not> h_open r)
     \<and> mset (faulted s') = mset (faulted s) + image_mset h_idx R \<and> dropped s' = dropped s)"

definition no_worker_left :: "conn \<Rightarrow> acc \<Rightarrow> acc \<Rightarrow> bool" where
  "no_worker_left c s s' \<longleftrightarrow> (\<forall>h \<in> set (handles s). \<not> h_open h) \<and> handles s' = []
     \<and> mset (faulted s') = mset (faulted s) + image_mset h_idx (mset (handles s))
     \<and> dropped s' = dropped s @ [c]"

definition dispatched :: "conn \<Rightarrow> acc \<Rightarrow> acc \<Rightarrow> bool" where
  "dispatched c s s' \<longleftrightarrow> acc_wf s' \<and> same_frame s s' \<and> (delivered c s s' \<or> no_worker_left c s s')
     \<and> (\<forall>j. avail_bit (avail s') j \<longrightarrow> avail_bit (avail s) j)"

text \<open>Steps between two sends: nothing is delivered yet.\<close>

definition pre_dispatch :: "acc \<Rightarrow> acc \<Rightarrow> bool" where
  "pre_dispatch s t \<longleftrightarrow> acc_wf t \<and> (\<exists>R. removed R s t)
     \<and> (\<forall>j. avail_bit (avail t) j \<longrightarrow> avail_bit (avail s) j)"

lemma dispatched_pre: "pre_dispatch s t \<Longrightarrow> dispatched c t u \<Longrightarrow> dispatched c s u"
proof -
  assume p: "pre_dispatch s t" and d: "dispatched c t u"
  from p obtain R where R: "removed R s t" by (auto simp: pre_dispatch_def)
  have "delivered c s u" if "delivered c t u"
  proof -
    from that obtain Q K h where "mset (handles t) = Q + add_mset h K"
      "mset (handles u) = add_mset (snd (handle_send c h)) K" "h_open h" "\<forall>r \<in># Q. \<not> h_open r"
      "mset (faulted u) = mset (faulted t) + image_mset h_idx Q" "dropped u = dropped t"
      unfolding delivered_def by blast
    with R show ?thesis unfolding delivered_def removed_def
      by (intro exI [of _ "R + Q"] exI [of _ K] exI [of _ h]) auto
  qed
  moreover have "no_worker_left c s u" if "no_worker_left c t u"
  proof -
    have "set (handles s) = set_mset R \<union> set (handles t)"
      using R unfolding removed_def by (metis set_mset_mset set_mset_union)
    with that R show ?thesis unfolding no_worker_left_def removed_def by auto
  qed
  ultimately show ?thesis using p d R
    by (auto simp: dispatched_def pre_dispatch_def removed_def same_frame_def)
qed

text \<open>One call of \<open>send_connection\<close> settles the connection, or removes a worker and gives it back.\<close>

lemma send_connection_outcome:
  assumes wf: "acc_wf s" and ne: "handles s \<noteq> []"
  shows "(\<exists>s'. send_connection c s = Ok (Ok (), s') \<and> dispatched c s s')
    \<or> (\<exists>s'. send_connection c s = Ok (Err c, s') \<and> pre_dispatch s s' \<and> handles s' \<noteq> []
         \<and> length (handles s') < length (handles s))"
proof (cases "h_open (handles s ! next_worker s)")
  case True
  let ?n = "next_worker s" and ?h = "handles s ! next_worker s"
  obtain a where s': "send_connection c s = Ok (Ok (), s\<lparr>avail := a,
      handles := (handles s)[?n := snd (handle_send c ?h)],
      next_worker := (?n + 1) mod length (handles s)\<rparr>)"
    and ab: "\<And>j. avail_bit a j \<Longrightarrow> avail_bit (avail s) j"
    by (rule send_connection_open [OF wf ne True, where c = c]) auto
  have n: "?n < length (handles s)" by (rule acc_wfD(4) [OF wf ne])
  let ?s' = "s\<lparr>avail := a, handles := (handles s)[?n := snd (handle_send c ?h)],
      next_worker := (?n + 1) mod length (handles s)\<rparr>"
  have "delivered c s ?s'" unfolding delivered_def
    using True n by (intro exI [of _ "{#}"] exI [of _ "mset (handles s) - {#?h#}"] exI [of _ ?h])
      (auto simp: mset_update)
  then have "dispatched c s ?s'"
    using send_connection_open_wf [OF wf ne True s'] ab by (simp add: dispatched_def same_frame_def)
  with s' show ?thesis by blast
next
  case False
  then obtain s1 where s1: "removed {#handles s ! next_worker s#} s s1" "acc_wf s1"
    "length (handles s1) = length (handles s) - 1"
    "send_connection c s =
       (if handles s1 = [] then Ok (Ok (), s1\<lparr>dropped := dropped s1 @ [c]\<rparr>) else Ok (Err c, s1))"
    and ab: "\<forall>j. avail_bit (avail s1) j \<longrightarrow> avail_bit (avail s) j"
    by (rule send_connection_dead [OF wf ne, where c = c]) blast
  show ?thesis
  proof (cases "handles s1 = []")
    case True
    then have m: "mset (handles s) = {#handles s ! next_worker s#}" using s1(1) by (simp add: removed_def)
    then have "set (handles s) = {handles s ! next_worker s}" by (metis set_mset_mset set_mset_single)
    moreover have "image_mset h_idx (mset (handles s)) = {#h_idx (handles s ! next_worker s)#}"
      by (subst m) simp
    ultimately have "no_worker_left c s (s1\<lparr>dropped := dropped s1 @ [c]\<rparr>)"
      using True False s1(1) by (simp add: no_worker_left_def removed_def)
    with True s1 ab have "dispatched c s (s1\<lparr>dropped := dropped s1 @ [c]\<rparr>)"
      by (auto simp: dispatched_def same_frame_def removed_def acc_wf_def)
    with True s1(4) show ?thesis by auto
  next
    case F: False
    have "pre_dispatch s s1" using s1(1,2) ab by (auto simp: pre_dispatch_def)
    moreover have "length (handles s1) < length (handles s)" using s1(3) ne by simp
    ultimately show ?thesis using F s1(4) by simp
  qed
qed

lemma send_until_ok:
  "acc_wf s \<Longrightarrow> handles s \<noteq> [] \<Longrightarrow> \<exists>s'. send_until c s = Some (Ok s') \<and> dispatched c s s'"
proof (induction "length (handles s)" arbitrary: s rule: less_induct)
  case less
  from send_connection_outcome [OF less.prems, of c] show ?case
  proof (elim disjE exE conjE)
    fix s' assume "send_connection c s = Ok (Ok (), s')" "dispatched c s s'"
    then show ?thesis by (simp add: send_until.simps [of c s])
  next
    fix s' assume s': "send_connection c s = Ok (Err c, s')" "pre_dispatch s s'" "handles s' \<noteq> []"
      "length (handles s') < length (handles s)"
    then have "acc_wf s'" by (simp add: pre_dispatch_def)
    from less.hyps [OF s'(4) this s'(3)] s'(1,2) show ?thesis
      by (auto simp: send_until.simps [of c s] intro: dispatched_pre)
  qed
qed

section \<open>The scan for an available worker\<close>

abbreviation at_next :: "acc \<Rightarrow> nat \<Rightarrow> handle" where
  "at_next s d \<equiv> handles s ! ((next_worker s + d) mod length (handles s))"

lemma get_available_next:
  "acc_wf s \<Longrightarrow> handles s \<noteq> [] \<Longrightarrow>
     get_available (avail s) (h_idx (handles s ! next_worker s))
       = Ok (avail_bit (avail s) (h_idx (handles s ! next_worker s)))"
  by (simp add: get_available_eq idx_next)

lemma accept_one_hit:
  assumes "acc_wf s" "handles s \<noteq> []" "avail_bit (avail s) (h_idx (handles s ! next_worker s))"
  shows "accept_one c s = (case send_connection c s of
      Err p \<Rightarrow> Some (Err p) | Ok (Ok u, s1) \<Rightarrow> Some (Ok s1) | Ok (Err c1, s1) \<Rightarrow> accept_one c1 s1)"
  using assms get_available_next [OF assms(1,2)] acc_wfD(4) [OF assms(1,2)]
  by (subst accept_one.simps) (simp add: not_le)

lemma accept_one_skip:
  assumes wf: "acc_wf s" and ne: "handles s \<noteq> []"
    and bit: "\<not> avail_bit (avail s) (h_idx (handles s ! next_worker s))"
  obtains a where
    "accept_one c s =
       (let t = s\<lparr>avail := a, next_worker := (next_worker s + 1) mod length (handles s)\<rparr>
        in if \<not> available a then send_until c t else accept_one c t)"
    "acc_wf (s\<lparr>avail := a, next_worker := (next_worker s + 1) mod length (handles s)\<rparr>)"
    "\<And>j. avail_bit a j = avail_bit (avail s) j"
proof -
  let ?i = "h_idx (handles s ! next_worker s)"
  obtain a where a: "set_available (avail s) ?i False = Ok a"
    using set_available_ok idx_next [OF wf ne] by blast
  have ab: "avail_bit a j = avail_bit (avail s) j" for j
    using avail_bit_set [OF acc_wfD(1) [OF wf] a] bit by auto
  have wfa: "acc_wf (s\<lparr>avail := a\<rparr>)"
    using wf ab set_available_wf [OF acc_wfD(1) [OF wf] a] by (simp add: acc_wf_def)
  from set_next_ok [OF wfa] ne have sn: "set_next (s\<lparr>avail := a\<rparr>) =
      Ok (s\<lparr>avail := a, next_worker := (next_worker s + 1) mod length (handles s)\<rparr>)"
    "acc_wf (s\<lparr>avail := a, next_worker := (next_worker s + 1) mod length (handles s)\<rparr>)" by simp_all
  have "accept_one c s =
       (let t = s\<lparr>avail := a, next_worker := (next_worker s + 1) mod length (handles s)\<rparr>
        in if \<not> available a then send_until c t else accept_one c t)"
    using get_available_next [OF wf ne] acc_wfD(4) [OF wf ne] bit a sn(1)
    by (subst accept_one.simps) (simp add: not_le Let_def)
  with sn(2) ab that show thesis by blast
qed

lemma pre_dispatch_skip:
  assumes "acc_wf t" "handles t = handles s" "same_frame s t" "faulted t = faulted s" "dropped t = dropped s"
    "\<And>j. avail_bit (avail t) j = avail_bit (avail s) j"
  shows "pre_dispatch s t"
  using assms by (auto simp: pre_dispatch_def removed_def same_frame_def intro!: exI [of _ "{#}"])

lemma next_offset:
  "n < len \<Longrightarrow> j < len \<Longrightarrow> \<exists>d < len. (n + d) mod len = (j :: nat)"
  by (rule exI [of _ "if n \<le> j then j - n else len + j - n"]) (auto simp: mod_if)

lemma available_has_handle:
  assumes wf: "acc_wf s" and av: "available (avail s)"
  shows "handles s \<noteq> [] \<and> (\<exists>d < length (handles s). avail_bit (avail s) (h_idx (at_next s d)))"
proof -
  obtain i where "avail_bit (avail s) i" using av available_iff acc_wfD(1) [OF wf] by blast
  then obtain h where h: "h \<in> set (handles s)" "avail_bit (avail s) (h_idx h)"
    using acc_wfD(5) [OF wf] by blast
  then obtain j where j: "j < length (handles s)" "handles s ! j = h" by (auto simp: in_set_conv_nth)
  have ne: "handles s \<noteq> []" using h by auto
  from next_offset [OF acc_wfD(4) [OF wf ne] j(1)] h(2) j(2) ne show ?thesis by auto
qed

lemma accept_one_step:
  assumes IH: "\<And>t. length (handles t) < length (handles s) \<Longrightarrow> acc_wf t \<Longrightarrow> handles t \<noteq> [] \<Longrightarrow>
      \<exists>s'. accept_one c t = Some (Ok s') \<and> dispatched c t s'"
    and "acc_wf s" "handles s \<noteq> []" "avail_bit (avail s) (h_idx (at_next s d))"
  shows "\<exists>s'. accept_one c s = Some (Ok s') \<and> dispatched c s s'"
  using assms
proof (induction d arbitrary: s)
  case 0
  then have bit: "avail_bit (avail s) (h_idx (handles s ! next_worker s))" by (simp add: acc_wfD(4))
  from send_connection_outcome [OF 0(2,3), of c] show ?case
  proof (elim disjE exE conjE)
    fix s' assume s': "send_connection c s = Ok (Err c, s')" "pre_dispatch s s'" "handles s' \<noteq> []"
      "length (handles s') < length (handles s)"
    then have "acc_wf s'" by (simp add: pre_dispatch_def)
    from 0(1) [OF s'(4) this s'(3)] s'(1,2) show ?thesis
      by (auto simp: accept_one_hit [OF 0(2,3) bit] intro: dispatched_pre)
  qed (simp add: accept_one_hit [OF 0(2,3) bit])
next
  case (Suc d)
  show ?case
  proof (cases "avail_bit (avail s) (h_idx (handles s ! next_worker s))")
    case True
    from send_connection_outcome [OF Suc(3,4), of c] show ?thesis
    proof (elim disjE exE conjE)
      fix s' assume s': "send_connection c s = Ok (Err c, s')" "pre_dispatch s s'" "handles s' \<noteq> []"
        "length (handles s') < length (handles s)"
      then have "acc_wf s'" by (simp add: pre_dispatch_def)
      from Suc(2) [OF s'(4) this s'(3)] s'(1,2) show ?thesis
        by (auto simp: accept_one_hit [OF Suc(3,4) True] intro: dispatched_pre)
    qed (simp add: accept_one_hit [OF Suc(3,4) True])
  next
    case False
    obtain a where a: "accept_one c s =
         (let t = s\<lparr>avail := a, next_worker := (next_worker s + 1) mod length (handles s)\<rparr>
          in if \<not> available a then send_until c t else accept_one c t)"
      "acc_wf (s\<lparr>avail := a, next_worker := (next_worker s + 1) mod length (handles s)\<rparr>)"
      and ab: "\<And>j. avail_bit a j = avail_bit (avail s) j"
      by (rule accept_one_skip [OF Suc(3,4) False, where c = c]) blast
    let ?t = "s\<lparr>avail := a, next_worker := (next_worker s + 1) mod length (handles s)\<rparr>"
    have "at_next ?t d = at_next s (Suc d)" by (simp add: mod_simps add.commute add.left_commute)
    then have "\<exists>s'. accept_one c ?t = Some (Ok s') \<and> dispatched c ?t s'"
      using Suc(5) ab Suc(4) by (intro Suc.IH [OF Suc(2) a(2)]) simp_all
    moreover have "available a"
      using available_iff [of a] acc_wfD(1) [OF a(2)] ab Suc(5) by auto
    moreover have "pre_dispatch s ?t"
      by (rule pre_dispatch_skip [OF a(2)]) (simp_all add: same_frame_def ab)
    ultimately show ?thesis using a(1) by (auto intro: dispatched_pre)
  qed
qed

lemma accept_one_ok:
  "acc_wf s \<Longrightarrow> handles s \<noteq> [] \<Longrightarrow> \<exists>s'. accept_one c s = Some (Ok s') \<and> dispatched c s s'"
proof (induction "length (handles s)" arbitrary: s rule: less_induct)
  case less
  show ?case
  proof (cases "available (avail s)")
    case True
    then obtain d where "avail_bit (avail s) (h_idx (at_next s d))"
      using available_has_handle [OF less.prems(1)] by blast
    from accept_one_step [OF less.hyps less.prems this] show ?thesis by simp
  next
    case False
    then have no: "\<not> avail_bit (avail s) j" for j
      using available_iff [OF acc_wfD(1) [OF less.prems(1)]] by blast
    obtain a where a: "accept_one c s =
         (let t = s\<lparr>avail := a, next_worker := (next_worker s + 1) mod length (handles s)\<rparr>
          in if \<not> available a then send_until c t else accept_one c t)"
      "acc_wf (s\<lparr>avail := a, next_worker := (next_worker s + 1) mod length (handles s)\<rparr>)"
      and ab: "\<And>j. avail_bit a j = avail_bit (avail s) j"
      by (rule accept_one_skip [OF less.prems no, where c = c]) blast
    let ?t = "s\<lparr>avail := a, next_worker := (next_worker s + 1) mod length (handles s)\<rparr>"
    have "\<not> available a" using available_iff [of a] acc_wfD(1) [OF a(2)] ab no by auto
    moreover have "pre_dispatch s ?t"
      by (rule pre_dispatch_skip [OF a(2)]) (simp_all add: same_frame_def ab)
    moreover from send_until_ok [OF a(2)] less.prems(2)
    obtain s' where "send_until c ?t = Some (Ok s')" "dispatched c ?t s'" by auto
    ultimately show ?thesis using a(1) by (auto intro: dispatched_pre)
  qed
qed

section \<open>Stale availability\<close>

text \<open>A flag that no handle backs keeps the scan going: without an available handle it skips for
  ever.\<close>

definition stale :: "acc \<Rightarrow> bool" where
  "stale s \<longleftrightarrow> handles s \<noteq> [] \<and> next_worker s < length (handles s) \<and> wf_avail (avail s)
     \<and> (\<forall>h \<in> set (handles s). h_idx h < MAX_WORKERS \<and> \<not> avail_bit (avail s) (h_idx h))
     \<and> (\<exists>i. avail_bit (avail s) i)"

lemma stale_skip:
  assumes st: "stale s" and a: "set_available (avail s) (h_idx (handles s ! next_worker s)) False = Ok a"
  shows "stale (s\<lparr>avail := a, next_worker := (next_worker s + 1) mod length (handles s)\<rparr>) \<and> available a"
proof -
  have ab: "avail_bit a j = avail_bit (avail s) j" for j
    using st avail_bit_set [OF _ a] by (auto simp: stale_def)
  have w: "wf_avail a" using st set_available_wf [OF _ a] by (auto simp: stale_def)
  with st ab available_iff [OF w] show ?thesis by (simp add: stale_def)
qed

lemma accept_one_stale: "accept_one c s = Some r \<Longrightarrow> \<not> stale s"
proof (erule accept_one.raw_induct [where P = "\<lambda>c s r. \<not> stale s", rotated])
  fix acc c s r
  assume IH: "\<And>c s r. acc c s = Some r \<Longrightarrow> \<not> stale s"
    and body: "(if length (handles s) \<le> next_worker s then Some (Err IndexOutOfBounds)
      else
        let idx = h_idx (handles s ! next_worker s) in
        case get_available (avail s) idx of
          Err p \<Rightarrow> Some (Err p)
        | Ok b \<Rightarrow>
            (if b then
               (case send_connection c s of
                  Err p \<Rightarrow> Some (Err p)
                | Ok (Ok u, s1) \<Rightarrow> Some (Ok s1)
                | Ok (Err c1, s1) \<Rightarrow> acc c1 s1)
             else
               (case set_available (avail s) idx False of
                  Err p \<Rightarrow> Some (Err p)
                | Ok a \<Rightarrow>
                    (case set_next (s\<lparr>avail := a\<rparr>) of
                       Err p \<Rightarrow> Some (Err p)
                     | Ok s1 \<Rightarrow>
                         (if \<not> available (avail s1) then send_until c s1 else acc c s1))))) = Some r"
  show "\<not> stale s"
  proof
    assume st: "stale s"
    let ?i = "h_idx (handles s ! next_worker s)"
    have i: "?i < MAX_WORKERS" "\<not> avail_bit (avail s) ?i" and n: "\<not> length (handles s) \<le> next_worker s"
      "handles s \<noteq> []"
      using st by (auto simp: stale_def)
    obtain a where a: "set_available (avail s) ?i False = Ok a" using set_available_ok i(1) by blast
    from stale_skip [OF st a] body i n a have "acc c (s\<lparr>avail := a,
        next_worker := (next_worker s + 1) mod length (handles s)\<rparr>) = Some r"
      by (simp add: get_available_eq set_next_def Let_def)
    from IH [OF this] stale_skip [OF st a] show False by simp
  qed
qed

lemma accept_one_stale_None: "stale s \<Longrightarrow> accept_one c s = None"
  using accept_one_stale by (cases "accept_one c s") auto

section \<open>Round robin\<close>

lemma round_robin_aux:
  assumes "acc_wf s" "handles s \<noteq> []" "avail_bit (avail s) (h_idx (at_next s k))"
    "\<forall>i < k. \<not> avail_bit (avail s) (h_idx (at_next s i))" "h_open (at_next s k)"
  shows "\<exists>a. accept_one c s = Some (Ok (s\<lparr>avail := a,
      handles := (handles s)[(next_worker s + k) mod length (handles s) := snd (handle_send c (at_next s k))],
      next_worker := (next_worker s + k + 1) mod length (handles s)\<rparr>))
    \<and> (\<forall>j. avail_bit a j = (avail_bit (avail s) j
        \<and> (j = h_idx (at_next s k) \<longrightarrow> raw (h_counter (at_next s k)) \<noteq> limit (h_counter (at_next s k)))))"
  using assms
proof (induction k arbitrary: s)
  case 0
  then have n: "next_worker s mod length (handles s) = next_worker s" by (simp add: acc_wfD(4))
  with 0 have bit: "avail_bit (avail s) (h_idx (handles s ! next_worker s))"
    and op: "h_open (handles s ! next_worker s)" by simp_all
  obtain a where "send_connection c s = Ok (Ok (), s\<lparr>avail := a,
      handles := (handles s)[next_worker s := snd (handle_send c (handles s ! next_worker s))],
      next_worker := (next_worker s + 1) mod length (handles s)\<rparr>)"
    "\<And>j. avail_bit a j = (avail_bit (avail s) j
        \<and> (j = h_idx (handles s ! next_worker s)
             \<longrightarrow> raw (h_counter (handles s ! next_worker s)) \<noteq> limit (h_counter (handles s ! next_worker s))))"
    by (rule send_connection_open [OF 0(1,2) op, where c = c]) blast
  then show ?case using n by (intro exI [of _ a]) (simp add: accept_one_hit [OF 0(1,2) bit])
next
  case (Suc k)
  have "\<not> avail_bit (avail s) (h_idx (at_next s 0))" using Suc.prems(4) by blast
  then have no: "\<not> avail_bit (avail s) (h_idx (handles s ! next_worker s))"
    using Suc.prems(1,2) by (simp add: acc_wfD(4))
  obtain a where a: "accept_one c s =
       (let t = s\<lparr>avail := a, next_worker := (next_worker s + 1) mod length (handles s)\<rparr>
        in if \<not> available a then send_until c t else accept_one c t)"
    "acc_wf (s\<lparr>avail := a, next_worker := (next_worker s + 1) mod length (handles s)\<rparr>)"
    and ab: "\<And>j. avail_bit a j = avail_bit (avail s) j"
    by (rule accept_one_skip [OF Suc.prems(1,2) no, where c = c]) blast
  let ?t = "s\<lparr>avail := a, next_worker := (next_worker s + 1) mod length (handles s)\<rparr>"
  have off: "(next_worker ?t + i) mod length (handles s) = (next_worker s + Suc i) mod length (handles s)" for i
    by (simp add: mod_simps add.commute add.left_commute)
  have av: "available a" using available_iff [of a] acc_wfD(1) [OF a(2)] ab Suc.prems(3) by auto
  have "\<forall>i < k. \<not> avail_bit (avail ?t) (h_idx (at_next ?t i))"
    using Suc.prems(4) off ab by auto
  with Suc.prems(2,3,5) off ab obtain b where "accept_one c ?t = Some (Ok (?t\<lparr>avail := b,
      handles := (handles ?t)[(next_worker ?t + k) mod length (handles ?t) := snd (handle_send c (at_next ?t k))],
      next_worker := (next_worker ?t + k + 1) mod length (handles ?t)\<rparr>))
    \<and> (\<forall>j. avail_bit b j = (avail_bit (avail ?t) j
        \<and> (j = h_idx (at_next ?t k) \<longrightarrow> raw (h_counter (at_next ?t k)) \<noteq> limit (h_counter (at_next ?t k)))))"
    using Suc.IH [OF a(2)] by auto
  then show ?case using a(1) av off [of k] off [of "Suc k"] ab
    by (intro exI [of _ b]) (simp add: Let_def)
qed

end
