(* ===== verification/Accept_Loop.thy ===== *)
theory Accept_Loop
  imports Accept_Dispatch
begin

text \<open>
  The accept thread above the dispatch: \<open>accept\<close>, \<open>accept_all\<close>, \<open>handle_waker\<close>,
  \<open>process_timeout\<close> and \<open>poll_with\<close> of \<open>actix-server/src/accept.rs\<close>.  \<open>accept_inv\<close> extends
  \<open>acc_wf\<close> with the listeners: none is forgotten, each is registered or has a retry deadline and
  then the poll has a timeout.  \<open>in_flight\<close> is the multiset of connections that wait on a listener
  or in a worker's channel.
\<close>

section \<open>Invariant of the thread\<close>

definition lst_ok :: "acc \<Rightarrow> bool" where
  "lst_ok s \<longleftrightarrow> (\<not> paused s \<longrightarrow> (\<forall>k \<in> set (socks s). interest k \<or> deadline k \<noteq> None))
     \<and> ((\<exists>k \<in> set (socks s). deadline k \<noteq> None) \<longrightarrow> atimeout s \<noteq> None)
     \<and> map token (socks s) = [0..<length (socks s)] \<and> socks s \<noteq> []"

definition accept_inv :: "acc \<Rightarrow> bool" where
  "accept_inv s \<longleftrightarrow> acc_wf s \<and> lst_ok s"

definition all_open :: "acc \<Rightarrow> bool" where
  "all_open s \<longleftrightarrow> (\<forall>h \<in> set (handles s). h_open h)"

fun oks :: "(nat, io_error) result list \<Rightarrow> nat list" where
  "oks [] = []"
| "oks (Ok io # rs) = io # oks rs"
| "oks (Err e # rs) = oks rs"

definition waiting :: "socket_info \<Rightarrow> conn multiset" where
  "waiting k = mset (map (\<lambda>io. \<lparr>c_io = io, c_token = token k\<rparr>) (oks (backlog k)))"

definition queued :: "acc \<Rightarrow> conn multiset" where
  "queued s = (\<Sum>h \<in># mset (handles s). mset (h_queue h))"

definition in_flight :: "acc \<Rightarrow> conn multiset" where
  "in_flight s = queued s + (\<Sum>k \<leftarrow> socks s. waiting k)"

text \<open>The queue of a dead worker is dropped with its receiver.  \<open>all_conns\<close> adds the connections that the
  thread dropped, having no worker left.\<close>

definition dead_empty :: "acc \<Rightarrow> bool" where
  "dead_empty s \<longleftrightarrow> (\<forall>h \<in> set (handles s). \<not> h_open h \<longrightarrow> h_queue h = [])"

definition all_conns :: "acc \<Rightarrow> conn multiset" where
  "all_conns s = in_flight s + mset (dropped s)"

text \<open>How two states of the thread are related when only connections were accepted in between.\<close>

definition acc_rel :: "acc \<Rightarrow> acc \<Rightarrow> bool" where
  "acc_rel s s' \<longleftrightarrow> length (socks s') = length (socks s) \<and> paused s' = paused s
     \<and> (\<forall>j. avail_bit (avail s') j \<longrightarrow> avail_bit (avail s) j)
     \<and> (all_open s \<longrightarrow> all_open s' \<and> idxs (handles s') = idxs (handles s) \<and> in_flight s' = in_flight s)
     \<and> (dead_empty s \<longrightarrow> dead_empty s' \<and> idxs (handles s') \<subseteq> idxs (handles s) \<and> all_conns s' = all_conns s
          \<and> (dropped s' = dropped s \<or> handles s' = []))"

lemma acc_rel_refl: "acc_rel s s"
  by (simp add: acc_rel_def)

lemma acc_rel_trans: "acc_rel s t \<Longrightarrow> acc_rel t u \<Longrightarrow> acc_rel s u"
  unfolding acc_rel_def by (intro conjI impI) (force+)

lemma sum_list_upd:
  fixes f :: "'a \<Rightarrow> 'b multiset"
  shows "i < length xs \<Longrightarrow> (\<Sum>x \<leftarrow> xs[i := y]. f x) + f (xs ! i) = (\<Sum>x \<leftarrow> xs. f x) + f y"
proof (induction xs arbitrary: i)
  case (Cons x xs)
  then show ?case by (cases i) (auto simp: ac_simps)
qed simp

section \<open>What a dispatch does to the thread\<close>

lemma all_open_no_dead:
  assumes "all_open s" "mset (handles s) = R + M" "\<forall>r \<in># R. \<not> h_open r"
  shows "R = {#}"
proof (rule ccontr)
  assume "R \<noteq> {#}"
  then obtain r where r: "r \<in># R" by blast
  then have "r \<in># mset (handles s)" using assms(2) by simp
  with assms(1,3) r show False unfolding all_open_def by (metis set_mset_mset)
qed

lemma dispatched_open:
  assumes d: "dispatched c s s'" and op: "all_open s" and ne: "handles s \<noteq> []"
  shows "all_open s' \<and> idxs (handles s') = idxs (handles s) \<and> queued s' = add_mset c (queued s)"
proof -
  have "\<not> no_worker_left c s s'"
    using op ne by (cases "handles s") (auto simp: no_worker_left_def all_open_def)
  then obtain R K h where m: "mset (handles s) = R + add_mset h K"
    "mset (handles s') = add_mset (snd (handle_send c h)) K" "h_open h" "\<forall>r \<in># R. \<not> h_open r"
    using d by (auto simp: dispatched_def delivered_def)
  from all_open_no_dead [OF op m(1,4)] m(1) have mh: "mset (handles s) = add_mset h K" by simp
  have st: "set (handles s) = insert h (set_mset K)"
    "set (handles s') = insert (snd (handle_send c h)) (set_mset K)"
    using mh m(2) by (metis set_mset_add_mset_insert set_mset_mset)+
  have "queued s' = add_mset c (queued s)"
    unfolding queued_def mh m(2) by (simp add: handle_send_open [OF m(3)])
  with st op show ?thesis
    by (auto simp: all_open_def handle_send_idx)
qed

lemma dispatched_dead:
  assumes d: "dispatched c s s'" and e: "dead_empty s"
  shows "dead_empty s' \<and> idxs (handles s') \<subseteq> idxs (handles s)
    \<and> queued s' + mset (dropped s') = add_mset c (queued s + mset (dropped s)) \<and> (dropped s' = dropped s \<or> handles s' = [])"
proof (cases "no_worker_left c s s'")
  case True
  then have "\<forall>h \<in> set (handles s). h_queue h = []" using e by (auto simp: no_worker_left_def dead_empty_def)
  then have "queued s = {#}" by (simp add: queued_def)
  with True show ?thesis by (simp add: no_worker_left_def dead_empty_def queued_def)
next
  case False
  then obtain R K h where m: "mset (handles s) = R + add_mset h K"
    "mset (handles s') = add_mset (snd (handle_send c h)) K" "h_open h" "\<forall>r \<in># R. \<not> h_open r" "dropped s' = dropped s"
    using d by (auto simp: dispatched_def delivered_def)
  have st: "set (handles s) = set_mset R \<union> insert h (set_mset K)"
    "set (handles s') = insert (snd (handle_send c h)) (set_mset K)"
    using m(1,2) by (metis set_mset_add_mset_insert set_mset_mset set_mset_union)+
  have "\<forall>r \<in># R. mset (h_queue r) = {#}" using e m(4) st(1) by (simp add: dead_empty_def)
  then have "(\<Sum>r \<in># R. mset (h_queue r)) = {#}" by simp
  then have "queued s' = add_mset c (queued s)"
    unfolding queued_def m(1,2) by (simp add: handle_send_open [OF m(3)])
  with st e m(5) show ?thesis by (auto simp: dead_empty_def handle_send_idx handle_send_open [OF m(3)] m(3))
qed

lemma dispatched_inv: "dispatched c s s' \<Longrightarrow> lst_ok s \<Longrightarrow> accept_inv s'"
  by (simp add: dispatched_def accept_inv_def same_frame_def lst_ok_def)

lemma upd_sock_wf [simp]: "acc_wf (upd_sock i f s) = acc_wf s"
  by (simp add: upd_sock_def acc_wf_def)

lemma upd_sock_simps [frame_simps]:
  "handles (upd_sock i f s) = handles s" "avail (upd_sock i f s) = avail s"
  "paused (upd_sock i f s) = paused s" "length (socks (upd_sock i f s)) = length (socks s)"
  "atimeout (upd_sock i f s) = atimeout s" "next_listener (upd_sock i f s) = next_listener s"
  "dropped (upd_sock i f s) = dropped s"
  by (simp_all add: upd_sock_def)

lemma set_timeout_simps [frame_simps]:
  "handles (set_timeout d s) = handles s" "avail (set_timeout d s) = avail s"
  "paused (set_timeout d s) = paused s" "socks (set_timeout d s) = socks s"
  "next_listener (set_timeout d s) = next_listener s" "next_worker (set_timeout d s) = next_worker s"
  "dropped (set_timeout d s) = dropped s"
  "atimeout (set_timeout d s) = Some (case atimeout s of None \<Rightarrow> d | Some t \<Rightarrow> min t d)"
  by (auto simp: set_timeout_def split: option.splits)

lemma set_timeout_wf [simp]: "acc_wf (set_timeout d s) = acc_wf s"
  by (simp add: acc_wf_def frame_simps)

lemma lst_ok_nth_token: "lst_ok s \<Longrightarrow> i < length (socks s) \<Longrightarrow> token (socks s ! i) = i"
  unfolding lst_ok_def by (metis add.left_neutral nth_map nth_upt)

text \<open>Consuming one answer of a listener.\<close>

lemma lst_ok_backlog:
  assumes "lst_ok s" "tok < length (socks s)"
  shows "lst_ok (upd_sock tok (\<lambda>k. k\<lparr>backlog := rs\<rparr>) s)"
proof -
  let ?k = "(socks s ! tok)\<lparr>backlog := rs\<rparr>"
  have "set ((socks s)[tok := ?k]) \<subseteq> insert ?k (set (socks s))" by (rule set_update_subset_insert)
  moreover have "socks s ! tok \<in> set (socks s)" using assms(2) by simp
  ultimately have p: "(\<forall>k \<in> set (socks s). P (interest k) (deadline k)) \<Longrightarrow>
      (\<forall>k \<in> set ((socks s)[tok := ?k]). P (interest k) (deadline k))" for P
    by fastforce
  have "map token ((socks s)[tok := ?k]) = map token (socks s)"
    by (simp add: map_update list_update_same_conv assms(2))
  with assms(1) p [of "\<lambda>i d. i \<or> d \<noteq> None"] p [of "\<lambda>i d. d = None"] show ?thesis
    unfolding lst_ok_def upd_sock_def by auto
qed

lemma waiting_upd:
  assumes "tok < length (socks s)" "token (socks s ! tok) = tok" "backlog (socks s ! tok) = r # rs"
  shows "in_flight s = in_flight (upd_sock tok (\<lambda>k. k\<lparr>backlog := rs\<rparr>) s)
    + (case r of Ok io \<Rightarrow> {#\<lparr>c_io = io, c_token = tok\<rparr>#} | Err e \<Rightarrow> {#})"
proof -
  let ?k = "(socks s ! tok)\<lparr>backlog := rs\<rparr>"
  have "waiting (socks s ! tok) = waiting ?k
      + (case r of Ok io \<Rightarrow> {#\<lparr>c_io = io, c_token = tok\<rparr>#} | Err e \<Rightarrow> {#})"
    using assms(2,3) by (cases r) (simp_all add: waiting_def)
  with sum_list_upd [OF assms(1), of waiting ?k] show ?thesis
    by (simp add: in_flight_def upd_sock_def queued_def)
qed

section \<open>accept\<close>

text \<open>A listener was drained up to an error that ends the call.\<close>

definition settled :: "(nat, io_error) result list \<Rightarrow> (nat, io_error) result list \<Rightarrow> bool" where
  "settled before after \<longleftrightarrow> (\<exists>pre. before = pre @ after
     \<and> (after = [] \<or> (\<exists>e. pre \<noteq> [] \<and> last pre = Err e \<and> \<not> connection_error e)))"

lemma settled_Cons: "settled b a \<Longrightarrow> settled (x # b) a"
  unfolding settled_def by (metis append_Cons last_ConsR list.distinct(1))

lemma settled_stop: "\<not> connection_error e \<Longrightarrow> settled (Err e # b) b"
  unfolding settled_def by (intro exI [of _ "[Err e]"]) auto

lemma settled_Nil: "settled b []"
  unfolding settled_def by (intro exI [of _ b]) auto

text \<open>What a call of \<open>accept\<close> on listener \<open>tok\<close> achieves.\<close>

definition accepted :: "nat \<Rightarrow> acc \<Rightarrow> acc \<Rightarrow> bool" where
  "accepted tok s s' \<longleftrightarrow> accept_inv s' \<and> acc_rel s s' \<and> next_listener s' = next_listener s
     \<and> (available (avail s') \<longrightarrow> settled (backlog (socks s ! tok)) (backlog (socks s' ! tok)))
     \<and> (\<forall>i < length (socks s). i \<noteq> tok \<longrightarrow> backlog (socks s' ! i) = backlog (socks s ! i))"

text \<open>One consumed answer that leaves the dispatch state alone.\<close>

lemma accepted_skip:
  assumes "accept_inv s" "tok < length (socks s)" "backlog (socks s ! tok) = Err e # rs"
  shows "accept_inv (upd_sock tok (\<lambda>k. k\<lparr>backlog := rs\<rparr>) s)
    \<and> acc_rel s (upd_sock tok (\<lambda>k. k\<lparr>backlog := rs\<rparr>) s)"
  using assms lst_ok_backlog [of s tok rs] waiting_upd [OF assms(2) _ assms(3)]
    lst_ok_nth_token [of s tok]
  by (simp add: accept_inv_def acc_rel_def frame_simps all_open_def dead_empty_def all_conns_def)

lemma accepted_dispatch:
  assumes inv: "accept_inv s" and tok: "tok < length (socks s)"
    and bl: "backlog (socks s ! tok) = Ok io # rs" and ne: "handles s \<noteq> []"
  obtains s1 where
    "accept_one \<lparr>c_io = io, c_token = tok\<rparr> (upd_sock tok (\<lambda>k. k\<lparr>backlog := rs\<rparr>) s) = Some (Ok s1)"
    "accept_inv s1" "acc_rel s s1" "socks s1 = socks (upd_sock tok (\<lambda>k. k\<lparr>backlog := rs\<rparr>) s)"
    "next_listener s1 = next_listener s"
proof -
  let ?c = "\<lparr>c_io = io, c_token = tok\<rparr>" and ?s0 = "upd_sock tok (\<lambda>k. k\<lparr>backlog := rs\<rparr>) s"
  have wf0: "acc_wf ?s0" "handles ?s0 \<noteq> []" using inv ne by (simp_all add: accept_inv_def frame_simps)
  have lst: "lst_ok ?s0" using lst_ok_backlog tok inv by (simp add: accept_inv_def)
  from accept_one_ok [OF wf0] obtain s1 where s1: "accept_one ?c ?s0 = Some (Ok s1)" "dispatched ?c ?s0 s1"
    by blast
  have fr: "same_frame ?s0 s1" "\<forall>j. avail_bit (avail s1) j \<longrightarrow> avail_bit (avail ?s0) j"
    using s1(2) by (simp_all add: dispatched_def)
  have "all_open s1 \<and> idxs (handles s1) = idxs (handles s) \<and> in_flight s1 = in_flight s" if op: "all_open s"
  proof -
    have op0: "all_open ?s0" using op by (simp add: all_open_def frame_simps)
    from dispatched_open [OF s1(2) op0 wf0(2)] fr(1)
      waiting_upd [OF tok lst_ok_nth_token [OF _ tok] bl] inv
    show ?thesis by (simp add: in_flight_def same_frame_def accept_inv_def frame_simps queued_def)
  qed
  moreover have "dead_empty s1 \<and> idxs (handles s1) \<subseteq> idxs (handles s) \<and> all_conns s1 = all_conns s
      \<and> (dropped s1 = dropped s \<or> handles s1 = [])" if op: "dead_empty s"
  proof -
    have op0: "dead_empty ?s0" using op by (simp add: dead_empty_def frame_simps)
    from dispatched_dead [OF s1(2) op0] fr(1)
      waiting_upd [OF tok lst_ok_nth_token [OF _ tok] bl] inv
    show ?thesis by (simp add: all_conns_def in_flight_def same_frame_def accept_inv_def frame_simps queued_def ac_simps)
  qed
  ultimately have "acc_rel s s1" using fr by (simp add: acc_rel_def same_frame_def frame_simps)
  with that s1(1) dispatched_inv [OF s1(2) lst] fr show thesis
    by (simp add: same_frame_def frame_simps)
qed

text \<open>A listener error: deregister, set the retry deadline and the poll timeout.\<close>

definition back_off :: "nat \<Rightarrow> nat \<Rightarrow> acc \<Rightarrow> acc" where
  "back_off now tok s = set_timeout ACCEPT_ERROR_POLL_TIMEOUT
     (upd_sock tok (\<lambda>k. k\<lparr>deadline := Some (now + ACCEPT_ERROR_BACKOFF)\<rparr>) (deregister_logged tok s))"

lemma back_off_inv:
  assumes "accept_inv s" "tok < length (socks s)"
  shows "accept_inv (back_off now tok s) \<and> acc_rel s (back_off now tok s)
    \<and> map backlog (socks (back_off now tok s)) = map backlog (socks s)
    \<and> next_listener (back_off now tok s) = next_listener s"
proof -
  let ?k = "(socks s ! tok)\<lparr>interest := False, deadline := Some (now + ACCEPT_ERROR_BACKOFF)\<rparr>"
  let ?b = "back_off now tok s"
  have so: "socks ?b = (socks s)[tok := ?k]"
    using assms(2) by (simp add: back_off_def deregister_logged_def frame_simps upd_sock_def)
  have sub: "set ((socks s)[tok := ?k]) \<subseteq> insert ?k (set (socks s))" by (rule set_update_subset_insert)
  have m: "map token ((socks s)[tok := ?k]) = map token (socks s)"
    "map backlog ((socks s)[tok := ?k]) = map backlog (socks s)"
    "map waiting ((socks s)[tok := ?k]) = map waiting (socks s)"
    by (simp_all add: map_update list_update_same_conv assms(2) waiting_def)
  have fr: "handles ?b = handles s" "avail ?b = avail s" "paused ?b = paused s"
    "next_listener ?b = next_listener s" "atimeout ?b \<noteq> None" "acc_wf ?b = acc_wf s"
    "dropped ?b = dropped s"
    by (simp_all add: back_off_def deregister_logged_def frame_simps)
  have "lst_ok ?b" using assms(1) sub m(1) fr so by (auto simp: accept_inv_def lst_ok_def)
  moreover have "acc_rel s ?b"
    using fr so m(3) by (simp add: acc_rel_def all_open_def in_flight_def queued_def dead_empty_def all_conns_def)
  ultimately show ?thesis using assms(1) fr so m(2) by (simp add: accept_inv_def)
qed

lemma accept_loop_back_off:
  assumes "accept_inv s" "tok < length (socks s)" "backlog (socks s ! tok) = Err e # rs"
    and "e \<noteq> WouldBlock" "\<not> connection_error e"
  shows "accepted tok s (back_off now tok (upd_sock tok (\<lambda>k. k\<lparr>backlog := rs\<rparr>) s))"
proof -
  let ?s0 = "upd_sock tok (\<lambda>k. k\<lparr>backlog := rs\<rparr>) s"
  let ?b = "back_off now tok ?s0"
  note sk = accepted_skip [OF assms(1-3)]
  have b0: "backlog (socks ?s0 ! tok) = rs" "\<And>i. i < length (socks s) \<Longrightarrow> i \<noteq> tok \<Longrightarrow>
      backlog (socks ?s0 ! i) = backlog (socks s ! i)"
    using assms(2) by (simp_all add: upd_sock_def)
  have tok0: "tok < length (socks ?s0)" using assms(2) by (simp add: frame_simps)
  note bo = back_off_inv [OF conjunct1 [OF sk] tok0, of now]
  have len: "length (socks ?b) = length (socks s)" using bo by (simp add: acc_rel_def frame_simps)
  have "backlog (socks ?b ! i) = backlog (socks ?s0 ! i)" if "i < length (socks s)" for i
    using bo len that by (metis length_map nth_map)
  with sk bo b0 assms show ?thesis
    by (auto simp: accepted_def frame_simps intro!: settled_stop intro: acc_rel_trans)
qed

lemma accept_loop_ok:
  assumes "accept_inv s" "tok < length (socks s)" "backlog (socks s ! tok) = rs"
  shows "\<exists>s'. accept_loop now tok rs s = Some (Ok s') \<and> accepted tok s s'"
  using assms
proof (induction rs arbitrary: s)
  case Nil
  then show ?case by (auto simp: accepted_def acc_rel_refl settled_Nil)
next
  case (Cons r rs)
  let ?s0 = "upd_sock tok (\<lambda>k. k\<lparr>backlog := rs\<rparr>) s"
  have b0: "backlog (socks ?s0 ! tok) = rs" "\<And>i. i < length (socks s) \<Longrightarrow> i \<noteq> tok \<Longrightarrow>
      backlog (socks ?s0 ! i) = backlog (socks s ! i)"
    using Cons.prems(2) by (simp_all add: upd_sock_def)
  have go: "accepted tok s s'" if "accept_inv t" "acc_rel s t" "socks t = socks ?s0"
    "next_listener t = next_listener s" "accepted tok t s'" for t s'
    using that b0 settled_Cons [of rs] Cons.prems(3)
    by (auto simp: accepted_def upd_sock_def intro: acc_rel_trans)
  consider "\<not> available (avail s)" | io where "available (avail s)" "r = Ok io"
    | e where "available (avail s)" "r = Err e" by (cases r) auto
  then show ?case
  proof cases
    case 1
    with Cons.prems(1) show ?thesis by (auto simp: accepted_def acc_rel_refl)
  next
    case (2 io)
    with Cons.prems(3) have bl: "backlog (socks s ! tok) = Ok io # rs" by simp
    have "handles s \<noteq> []" using available_has_handle 2(1) Cons.prems(1) by (auto simp: accept_inv_def)
    then obtain s1 where s1: "accept_one \<lparr>c_io = io, c_token = tok\<rparr> ?s0 = Some (Ok s1)"
      "accept_inv s1" "acc_rel s s1" "socks s1 = socks ?s0" "next_listener s1 = next_listener s"
      by (rule accepted_dispatch [OF Cons.prems(1,2) bl]) blast
    obtain s' where "accept_loop now tok rs s1 = Some (Ok s')" "accepted tok s1 s'"
      using Cons.IH [OF s1(2)] s1(4) b0 Cons.prems(2) by (auto simp: frame_simps)
    with go [OF s1(2-5)] s1(1) 2 Cons.prems(2) show ?thesis by (auto simp: seq_acc_def Let_def)
  next
    case (3 e)
    with Cons.prems(3) have bl: "backlog (socks s ! tok) = Err e # rs" by simp
    note sk = accepted_skip [OF Cons.prems(1,2) bl]
    consider "e = WouldBlock" | "e \<noteq> WouldBlock" "connection_error e"
      | "e \<noteq> WouldBlock" "\<not> connection_error e" by blast
    then show ?thesis
    proof cases
      case 1
      have "accepted tok s ?s0" using sk b0 bl 1
        by (auto simp: accepted_def frame_simps connection_error_def intro!: settled_stop)
      with 1 3 Cons.prems(2) show ?thesis by (simp add: Let_def)
    next
      case 2
      obtain s' where "accept_loop now tok rs ?s0 = Some (Ok s')" "accepted tok ?s0 s'"
        using Cons.IH [of ?s0] sk b0 Cons.prems(2) by (auto simp: frame_simps)
      with go [of ?s0] sk 2 3 Cons.prems(2) show ?thesis by (auto simp: Let_def frame_simps)
    next
      case bo: 3
      from accept_loop_back_off [OF Cons.prems(1,2) bl bo, of now] bo 3 Cons.prems(2) show ?thesis
        by (simp add: Let_def back_off_def)
    qed
  qed
qed

lemma accept_ok:
  "accept_inv s \<Longrightarrow> tok < length (socks s) \<Longrightarrow> \<exists>s'. accept now tok s = Some (Ok s') \<and> accepted tok s s'"
  by (simp add: accept_def accept_loop_ok)

lemma accepted_len: "accepted tok s s' \<Longrightarrow> length (socks s') = length (socks s)"
  by (simp add: accepted_def acc_rel_def)

section \<open>accept_all\<close>

lemma available_mono: "acc_rel s s' \<Longrightarrow> acc_wf s \<Longrightarrow> acc_wf s' \<Longrightarrow> available (avail s') \<Longrightarrow> available (avail s)"
  by (auto simp: acc_rel_def available_iff acc_wfD(1))

text \<open>A scan of the listeners \<open>I\<close>.\<close>

definition scan_done :: "nat set \<Rightarrow> acc \<Rightarrow> acc \<Rightarrow> bool" where
  "scan_done I s s' \<longleftrightarrow> accept_inv s' \<and> acc_rel s s'
     \<and> (\<forall>i < length (socks s). if i \<in> I
          then available (avail s') \<longrightarrow> settled (backlog (socks s ! i)) (backlog (socks s' ! i))
          else backlog (socks s' ! i) = backlog (socks s ! i))"

lemma scan_done_step:
  assumes a: "accepted t s s1" and b: "scan_done I s1 s2" and t: "t \<notin> I"
  shows "scan_done (insert t I) s s2"
proof -
  have r: "acc_rel s s2" using a b acc_rel_trans by (auto simp: accepted_def scan_done_def)
  have av: "available (avail s2) \<Longrightarrow> available (avail s1)"
    using a b available_mono [of s1 s2] by (simp add: accepted_def scan_done_def accept_inv_def)
  have "if i \<in> insert t I
      then available (avail s2) \<longrightarrow> settled (backlog (socks s ! i)) (backlog (socks s2 ! i))
      else backlog (socks s2 ! i) = backlog (socks s ! i)" if i: "i < length (socks s)" for i
  proof -
    have B: "if i \<in> I
      then available (avail s2) \<longrightarrow> settled (backlog (socks s1 ! i)) (backlog (socks s2 ! i))
      else backlog (socks s2 ! i) = backlog (socks s1 ! i)"
      using b i accepted_len [OF a] by (simp add: scan_done_def)
    show ?thesis
    proof (cases "i = t")
      case True
      with B t a av show ?thesis by (simp add: accepted_def)
    next
      case False
      then have "backlog (socks s1 ! i) = backlog (socks s ! i)" using a i by (simp add: accepted_def)
      with B False show ?thesis by (cases "i \<in> I") simp_all
    qed
  qed
  with r b show ?thesis unfolding scan_done_def by simp
qed

lemma accept_from_ok:
  assumes "accept_inv s" "inj_on (\<lambda>k. (start + k) mod length (socks s)) (set offs)" "distinct offs"
  shows "\<exists>s'. accept_from now start offs s = Some (Ok s') \<and> next_listener s' = next_listener s
    \<and> scan_done ((\<lambda>k. (start + k) mod length (socks s)) ` set offs) s s'"
  using assms
proof (induction offs arbitrary: s)
  case Nil
  then show ?case by (simp add: scan_done_def acc_rel_refl)
next
  case (Cons off offs)
  let ?f = "\<lambda>k. (start + k) mod length (socks s)"
  have i: "?f off < length (socks s)" using Cons.prems(1) by (simp add: accept_inv_def lst_ok_def)
  then have tk: "token (socks s ! ?f off) = ?f off"
    using lst_ok_nth_token Cons.prems(1) by (simp add: accept_inv_def)
  obtain s1 where s1: "accept now (?f off) s = Some (Ok s1)" "accepted (?f off) s s1"
    using accept_ok [OF Cons.prems(1) i] by blast
  have len: "length (socks s1) = length (socks s)" by (rule accepted_len [OF s1(2)])
  obtain s2 where s2: "accept_from now start offs s1 = Some (Ok s2)" "next_listener s2 = next_listener s1"
    "scan_done (?f ` set offs) s1 s2"
    using Cons.IH [of s1] s1(2) len Cons.prems(2,3) by (auto simp: accepted_def inj_on_insert)
  have "?f off \<notin> ?f ` set offs" using Cons.prems(2,3) by (auto simp: inj_on_def)
  from scan_done_step [OF s1(2) s2(3) this] show ?case
    using s1 s2 tk by (simp add: seq_acc_def Let_def accepted_def)
qed

lemma rotate_eq: "x \<le> y \<Longrightarrow> y < n \<Longrightarrow> (start + x) mod n = (start + y) mod (n :: nat) \<Longrightarrow> x = y"
  using mod_eq_dvd_iff_nat [of "start + x" "start + y" n] nat_dvd_not_less [of "y - x" n]
  by fastforce

lemma inj_rotate: "inj_on (\<lambda>k. (start + k) mod n) (set [0..<n :: nat])"
proof (rule inj_onI)
  fix x y assume "x \<in> set [0..<n]" "y \<in> set [0..<n]" "(start + x) mod n = (start + y) mod n"
  then show "x = y"
    using rotate_eq [of x y n start] rotate_eq [of y x n start] by (cases "x \<le> y") auto
qed

lemma image_rotate:
  assumes "0 < n" shows "(\<lambda>k. (start + k) mod n) ` set [0..<n :: nat] = {..<n}"
proof (rule card_subset_eq)
  show "(\<lambda>k. (start + k) mod n) ` set [0..<n] \<subseteq> {..<n}" using assms by auto
  show "card ((\<lambda>k. (start + k) mod n) ` set [0..<n]) = card {..<n}"
    using card_image [OF inj_rotate [of start n]] by simp
qed simp

lemma next_listener_upd:
  "accept_inv (s\<lparr>next_listener := x\<rparr>) = accept_inv s"
  "scan_done I t (s\<lparr>next_listener := x\<rparr>) = scan_done I t s"
  by (simp_all add: accept_inv_def acc_wf_def lst_ok_def scan_done_def acc_rel_def all_open_def
      in_flight_def queued_def dead_empty_def all_conns_def)

lemma accept_all_ok:
  assumes "accept_inv s"
  shows "\<exists>s'. accept_all now s = Some (Ok s') \<and> scan_done {..<length (socks s)} s s'
    \<and> next_listener s' = (if length (socks s) = 1 then next_listener s
                          else (next_listener s + 1) mod length (socks s))"
proof (cases "length (socks s) = 1")
  case True
  then have "token (socks s ! 0) = 0" using assms lst_ok_nth_token [of s 0] by (simp add: accept_inv_def)
  with True accept_ok [OF assms, of 0 now] show ?thesis
    by (auto simp: accept_all_def scan_done_def accepted_def)
next
  case False
  let ?n = "length (socks s)"
  have n: "0 < ?n" using assms by (simp add: accept_inv_def lst_ok_def)
  obtain s1 where s1: "accept_from now (next_listener s) [0..<?n] s = Some (Ok s1)"
    "next_listener s1 = next_listener s" "scan_done {..<?n} s s1"
    using accept_from_ok [OF assms inj_rotate distinct_upt] image_rotate [OF n] by metis
  have "length (socks s1) = ?n" using s1(3) by (simp add: scan_done_def acc_rel_def)
  moreover from this n have "socks s1 \<noteq> []" by auto
  ultimately show ?thesis using s1 False
    by (simp add: accept_all_def Let_def seq_acc_def next_listener_upd)
qed

section \<open>Retry deadlines\<close>

text \<open>What \<open>process_timeout\<close> does to one listener.\<close>

definition retry :: "nat \<Rightarrow> bool \<Rightarrow> socket_info \<Rightarrow> socket_info" where
  "retry now p k =
     (case deadline k of
        None \<Rightarrow> k
      | Some inst \<Rightarrow>
          (if now < inst then k
           else if p then k\<lparr>deadline := None\<rparr> else k\<lparr>deadline := None, interest := True\<rparr>))"

lemma process_one_frame:
  "handles (process_one now i s) = handles s" "avail (process_one now i s) = avail s"
  "next_worker (process_one now i s) = next_worker s" "paused (process_one now i s) = paused s"
  "next_listener (process_one now i s) = next_listener s" "dropped (process_one now i s) = dropped s"
  "length (socks (process_one now i s)) = length (socks s)"
  by (auto simp: process_one_def Let_def set_timeout_simps upd_sock_def register_logged_def split: option.splits)

lemma process_one_nth:
  "j < length (socks s) \<Longrightarrow>
     socks (process_one now i s) ! j = (if j = i then retry now (paused s) (socks s ! j) else socks s ! j)"
  by (auto simp: process_one_def retry_def Let_def set_timeout_simps upd_sock_def register_logged_def
      split: option.splits)

lemma process_one_timeout:
  "atimeout (process_one now i s) =
     (case deadline (socks s ! i) of
        None \<Rightarrow> atimeout s
      | Some inst \<Rightarrow>
          (if now < inst then Some (case atimeout s of None \<Rightarrow> inst - now | Some t \<Rightarrow> min t (inst - now))
           else atimeout s))"
  by (auto simp: process_one_def Let_def set_timeout_simps upd_sock_def register_logged_def
      split: option.splits)

lemma process_socks_frame:
  "handles (process_socks now is s) = handles s \<and> avail (process_socks now is s) = avail s
   \<and> next_worker (process_socks now is s) = next_worker s \<and> paused (process_socks now is s) = paused s
   \<and> next_listener (process_socks now is s) = next_listener s \<and> dropped (process_socks now is s) = dropped s
   \<and> length (socks (process_socks now is s)) = length (socks s)"
  by (induction "is" arbitrary: s) (simp_all add: process_one_frame)

lemma process_socks_nth:
  "distinct is \<Longrightarrow> j < length (socks s) \<Longrightarrow>
     socks (process_socks now is s) ! j
       = (if j \<in> set is then retry now (paused s) (socks s ! j) else socks s ! j)"
  by (induction "is" arbitrary: s) (auto simp: process_one_frame process_one_nth)

lemma process_socks_timeout_le:
  "atimeout s = Some t \<Longrightarrow> \<exists>t' \<le> t. atimeout (process_socks now is s) = Some t'"
proof (induction "is" arbitrary: s t)
  case (Cons i ks)
  have "\<exists>t1 \<le> t. atimeout (process_one now i s) = Some t1"
    using Cons.prems by (auto simp: process_one_timeout split: option.splits)
  with Cons.IH [of "process_one now i s"] show ?case by (auto intro: order_trans)
qed simp

lemma process_socks_timeout_upper:
  "distinct is \<Longrightarrow> i < length (socks s) \<Longrightarrow> i \<in> set is \<Longrightarrow> deadline (socks s ! i) = Some inst \<Longrightarrow>
     now < inst \<Longrightarrow> \<exists>t \<le> inst - now. atimeout (process_socks now is s) = Some t"
proof (induction "is" arbitrary: s)
  case (Cons k ks)
  show ?case
  proof (cases "k = i")
    case True
    have "\<exists>t \<le> inst - now. atimeout (process_one now k s) = Some t"
      using Cons.prems True by (auto simp: process_one_timeout split: option.splits)
    then obtain t where "t \<le> inst - now" "atimeout (process_one now k s) = Some t" by blast
    with process_socks_timeout_le [of "process_one now k s" t now ks] show ?thesis
      by (auto intro: order_trans)
  next
    case False
    then show ?thesis
      using Cons.IH [of "process_one now k s"] Cons.prems by (auto simp: process_one_frame process_one_nth)
  qed
qed simp

lemma process_socks_timeout_lower:
  "distinct is \<Longrightarrow> \<forall>i \<in> set is. i < length (socks s) \<Longrightarrow> atimeout (process_socks now is s) = Some t \<Longrightarrow>
     atimeout s = Some t \<or> (\<exists>i \<in> set is. \<exists>inst. deadline (socks s ! i) = Some inst \<and> now < inst \<and> t = inst - now)"
proof (induction "is" arbitrary: s)
  case (Cons k ks)
  have "\<forall>i \<in> set ks. socks (process_one now k s) ! i = socks s ! i"
    using Cons.prems(1,2) by (auto simp: process_one_nth)
  then have "atimeout (process_one now k s) = Some t
      \<or> (\<exists>i \<in> set ks. \<exists>inst. deadline (socks s ! i) = Some inst \<and> now < inst \<and> t = inst - now)"
    using Cons.IH [of "process_one now k s"] Cons.prems by (auto simp: process_one_frame)
  then show ?case
    by (auto simp: process_one_timeout min_def split: option.splits if_splits)
qed simp

lemma retry_simps:
  "token (retry now p k) = token k" "backlog (retry now p k) = backlog k" "waiting (retry now p k) = waiting k"
  "deadline (retry now p k) = Some inst \<longleftrightarrow> deadline k = Some inst \<and> now < inst"
  by (auto simp: retry_def waiting_def split: option.splits)

lemma process_timeout_socks:
  assumes "lst_ok s"
  shows "socks (process_timeout now s) = map (retry now (paused s)) (socks s)"
proof (cases "atimeout s")
  case None
  then have "\<forall>k \<in> set (socks s). deadline k = None" using assms by (auto simp: lst_ok_def)
  then have "map (retry now (paused s)) (socks s) = map id (socks s)" by (intro map_cong) (auto simp: retry_def)
  with None show ?thesis by (simp add: process_timeout_def)
next
  case (Some t)
  then show ?thesis
    by (auto simp: process_timeout_def process_socks_frame process_socks_nth intro!: nth_equalityI)
qed

lemma process_timeout_frame:
  "handles (process_timeout now s) = handles s" "avail (process_timeout now s) = avail s"
  "next_worker (process_timeout now s) = next_worker s" "paused (process_timeout now s) = paused s"
  "next_listener (process_timeout now s) = next_listener s" "dropped (process_timeout now s) = dropped s"
  by (auto simp: process_timeout_def process_socks_frame split: option.splits)

lemma process_timeout_le:
  assumes "lst_ok s" "k \<in> set (socks (process_timeout now s))" "deadline k = Some inst"
  shows "now < inst \<and> (\<exists>t \<le> inst - now. atimeout (process_timeout now s) = Some t)"
proof -
  from assms(2) obtain i where i: "i < length (socks s)" "k = retry now (paused s) (socks s ! i)"
    by (auto simp: process_timeout_socks [OF assms(1)] in_set_conv_nth)
  then have d: "deadline (socks s ! i) = Some inst" "now < inst" using assms(3) by (simp_all add: retry_simps)
  then have "atimeout s \<noteq> None" using assms(1) i(1) unfolding lst_ok_def by (metis nth_mem option.distinct(1))
  then show ?thesis
    using process_socks_timeout_upper [of "[0..<length (socks s)]" i "s\<lparr>atimeout := None\<rparr>"] d i(1)
    by (auto simp: process_timeout_def)
qed

lemma process_timeout_inv:
  assumes "accept_inv s"
  shows "accept_inv (process_timeout now s) \<and> acc_rel s (process_timeout now s)"
proof -
  have lst: "lst_ok s" and wf: "acc_wf s" using assms by (simp_all add: accept_inv_def)
  note so = process_timeout_socks [OF lst]
  let ?p = "process_timeout now s"
  have "\<forall>k \<in> set (socks ?p). deadline k \<noteq> None \<longrightarrow> atimeout ?p \<noteq> None"
    using process_timeout_le [OF lst] by fastforce
  moreover have "\<not> paused s \<longrightarrow> (\<forall>k \<in> set (socks ?p). interest k \<or> deadline k \<noteq> None)"
    using lst by (auto simp: so lst_ok_def retry_def split: option.splits)
  moreover have "map token (socks ?p) = map token (socks s)" "length (socks ?p) = length (socks s)"
    by (simp_all add: so retry_simps)
  ultimately have "lst_ok ?p" using lst unfolding lst_ok_def process_timeout_frame
    by (metis length_0_conv)
  moreover have "acc_wf ?p" using wf by (simp add: acc_wf_def process_timeout_frame)
  moreover have "acc_rel s ?p"
    by (simp add: acc_rel_def all_open_def process_timeout_frame so in_flight_def queued_def o_def retry_simps
        dead_empty_def all_conns_def)
  ultimately show ?thesis by (simp add: accept_inv_def)
qed

section \<open>The waker queue\<close>

text \<open>A queue whose notifications come from known workers and whose new workers are alive, empty and
  have a free index.\<close>

fun queue_ok :: "nat set \<Rightarrow> waker_interest list \<Rightarrow> bool" where
  "queue_ok I [] \<longleftrightarrow> True"
| "queue_ok I (WorkerAvailable i # q) \<longleftrightarrow> i \<in> I \<and> queue_ok I q"
| "queue_ok I (NewWorker h # q) \<longleftrightarrow>
     h_open h \<and> h_idx h < MAX_WORKERS \<and> h_idx h \<notin> I \<and> h_queue h = [] \<and> queue_ok (insert (h_idx h) I) q"
| "queue_ok I (Pause # q) \<longleftrightarrow> queue_ok I q"
| "queue_ok I (Resume # q) \<longleftrightarrow> queue_ok I q"
| "queue_ok I (Stop # q) \<longleftrightarrow> True"

text \<open>The indices of the workers after the queue.\<close>

fun idxs_after :: "nat set \<Rightarrow> waker_interest list \<Rightarrow> nat set" where
  "idxs_after I [] = I"
| "idxs_after I (NewWorker h # q) = idxs_after (insert (h_idx h) I) q"
| "idxs_after I (WorkerAvailable i # q) = idxs_after I q"
| "idxs_after I (Pause # q) = idxs_after I q"
| "idxs_after I (Resume # q) = idxs_after I q"
| "idxs_after I (Stop # q) = I"

text \<open>The thread with all its workers alive, and what a handler does to it.\<close>

definition thread_ok :: "acc \<Rightarrow> bool" where
  "thread_ok s \<longleftrightarrow> accept_inv s \<and> all_open s"

definition handled :: "nat set \<Rightarrow> acc \<Rightarrow> bool \<times> acc \<Rightarrow> bool" where
  "handled I s r \<longleftrightarrow> (case r of (stop, s') \<Rightarrow>
     in_flight s' = in_flight s \<and> length (socks s') = length (socks s) \<and> acc_wf s' \<and> all_open s'
     \<and> (\<not> stop \<longrightarrow> lst_ok s' \<and> idxs (handles s') = I))"

lemma handled_trans:
  "in_flight t = in_flight s \<Longrightarrow> length (socks t) = length (socks s) \<Longrightarrow> handled I t r \<Longrightarrow> handled I s r"
  by (auto simp: handled_def split: prod.splits)

lemma thread_scan:
  assumes "thread_ok s"
  obtains s' where "accept_all now s = Some (Ok s')" "thread_ok s'" "in_flight s' = in_flight s"
    "length (socks s') = length (socks s)" "idxs (handles s') = idxs (handles s)"
  using accept_all_ok [of s now] assms by (auto simp: thread_ok_def scan_done_def acc_rel_def)

lemma thread_available:
  assumes ok: "thread_ok s" and i: "i \<in> idxs (handles s)"
  obtains a where "set_available (avail s) i True = Ok a" "thread_ok (s\<lparr>avail := a\<rparr>)"
    "in_flight (s\<lparr>avail := a\<rparr>) = in_flight s"
proof -
  have wf: "acc_wf s" using ok by (simp add: thread_ok_def accept_inv_def)
  then have "i < MAX_WORKERS" using i acc_wfD(2) by auto
  then obtain a where a: "set_available (avail s) i True = Ok a" using set_available_ok by blast
  have "acc_wf (s\<lparr>avail := a\<rparr>)"
    using wf i avail_bit_set [OF acc_wfD(1) [OF wf] a] set_available_wf [OF acc_wfD(1) [OF wf] a]
    by (auto simp: acc_wf_def)
  with ok have "thread_ok (s\<lparr>avail := a\<rparr>)"
    by (simp add: thread_ok_def accept_inv_def lst_ok_def all_open_def)
  with that a show thesis by (simp add: in_flight_def queued_def)
qed

lemma thread_new_worker:
  assumes ok: "thread_ok s" and h: "h_open h" "h_idx h < MAX_WORKERS" "h_idx h \<notin> idxs (handles s)" "h_queue h = []"
  obtains a where "set_available (avail s) (h_idx h) True = Ok a"
    "thread_ok (s\<lparr>avail := a, handles := handles s @ [h]\<rparr>)"
    "in_flight (s\<lparr>avail := a, handles := handles s @ [h]\<rparr>) = in_flight s"
proof -
  have wf: "acc_wf s" using ok by (simp add: thread_ok_def accept_inv_def)
  obtain a where a: "set_available (avail s) (h_idx h) True = Ok a" using set_available_ok h(2) by blast
  have "next_worker s < Suc (length (handles s))" using wf by (auto simp: acc_wf_def max_def split: if_splits)
  then have "acc_wf (s\<lparr>avail := a, handles := handles s @ [h]\<rparr>)"
    using wf h avail_bit_set [OF acc_wfD(1) [OF wf] a] set_available_wf [OF acc_wfD(1) [OF wf] a]
    by (auto simp: acc_wf_def)
  with ok h have "thread_ok (s\<lparr>avail := a, handles := handles s @ [h]\<rparr>)"
    by (simp add: thread_ok_def accept_inv_def lst_ok_def all_open_def)
  with that a h(4) show thesis by (simp add: in_flight_def queued_def)
qed

lemma deregister_all_frame:
  "handles (deregister_all s) = handles s" "avail (deregister_all s) = avail s"
  "paused (deregister_all s) = paused s" "length (socks (deregister_all s)) = length (socks s)"
  "acc_wf (deregister_all s) = acc_wf s" "all_open (deregister_all s) = all_open s"
  "in_flight (deregister_all s) = in_flight s" "map token (socks (deregister_all s)) = map token (socks s)"
  "\<forall>k \<in> set (socks (deregister_all s)). deadline k = None"
proof -
  let ?f = "\<lambda>k. if deadline k = None then k\<lparr>interest := False\<rparr> else k\<lparr>deadline := None\<rparr>"
  have "waiting (?f k) = waiting k" for k by (simp add: waiting_def)
  then have "map waiting (map ?f (socks s)) = map waiting (socks s)" by simp
  then have "(\<Sum>k \<leftarrow> map ?f (socks s). waiting k) = (\<Sum>k \<leftarrow> socks s. waiting k)" by metis
  then show "in_flight (deregister_all s) = in_flight s"
    by (simp add: deregister_all_def in_flight_def queued_def)
qed (auto simp: deregister_all_def acc_wf_def all_open_def)

text \<open>What \<open>Pause\<close> and \<open>Resume\<close> do when they take effect.\<close>

lemma thread_pause:
  assumes "thread_ok s"
  shows "thread_ok (deregister_all (s\<lparr>paused := True\<rparr>))
    \<and> in_flight (deregister_all (s\<lparr>paused := True\<rparr>)) = in_flight s"
proof -
  let ?t = "s\<lparr>paused := True\<rparr>"
  have "acc_wf ?t" "all_open ?t" "in_flight ?t = in_flight s" "lst_ok s"
    using assms by (simp_all add: thread_ok_def accept_inv_def acc_wf_def all_open_def in_flight_def queued_def)
  moreover from this have "lst_ok (deregister_all ?t)"
    using deregister_all_frame [of ?t] unfolding lst_ok_def
    by (metis acc.select_convs(6) acc.select_convs(7) acc.update_convs(6) acc.surjective length_0_conv)
  ultimately show ?thesis by (simp add: thread_ok_def accept_inv_def deregister_all_frame)
qed

lemma thread_resume:
  assumes "thread_ok s"
  shows "thread_ok (s\<lparr>paused := False, socks := map (\<lambda>k. k\<lparr>interest := True\<rparr>) (socks s)\<rparr>)
    \<and> in_flight (s\<lparr>paused := False, socks := map (\<lambda>k. k\<lparr>interest := True\<rparr>) (socks s)\<rparr>) = in_flight s"
  using assms
  by (simp add: thread_ok_def accept_inv_def acc_wf_def all_open_def lst_ok_def in_flight_def queued_def
      o_def waiting_def)

lemma handle_waker_ok:
  "thread_ok s \<Longrightarrow> queue_ok (idxs (handles s)) q \<Longrightarrow>
     \<exists>r. handle_waker now q s = Some (Ok r) \<and> handled (idxs_after (idxs (handles s)) q) s r
       \<and> fst r = (Stop \<in> set q)"
proof (induction q arbitrary: s)
  case Nil
  then show ?case by (auto simp: handled_def thread_ok_def accept_inv_def)
next
  case (Cons w q)
  show ?case
  proof (cases w)
    case (WorkerAvailable i)
    then have i: "i \<in> idxs (handles s)" and q: "queue_ok (idxs (handles s)) q" using Cons.prems(2) by simp_all
    obtain a where a: "set_available (avail s) i True = Ok a" "thread_ok (s\<lparr>avail := a\<rparr>)"
      "in_flight (s\<lparr>avail := a\<rparr>) = in_flight s" by (rule thread_available [OF Cons.prems(1) i])
    obtain s' where s': "accept_all now (s\<lparr>avail := a\<rparr>) = Some (Ok s')" "thread_ok s'"
      "in_flight s' = in_flight (s\<lparr>avail := a\<rparr>)" "length (socks s') = length (socks s)"
      "idxs (handles s') = idxs (handles s)"
      using thread_scan [OF a(2), of now] by auto
    from Cons.IH [of s'] Cons.IH [OF a(2)] s' q a handled_trans [of s' s] handled_trans [of "s\<lparr>avail := a\<rparr>" s]
    show ?thesis by (auto simp: WorkerAvailable Let_def)
  next
    case (NewWorker h)
    then have h: "h_open h" "h_idx h < MAX_WORKERS" "h_idx h \<notin> idxs (handles s)" "h_queue h = []"
      and q: "queue_ok (insert (h_idx h) (idxs (handles s))) q" using Cons.prems(2) by simp_all
    obtain a where a: "set_available (avail s) (h_idx h) True = Ok a"
      "thread_ok (s\<lparr>avail := a, handles := handles s @ [h]\<rparr>)"
      "in_flight (s\<lparr>avail := a, handles := handles s @ [h]\<rparr>) = in_flight s"
      by (rule thread_new_worker [OF Cons.prems(1) h])
    obtain s' where s': "accept_all now (s\<lparr>avail := a, handles := handles s @ [h]\<rparr>) = Some (Ok s')" "thread_ok s'"
      "in_flight s' = in_flight s" "length (socks s') = length (socks s)"
      "idxs (handles s') = insert (h_idx h) (idxs (handles s))"
      using thread_scan [OF a(2), of now] a(3) by auto
    from Cons.IH [of s'] Cons.IH [OF a(2)] s' q a handled_trans [of s' s]
      handled_trans [of "s\<lparr>avail := a, handles := handles s @ [h]\<rparr>" s]
    show ?thesis by (auto simp: NewWorker Let_def)
  next
    case Pause
    note t = thread_pause [OF Cons.prems(1)]
    have fr: "handles (deregister_all (s\<lparr>paused := True\<rparr>)) = handles s"
      "length (socks (deregister_all (s\<lparr>paused := True\<rparr>))) = length (socks s)"
      by (simp_all add: deregister_all_frame)
    show ?thesis using Cons.IH [of s] Cons.IH [OF conjunct1 [OF t]] Cons.prems t fr
      by (auto simp: Pause intro: handled_trans)
  next
    case Resume
    let ?t = "s\<lparr>paused := False, socks := map (\<lambda>k. k\<lparr>interest := True\<rparr>) (socks s)\<rparr>"
    note t = thread_resume [OF Cons.prems(1)]
    obtain s' where s': "accept_all now ?t = Some (Ok s')" "thread_ok s'" "in_flight s' = in_flight ?t"
      "length (socks s') = length (socks s)" "idxs (handles s') = idxs (handles s)"
      using thread_scan [OF conjunct1 [OF t], of now] by auto
    from Cons.IH [of s] Cons.IH [of s'] Cons.prems s' t show ?thesis
      by (auto simp: Resume Let_def intro: handled_trans)
  next
    case Stop
    with Cons.prems show ?thesis
      by (auto simp: handled_def thread_ok_def accept_inv_def deregister_all_frame)
  qed
qed

section \<open>The event loop\<close>

fun events_ok :: "nat \<Rightarrow> nat set \<Rightarrow> mio_event list \<Rightarrow> bool" where
  "events_ok n I [] \<longleftrightarrow> True"
| "events_ok n I (WakerEvent q # es) \<longleftrightarrow> queue_ok I q \<and> events_ok n (idxs_after I q) es"
| "events_ok n I (ListenerEvent tok # es) \<longleftrightarrow> tok < n \<and> events_ok n I es"

fun idxs_after_events :: "nat set \<Rightarrow> mio_event list \<Rightarrow> nat set" where
  "idxs_after_events I [] = I"
| "idxs_after_events I (WakerEvent q # es) = idxs_after_events (idxs_after I q) es"
| "idxs_after_events I (ListenerEvent tok # es) = idxs_after_events I es"

fun polls_ok :: "nat \<Rightarrow> nat set \<Rightarrow> (nat \<times> (mio_event list, io_error) result) list \<Rightarrow> bool" where
  "polls_ok n I [] \<longleftrightarrow> True"
| "polls_ok n I ((now, Ok es) # ps) \<longleftrightarrow> events_ok n I es \<and> polls_ok n (idxs_after_events I es) ps"
| "polls_ok n I ((now, Err e) # ps) \<longleftrightarrow> e = Interrupted \<and> polls_ok n I ps"

lemma handle_events_ok:
  "thread_ok s \<Longrightarrow> events_ok (length (socks s)) (idxs (handles s)) es \<Longrightarrow>
     \<exists>r. handle_events now es s = Some (Ok r) \<and> handled (idxs_after_events (idxs (handles s)) es) s r"
proof (induction es arbitrary: s)
  case Nil
  then show ?case by (auto simp: handled_def thread_ok_def accept_inv_def)
next
  case (Cons e es)
  show ?case
  proof (cases e)
    case (WakerEvent q)
    with Cons.prems handle_waker_ok [of s q now] obtain b s1 where w:
      "handle_waker now q s = Some (Ok (b, s1))" "handled (idxs_after (idxs (handles s)) q) s (b, s1)"
      by fastforce
    show ?thesis
    proof (cases b)
      case True
      with w show ?thesis by (auto simp: WakerEvent handled_def)
    next
      case False
      with w(2) have s1: "thread_ok s1" "idxs (handles s1) = idxs_after (idxs (handles s)) q"
        "in_flight s1 = in_flight s" "length (socks s1) = length (socks s)"
        by (simp_all add: handled_def thread_ok_def accept_inv_def)
      with Cons.IH [OF s1(1)] Cons.prems(2) obtain r where "handle_events now es s1 = Some (Ok r)"
        "handled (idxs_after_events (idxs_after (idxs (handles s)) q) es) s1 r" by (auto simp: WakerEvent)
      with w False handled_trans [OF s1(3,4)] show ?thesis by (auto simp: WakerEvent)
    qed
  next
    case (ListenerEvent tok)
    with Cons.prems accept_ok [of s tok now] obtain s1 where w: "accept now tok s = Some (Ok s1)" "accepted tok s s1"
      by (auto simp: thread_ok_def)
    then have s1: "thread_ok s1" "idxs (handles s1) = idxs (handles s)"
      "in_flight s1 = in_flight s" "length (socks s1) = length (socks s)"
      using Cons.prems(1) by (simp_all add: accepted_def acc_rel_def thread_ok_def)
    with Cons.IH [OF s1(1)] Cons.prems(2) obtain r where "handle_events now es s1 = Some (Ok r)"
      "handled (idxs_after_events (idxs (handles s)) es) s1 r" by (auto simp: ListenerEvent)
    with w handled_trans [OF s1(3,4)] show ?thesis by (auto simp: ListenerEvent)
  qed
qed

lemma thread_timeout:
  assumes "thread_ok s"
  shows "thread_ok (process_timeout now s) \<and> in_flight (process_timeout now s) = in_flight s
    \<and> length (socks (process_timeout now s)) = length (socks s) \<and> idxs (handles (process_timeout now s)) = idxs (handles s)"
  using assms process_timeout_inv [of s now] by (auto simp: thread_ok_def acc_rel_def)

lemma poll_with_ok:
  "thread_ok s \<Longrightarrow> polls_ok (length (socks s)) (idxs (handles s)) ps \<Longrightarrow>
     \<exists>b s'. poll_with ps s = Some (Ok (b, s')) \<and> in_flight s' = in_flight s \<and> all_open s' \<and> acc_wf s'
       \<and> (\<not> b \<longrightarrow> thread_ok s')"
proof (induction ps arbitrary: s)
  case Nil
  then show ?case by (auto simp: thread_ok_def accept_inv_def)
next
  case (Cons p ps)
  obtain now r where p: "p = (now, r)" by force
  show ?case
  proof (cases r)
    case (Err e)
    with Cons.prems have e: "e = Interrupted" "polls_ok (length (socks s)) (idxs (handles s)) ps"
      by (simp_all add: p)
    note t = thread_timeout [OF Cons.prems(1), of now]
    with Cons.IH [OF conjunct1 [OF t]] e show ?thesis by (auto simp: p Err)
  next
    case (Ok es)
    with Cons.prems handle_events_ok [of s es now] obtain b s1 where w:
      "handle_events now es s = Some (Ok (b, s1))" "handled (idxs_after_events (idxs (handles s)) es) s (b, s1)"
      by (fastforce simp: p)
    show ?thesis
    proof (cases b)
      case True
      with w show ?thesis by (auto simp: p Ok handled_def)
    next
      case False
      with w(2) have s1: "thread_ok s1" "idxs (handles s1) = idxs_after_events (idxs (handles s)) es"
        "in_flight s1 = in_flight s" "length (socks s1) = length (socks s)"
        by (simp_all add: handled_def thread_ok_def accept_inv_def)
      note t = thread_timeout [OF s1(1), of now]
      from Cons.IH [OF conjunct1 [OF t]] t s1 Cons.prems(2) w False show ?thesis by (auto simp: p Ok)
    qed
  qed
qed

section \<open>Start-up\<close>

lemma set_available_all_ok:
  "wf_avail a \<Longrightarrow> \<forall>i \<in> set is. i < MAX_WORKERS \<Longrightarrow>
     \<exists>a'. set_available_all a is = Ok a' \<and> wf_avail a' \<and> (\<forall>j. avail_bit a' j \<longleftrightarrow> avail_bit a j \<or> j \<in> set is)"
proof (induction "is" arbitrary: a)
  case (Cons i ks)
  obtain a1 where a1: "set_available a i True = Ok a1" using set_available_ok [of i a True] Cons.prems(2) by auto
  from Cons.IH [OF set_available_wf [OF Cons.prems(1) a1]] Cons.prems(2) obtain a' where
    "set_available_all a1 ks = Ok a'" "wf_avail a'" "\<forall>j. avail_bit a' j \<longleftrightarrow> avail_bit a1 j \<or> j \<in> set ks"
    by auto
  with a1 avail_bit_set [OF Cons.prems(1) a1] show ?case by auto
qed simp

text \<open>The listeners and workers that \<open>ServerBuilder\<close> hands over.\<close>

definition start_ok :: "(nat \<times> (nat, io_error) result list) list \<Rightarrow> handle list \<Rightarrow> bool" where
  "start_ok ls hs \<longleftrightarrow> ls \<noteq> [] \<and> map fst ls = [0..<length ls] \<and> distinct (map h_idx hs)
     \<and> (\<forall>h \<in> set hs. h_idx h < MAX_WORKERS \<and> h_open h)"

lemma new_with_sockets_ok:
  assumes "start_ok ls hs"
  obtains s where "new_with_sockets ls hs = Ok s" "thread_ok s" "handles s = hs" "length (socks s) = length ls"
    "\<not> paused s"
proof -
  have w: "wf_avail default_avail" "\<forall>i \<in> set (map h_idx hs). i < MAX_WORKERS"
    using assms default_avail_wf by (auto simp: start_ok_def)
  from set_available_all_ok [OF w] obtain a where a: "set_available_all default_avail (map h_idx hs) = Ok a"
    "wf_avail a" "\<forall>j. avail_bit a j \<longleftrightarrow> j \<in> idxs hs" by (auto simp: avail_bit_default)
  have "map (\<lambda>x. fst x) ls = [0..<length ls]" using assms by (simp add: start_ok_def)
  with a assms that show thesis
    by (auto simp: new_with_sockets_def thread_ok_def accept_inv_def acc_wf_def lst_ok_def all_open_def
        start_ok_def split_beta o_def)
qed

section \<open>Properties\<close>

abbreviation fresh_handle :: "nat \<Rightarrow> usize \<Rightarrow> handle" where
  "fresh_handle i l \<equiv> \<lparr>h_idx = i, h_open = True, h_queue = [], h_counter = wc_new l\<rparr>"

text \<open>
  C3. Dispatch: in a well-formed accept thread with at least one handle, \<open>accept_one\<close> always returns
  without a panic; the connection is queued to exactly one live worker, the handles removed on the
  way all belong to dead workers and are reported to the server, or every worker was dead, all are
  reported, and the connection is dropped.  The invariant is kept and no listener is touched.
\<close>

theorem accept_one_delivers:
  assumes "acc_wf s" and "handles s \<noteq> []"
  shows "\<exists>s'. accept_one c s = Some (Ok s') \<and> acc_wf s' \<and> socks s' = socks s
    \<and> (delivered c s s' \<or> no_worker_left c s s')"
  using accept_one_ok [OF assms, of c] by (auto simp: dispatched_def same_frame_def)

theorem accept_one_delivers_witness:
  "\<exists>s s'. new_with_sockets [(0, [])] [fresh_handle 0 1, fresh_handle 1 1] = Ok s
     \<and> accept_one \<lparr>c_io = 7, c_token = 0\<rparr> s = Some (Ok s')
     \<and> (delivered \<lparr>c_io = 7, c_token = 0\<rparr> s s' \<or> no_worker_left \<lparr>c_io = 7, c_token = 0\<rparr> s s')"
proof -
  have "start_ok [(0, [])] [fresh_handle 0 1, fresh_handle 1 1]" by (simp add: start_ok_def MAX_WORKERS_def)
  then obtain s where s: "new_with_sockets [(0, [])] [fresh_handle 0 1, fresh_handle 1 1] = Ok s"
    "acc_wf s" "handles s \<noteq> []"
    by (rule new_with_sockets_ok) (auto simp: thread_ok_def accept_inv_def)
  from accept_one_delivers [OF s(2,3), of "\<lparr>c_io = 7, c_token = 0\<rparr>"] s(1) show ?thesis by blast
qed

text \<open>
  C6. Round robin: \<open>accept_one\<close> gives the connection to the first available worker in cyclic order from
  \<open>next_worker\<close> on, the scan of the next connection starts right after it, and the worker is marked
  unavailable exactly when this connection filled it.
\<close>

theorem accept_one_round_robin:
  assumes "acc_wf s" and "handles s \<noteq> []" and "avail_bit (avail s) (h_idx (at_next s k))"
    and "\<forall>i < k. \<not> avail_bit (avail s) (h_idx (at_next s i))" and "h_open (at_next s k)"
  shows "\<exists>a. accept_one c s = Some (Ok (s\<lparr>avail := a,
      handles := (handles s)[(next_worker s + k) mod length (handles s) := snd (handle_send c (at_next s k))],
      next_worker := (next_worker s + k + 1) mod length (handles s)\<rparr>))
    \<and> (\<forall>j. avail_bit a j = (avail_bit (avail s) j
        \<and> (j = h_idx (at_next s k) \<longrightarrow> raw (h_counter (at_next s k)) \<noteq> limit (h_counter (at_next s k)))))"
  by (rule round_robin_aux [OF assms])

theorem accept_one_round_robin_witness:
  "\<exists>s a. new_with_sockets [(0, [])] [fresh_handle 0 1, fresh_handle 1 1] = Ok s
     \<and> accept_one \<lparr>c_io = 7, c_token = 0\<rparr> s = Some (Ok (s\<lparr>avail := a,
         handles := [snd (handle_send \<lparr>c_io = 7, c_token = 0\<rparr> (fresh_handle 0 1)), fresh_handle 1 1], next_worker := 1\<rparr>))"
proof -
  let ?hs = "[fresh_handle 0 1, fresh_handle 1 1]"
  obtain a where a: "set_available_all default_avail [0, 1] = Ok a" "wf_avail a"
    "\<forall>j. avail_bit a j \<longleftrightarrow> j \<in> {0, 1}"
    using set_available_all_ok [OF default_avail_wf, of "[0, 1]"]
    by (auto simp: MAX_WORKERS_def avail_bit_default)
  then have s: "new_with_sockets [(0, [])] ?hs = Ok \<lparr>handles = ?hs, next_worker = 0, next_listener = 0,
      avail = a, atimeout = None, paused = False,
      socks = [\<lparr>token = 0, backlog = [], deadline = None, interest = True\<rparr>], faulted = [], dropped = []\<rparr>"
    by (simp add: new_with_sockets_def)
  let ?s = "\<lparr>handles = ?hs, next_worker = 0, next_listener = 0,
      avail = a, atimeout = None, paused = False,
      socks = [\<lparr>token = 0, backlog = [], deadline = None, interest = True\<rparr>], faulted = [], dropped = []\<rparr>"
  have "acc_wf ?s" using a by (auto simp: acc_wf_def MAX_WORKERS_def)
  from accept_one_round_robin [OF this, of 0 "\<lparr>c_io = 7, c_token = 0\<rparr>"] a(3) s show ?thesis by auto
qed

text \<open>
  C9. No connection is left waiting: after \<open>accept_all\<close>, either no worker has capacity or every
  listener has been drained up to an error that ends its turn; the invariant holds again, and with
  several listeners the next scan starts at the next one.
\<close>

theorem accept_all_drains:
  assumes "accept_inv s"
  shows "\<exists>s'. accept_all now s = Some (Ok s') \<and> accept_inv s'
    \<and> (\<forall>i < length (socks s). available (avail s') \<longrightarrow>
         settled (backlog (socks s ! i)) (backlog (socks s' ! i)))
    \<and> next_listener s' = (if length (socks s) = 1 then next_listener s
                          else (next_listener s + 1) mod length (socks s))"
  using accept_all_ok [OF assms, of now] by (auto simp: scan_done_def)

theorem accept_all_drains_witness:
  "\<exists>s s'. new_with_sockets [(0, [Ok 7]), (1, [Ok 8])] [fresh_handle 0 9] = Ok s
     \<and> accept_all 5 s = Some (Ok s') \<and> next_listener s' = (next_listener s + 1) mod 2"
proof -
  have "start_ok [(0, [Ok 7]), (1, [Ok 8])] [fresh_handle 0 9]" by (simp add: start_ok_def MAX_WORKERS_def)
  then obtain s where s: "new_with_sockets [(0, [Ok 7]), (1, [Ok 8])] [fresh_handle 0 9] = Ok s"
    "accept_inv s" "length (socks s) = 2"
    by (rule new_with_sockets_ok) (auto simp: thread_ok_def)
  from accept_all_drains [OF s(2), of 5] s(1,3) show ?thesis by auto
qed

text \<open>
  The accept thread is safe while its workers live: from start-up on, whatever listener events,
  commands, notifications of known workers and new workers it handles, in any order, it never panics
  and never loops for ever, and no connection is lost or duplicated: what the listeners had waiting
  is still waiting there or is queued to a worker, once.
\<close>

theorem accept_thread_safe:
  assumes "start_ok ls hs" and "polls_ok (length ls) (idxs hs) ps"
  shows "\<exists>s b s'. new_with_sockets ls hs = Ok s \<and> poll_with ps s = Some (Ok (b, s'))
    \<and> in_flight s' = in_flight s \<and> acc_wf s' \<and> (\<not> b \<longrightarrow> lst_ok s')"
proof -
  obtain s where s: "new_with_sockets ls hs = Ok s" "thread_ok s" "handles s = hs" "length (socks s) = length ls"
    by (rule new_with_sockets_ok [OF assms(1)]) blast
  from poll_with_ok [OF s(2), of ps] s assms(2) show ?thesis
    by (auto simp: thread_ok_def accept_inv_def)
qed

theorem accept_thread_safe_witness:
  "\<exists>s b s'. new_with_sockets [(0, [Ok 7, Err WouldBlock])] [fresh_handle 0 1] = Ok s
    \<and> poll_with [(1, Ok [ListenerEvent 0]), (2, Err Interrupted),
         (3, Ok [WakerEvent [Pause, WorkerAvailable 0, NewWorker (fresh_handle 1 4), Resume]])] s = Some (Ok (b, s'))
    \<and> in_flight s' = in_flight s"
  using accept_thread_safe [of "[(0, [Ok 7, Err WouldBlock])]" "[fresh_handle 0 1]"
      "[(1, Ok [ListenerEvent 0]), (2, Err Interrupted),
        (3, Ok [WakerEvent [Pause, WorkerAvailable 0, NewWorker (fresh_handle 1 4), Resume]])]"]
  by (auto simp: start_ok_def MAX_WORKERS_def)

text \<open>
  C27. Retry of failed listeners: \<open>process_timeout\<close> registers again exactly the listeners whose deadline
  has passed (unless paused), keeps the others waiting, and sets the poll timeout to the shortest
  remaining wait, so that no deadline is slept through and none is forgotten.
\<close>

theorem retry_timer:
  assumes "lst_ok s"
  shows "socks (process_timeout now s) = map (retry now (paused s)) (socks s)
    \<and> (\<forall>k \<in> set (socks (process_timeout now s)). \<forall>inst. deadline k = Some inst \<longrightarrow>
         now < inst \<and> (\<exists>t \<le> inst - now. atimeout (process_timeout now s) = Some t))
    \<and> (\<forall>t. atimeout (process_timeout now s) = Some t \<longrightarrow>
         (\<exists>k \<in> set (socks s). deadline k = Some (now + t) \<and> 0 < t))"
proof -
  have "\<exists>k \<in> set (socks s). deadline k = Some (now + t) \<and> 0 < t"
    if "atimeout (process_timeout now s) = Some t" for t
  proof (cases "atimeout s")
    case None
    with that show ?thesis by (simp add: process_timeout_def)
  next
    case (Some u)
    with that have "atimeout (process_socks now [0..<length (socks s)] (s\<lparr>atimeout := None\<rparr>)) = Some t"
      by (simp add: process_timeout_def)
    from process_socks_timeout_lower [OF _ _ this]
    obtain i inst where "i < length (socks s)" "deadline (socks s ! i) = Some inst" "now < inst" "t = inst - now"
      by auto
    then show ?thesis by (intro bexI [of _ "socks s ! i"]) auto
  qed
  with process_timeout_socks [OF assms] process_timeout_le [OF assms] show ?thesis by blast
qed

theorem retry_timer_witness:
  "atimeout (process_timeout 100 \<lparr>handles = [], next_worker = 0, next_listener = 0, avail = default_avail,
     atimeout = Some 510, paused = False,
     socks = [\<lparr>token = 0, backlog = [], deadline = Some 90, interest = False\<rparr>,
              \<lparr>token = 1, backlog = [], deadline = Some 130, interest = False\<rparr>],
     faulted = [], dropped = []\<rparr>) = Some 30"
proof -
  let ?s = "\<lparr>handles = [], next_worker = 0, next_listener = 0, avail = default_avail,
     atimeout = Some 510, paused = False,
     socks = [\<lparr>token = 0, backlog = [], deadline = Some 90, interest = False\<rparr>,
              \<lparr>token = 1, backlog = [], deadline = Some 130, interest = False\<rparr>],
     faulted = [], dropped = []\<rparr>"
  have "lst_ok ?s" by (simp add: lst_ok_def upt_rec)
  note t = retry_timer [OF this, of 100]
  from t have "\<exists>t \<le> 30. atimeout (process_timeout 100 ?s) = Some t" by (auto simp: retry_def)
  with t show ?thesis by auto
qed

lemma stale_waker_aux:
  assumes "acc_wf s" "\<forall>j. \<not> avail_bit (avail s) j" "\<not> paused s" "length (socks s) = 1"
    "token (socks s ! 0) = 0" "backlog (socks s ! 0) = Ok io # rs" "i < MAX_WORKERS" "i \<notin> idxs (handles s)"
  shows "handle_waker now (WorkerAvailable i # q) s
    = (if handles s = [] then Some (Err IndexOutOfBounds) else None)"
proof -
  obtain a where a: "set_available (avail s) i True = Ok a" using set_available_ok assms(7) by blast
  have ab: "avail_bit a j \<longleftrightarrow> j = i" for j
    using avail_bit_set [OF acc_wfD(1) [OF assms(1)] a] assms(2) by auto
  have wfa: "wf_avail a" using set_available_wf [OF acc_wfD(1) [OF assms(1)] a] .
  then have av: "available a" using ab available_iff by blast
  let ?s = "upd_sock 0 (\<lambda>k. k\<lparr>backlog := rs\<rparr>) (s\<lparr>avail := a\<rparr>)"
  have "accept_all now (s\<lparr>avail := a\<rparr>)
      = seq_acc (accept_one \<lparr>c_io = io, c_token = 0\<rparr> ?s) (accept_loop now 0 rs)"
    using assms(4-6) av by (simp add: accept_all_def accept_def)
  moreover have "accept_one c ?s = (if handles s = [] then Some (Err IndexOutOfBounds) else None)" for c
  proof (cases "handles s = []")
    case True
    then show ?thesis by (subst accept_one.simps) (simp add: frame_simps)
  next
    case False
    have "stale ?s"
      using False wfa ab assms(8) acc_wfD(2,4) [OF assms(1)]
      by (auto simp: stale_def upd_sock_def intro: image_eqI)
    with False show ?thesis by (simp add: accept_one_stale_None)
  qed
  ultimately show ?thesis using a assms(3) by (simp add: seq_acc_def)
qed

text \<open>
  C29. A notification from a worker that has been removed stops the server: \<open>remove_next\<close> clears the
  worker's flag, but its connections still queue \<open>WorkerAvailable\<close> when they end.  Handled while no
  other worker has capacity and a connection waits, it sets a flag that no handle backs, and the scan
  of \<open>accept_one\<close> never ends; if it was the last worker, the scan indexes the empty \<open>handles\<close> and the
  accept thread panics.
\<close>

theorem stale_notification_stops_accept:
  assumes "acc_wf s" and "\<forall>j. \<not> avail_bit (avail s) j" and "\<not> paused s" and "length (socks s) = 1"
    and "token (socks s ! 0) = 0" and "backlog (socks s ! 0) = Ok io # rs"
    and "i < MAX_WORKERS" and "i \<notin> idxs (handles s)"
  shows "handle_waker now (WorkerAvailable i # q) s
    = (if handles s = [] then Some (Err IndexOutOfBounds) else None)"
  by (rule stale_waker_aux [OF assms])

lemma default_avail_eval: "default_avail = [0, 0, 0, 0]"
proof -
  have "512 div 128 = Suc (Suc (Suc (Suc 0)))" by simp
  then show ?thesis by (simp only: default_avail_def MAX_WORKERS_def replicate.simps)
qed

lemmas avail_eval = set_available_def get_available_def offset_def available_def default_avail_eval
lemmas accept_eval = avail_eval seq_acc_def accept_one.simps send_until.simps send_connection_def
  handle_send_def wc_inc_def wc_dec_def wc_new_def set_next_def remove_next_def swap_remove_def
  upd_sock_def accept_def new_with_sockets_def Let_def

theorem stale_notification_stops_accept_witness:
  "\<exists>s s'. new_with_sockets [(0, [Ok 7, Ok 8, Ok 9])] [fresh_handle 0 1, (fresh_handle 1 1)\<lparr>h_open := False\<rparr>] = Ok s
     \<and> accept 1 0 s = Some (Ok s') \<and> faulted s' = [1] \<and> handle_waker 2 [WorkerAvailable 1] s' = None"
proof -
  let ?s = "\<lparr>handles = [\<lparr>h_idx = 0, h_open = True,
        h_queue = [\<lparr>c_io = 7, c_token = 0\<rparr>, \<lparr>c_io = 8, c_token = 0\<rparr>],
        h_counter = \<lparr>raw = 3, limit = 1\<rparr>\<rparr>],
      next_worker = 0, next_listener = 0, avail = [0, 0, 0, 0], atimeout = None, paused = False,
      socks = [\<lparr>token = 0, backlog = [Ok 9], deadline = None, interest = True\<rparr>],
      faulted = [1], dropped = []\<rparr>"
  have no: "\<forall>j. \<not> avail_bit [0, 0, 0, 0] j" using avail_bit_default by (simp add: default_avail_eval)
  then have "acc_wf ?s" by (simp add: acc_wf_def MAX_WORKERS_def wf_avail_def)
  from stale_notification_stops_accept [OF this, of 9 "[]" 1 2 "[]"] no
  have "handle_waker 2 [WorkerAvailable 1] ?s = None" by (simp add: MAX_WORKERS_def)
  then show ?thesis by (simp add: accept_eval)
qed

fun new_workers :: "waker_interest list \<Rightarrow> handle list" where
  "new_workers [] = []"
| "new_workers (NewWorker h # q) = h # new_workers q"
| "new_workers (Stop # q) = []"
| "new_workers (WorkerAvailable i # q) = new_workers q"
| "new_workers (Pause # q) = new_workers q"
| "new_workers (Resume # q) = new_workers q"

text \<open>
  C28. Pause is respected by the notifications: while the server is paused, handling any queue without
  a \<open>Resume\<close> returns without accepting from any listener; new workers are recorded and marked
  available, in the order of the queue.
\<close>

theorem paused_accepts_nothing:
  assumes "paused s" and "Resume \<notin> set q" and "wf_avail (avail s)"
    and "\<forall>w \<in> set q. \<forall>i. w = WorkerAvailable i \<longrightarrow> i < MAX_WORKERS"
    and "\<forall>w \<in> set q. \<forall>h. w = NewWorker h \<longrightarrow> h_idx h < MAX_WORKERS"
  shows "\<exists>a. handle_waker now q s = Some (Ok (Stop \<in> set q, s\<lparr>avail := a, handles := handles s @ new_workers q\<rparr>))
    \<and> (\<forall>h \<in> set (new_workers q). avail_bit a (h_idx h)) \<and> (\<forall>j. avail_bit (avail s) j \<longrightarrow> avail_bit a j)"
  using assms
proof (induction q arbitrary: s)
  case Nil
  then show ?case by (intro exI [of _ "avail s"]) simp
next
  case (Cons w q)
  show ?case
  proof (cases w)
    case (WorkerAvailable i)
    with Cons.prems obtain a where a: "set_available (avail s) i True = Ok a"
      using set_available_ok [of i "avail s" True] by auto
    from Cons.IH [of "s\<lparr>avail := a\<rparr>"] Cons.prems a avail_bit_set [OF Cons.prems(3) a]
      set_available_wf [OF Cons.prems(3) a] WorkerAvailable
    show ?thesis by auto
  next
    case (NewWorker h)
    with Cons.prems obtain a where a: "set_available (avail s) (h_idx h) True = Ok a"
      using set_available_ok [of "h_idx h" "avail s" True] by auto
    from Cons.IH [of "s\<lparr>avail := a, handles := handles s @ [h]\<rparr>"] Cons.prems a
      avail_bit_set [OF Cons.prems(3) a] set_available_wf [OF Cons.prems(3) a] NewWorker
    show ?thesis by auto
  next
    case Pause
    with Cons.IH [of s] Cons.prems show ?thesis by auto
  next
    case Resume
    with Cons.prems show ?thesis by simp
  next
    case Stop
    with Cons.prems(1) show ?thesis by (intro exI [of _ "avail s"]) simp
  qed
qed

theorem paused_accepts_nothing_witness:
  "\<exists>a. handle_waker 3 [WorkerAvailable 1, NewWorker (fresh_handle 2 4)]
      \<lparr>handles = [fresh_handle 1 1], next_worker = 0, next_listener = 0, avail = default_avail,
       atimeout = None, paused = True,
       socks = [\<lparr>token = 0, backlog = [Ok 5], deadline = None, interest = False\<rparr>], faulted = [], dropped = []\<rparr>
    = Some (Ok (False, \<lparr>handles = [fresh_handle 1 1, fresh_handle 2 4], next_worker = 0, next_listener = 0,
       avail = a, atimeout = None, paused = True,
       socks = [\<lparr>token = 0, backlog = [Ok 5], deadline = None, interest = False\<rparr>], faulted = [], dropped = []\<rparr>))"
  using paused_accepts_nothing [of "\<lparr>handles = [fresh_handle 1 1], next_worker = 0, next_listener = 0,
       avail = default_avail, atimeout = None, paused = True,
       socks = [\<lparr>token = 0, backlog = [Ok 5], deadline = None, interest = False\<rparr>], faulted = [], dropped = []\<rparr>"
      "[WorkerAvailable 1, NewWorker (fresh_handle 2 4)]" 3] default_avail_wf
  by (auto simp: MAX_WORKERS_def)

end
