(* ===== verification/Accept_Faults.thy ===== *)
theory Accept_Faults
  imports Accept_Loop
begin

text \<open>
  The accept thread while its workers end: between any two events a worker may take connections from
  its queue, change its counter, or end, which drops its queue.  The thread handles every event without
  a panic, whatever workers have ended, as long as a notification comes from a worker that it still
  has; \<open>stale_notification_stops_accept\<close> of \<open>Accept_Loop\<close> is the other case.
\<close>

section \<open>Events and runs\<close>

datatype thread_event = EvListener nat | EvWaker waker_interest | EvTimeout

fun handle_event :: "nat \<Rightarrow> thread_event \<Rightarrow> acc \<Rightarrow> (bool \<times> acc, panic) result option" where
  "handle_event now (EvListener tok) s = handle_events now [ListenerEvent tok] s"
| "handle_event now (EvWaker w) s = handle_events now [WakerEvent [w]] s"
| "handle_event now EvTimeout s = Some (Ok (False, process_timeout now s))"

text \<open>A listener's token, a notification of a worker the thread has, or a new worker with a free index.\<close>

fun event_ok :: "acc \<Rightarrow> thread_event \<Rightarrow> bool" where
  "event_ok s (EvListener tok) \<longleftrightarrow> tok < length (socks s)"
| "event_ok s (EvWaker (WorkerAvailable i)) \<longleftrightarrow> i \<in> idxs (handles s)"
| "event_ok s (EvWaker (NewWorker h)) \<longleftrightarrow> h_idx h < MAX_WORKERS \<and> h_idx h \<notin> idxs (handles s) \<and> h_queue h = []"
| "event_ok s e \<longleftrightarrow> True"

text \<open>What a worker does to its side of a handle: it takes the first \<open>n\<close> connections of its queue,
  its counter changes, and if it ends the rest of the queue is dropped.\<close>

definition worker_move :: "nat \<Rightarrow> nat \<Rightarrow> wcounter \<Rightarrow> bool \<Rightarrow> acc \<Rightarrow> acc" where
  "worker_move k n ctr ends s = s\<lparr>handles := (handles s)[k := (handles s ! k)\<lparr>
      h_open := h_open (handles s ! k) \<and> \<not> ends, h_counter := ctr,
      h_queue := (if ends then [] else drop n (h_queue (handles s ! k)))\<rparr>]\<rparr>"

definition moved :: "nat \<Rightarrow> nat \<Rightarrow> bool \<Rightarrow> acc \<Rightarrow> conn multiset" where
  "moved k n ends s = mset (if ends then h_queue (handles s ! k) else take n (h_queue (handles s ! k)))"

text \<open>Runs, with the connections that workers have taken or dropped.\<close>

inductive fault_run :: "acc \<Rightarrow> acc \<Rightarrow> conn multiset \<Rightarrow> bool" for s0 where
  fr_start: "fault_run s0 s0 {#}"
| fr_worker: "fault_run s0 s gone \<Longrightarrow> k < length (handles s) \<Longrightarrow>
     fault_run s0 (worker_move k n ctr ends s) (gone + moved k n ends s)"
| fr_event: "fault_run s0 s gone \<Longrightarrow> event_ok s e \<Longrightarrow> handle_event now e s = Some (Ok (False, s')) \<Longrightarrow>
     fault_run s0 s' gone"

section \<open>One event\<close>

lemma inv_available:
  assumes inv: "accept_inv s" and i: "i \<in> idxs (handles s)"
  obtains a where "set_available (avail s) i True = Ok a" "accept_inv (s\<lparr>avail := a\<rparr>)"
proof -
  have wf: "acc_wf s" using inv by (simp add: accept_inv_def)
  then have "i < MAX_WORKERS" using i acc_wfD(2) by auto
  then obtain a where a: "set_available (avail s) i True = Ok a" using set_available_ok by blast
  have "acc_wf (s\<lparr>avail := a\<rparr>)"
    using wf i avail_bit_set [OF acc_wfD(1) [OF wf] a] set_available_wf [OF acc_wfD(1) [OF wf] a]
    by (auto simp: acc_wf_def)
  with inv a that show thesis by (simp add: accept_inv_def lst_ok_def)
qed

lemma inv_new_worker:
  assumes inv: "accept_inv s" and h: "h_idx h < MAX_WORKERS" "h_idx h \<notin> idxs (handles s)"
  obtains a where "set_available (avail s) (h_idx h) True = Ok a"
    "accept_inv (s\<lparr>avail := a, handles := handles s @ [h]\<rparr>)"
proof -
  have wf: "acc_wf s" using inv by (simp add: accept_inv_def)
  obtain a where a: "set_available (avail s) (h_idx h) True = Ok a" using set_available_ok h(1) by blast
  have "next_worker s < Suc (length (handles s))" using wf by (auto simp: acc_wf_def max_def split: if_splits)
  then have "acc_wf (s\<lparr>avail := a, handles := handles s @ [h]\<rparr>)"
    using wf h avail_bit_set [OF acc_wfD(1) [OF wf] a] set_available_wf [OF acc_wfD(1) [OF wf] a]
    by (auto simp: acc_wf_def)
  with inv a that show thesis by (simp add: accept_inv_def lst_ok_def)
qed

lemma inv_pause: "accept_inv s \<Longrightarrow> accept_inv (deregister_all (s\<lparr>paused := True\<rparr>))"
  by (auto simp: accept_inv_def acc_wf_def lst_ok_def deregister_all_def o_def if_distrib [of token] cong: if_cong)

lemma inv_resume: "accept_inv s \<Longrightarrow> accept_inv (s\<lparr>paused := False, socks := map (\<lambda>k. k\<lparr>interest := True\<rparr>) (socks s)\<rparr>)"
  by (auto simp: accept_inv_def acc_wf_def lst_ok_def o_def)

lemma deregister_all_conns:
  "dropped (deregister_all s) = dropped s" "all_conns (deregister_all s) = all_conns s"
  "dead_empty (deregister_all s) = dead_empty s"
proof -
  show d: "dropped (deregister_all s) = dropped s" by (simp add: deregister_all_def)
  show "all_conns (deregister_all s) = all_conns s" by (simp only: all_conns_def deregister_all_frame d)
  show "dead_empty (deregister_all s) = dead_empty s" by (simp only: dead_empty_def deregister_all_frame)
qed

text \<open>The outcome of an event.\<close>

definition event_done :: "acc \<Rightarrow> bool \<Rightarrow> acc \<Rightarrow> bool" where
  "event_done s b s' \<longleftrightarrow> acc_wf s' \<and> dead_empty s' \<and> all_conns s' = all_conns s \<and> length (socks s') = length (socks s)
     \<and> (dropped s' = dropped s \<or> handles s' = []) \<and> (\<not> b \<longrightarrow> lst_ok s')"

lemma event_done_rel:
  "accept_inv s' \<Longrightarrow> acc_rel t s' \<Longrightarrow> dead_empty t \<Longrightarrow> all_conns t = all_conns s \<Longrightarrow> dropped t = dropped s \<Longrightarrow>
   length (socks t) = length (socks s) \<Longrightarrow> event_done s False s'"
  by (simp add: event_done_def acc_rel_def accept_inv_def)

lemma scan_event:
  assumes "accept_inv t" "dead_empty t" "all_conns t = all_conns s" "dropped t = dropped s"
    "length (socks t) = length (socks s)"
  shows "\<exists>s'. accept_all now t = Some (Ok s') \<and> event_done s False s'"
  using accept_all_ok [OF assms(1), of now] event_done_rel [OF _ _ assms(2-5)] by (auto simp: scan_done_def)

lemma handle_event_ok:
  assumes inv: "accept_inv s" and de: "dead_empty s" and ok: "event_ok s e"
  shows "\<exists>s'. handle_event now e s = Some (Ok (e = EvWaker Stop, s')) \<and> event_done s (e = EvWaker Stop) s'"
proof (cases e)
  case (EvListener tok)
  with accept_ok [OF inv, of tok now] ok obtain s' where "accept now tok s = Some (Ok s')" "accepted tok s s'" by auto
  with EvListener event_done_rel [of s' s s] de show ?thesis by (auto simp: accepted_def)
next
  case EvTimeout
  with process_timeout_inv [OF inv, of now] event_done_rel [of _ s s] de show ?thesis by auto
next
  case (EvWaker w)
  have now_paused: "event_done s False t" if "accept_inv t" "dead_empty t" "all_conns t = all_conns s" "dropped t = dropped s"
    "length (socks t) = length (socks s)" for t
    using that by (simp add: event_done_def accept_inv_def)
  show ?thesis
  proof (cases w)
    case (WorkerAvailable i)
    with ok EvWaker have "i \<in> idxs (handles s)" by simp
    then obtain a where a: "set_available (avail s) i True = Ok a" "accept_inv (s\<lparr>avail := a\<rparr>)"
      using inv_available [OF inv] by blast
    have t: "dead_empty (s\<lparr>avail := a\<rparr>)" "all_conns (s\<lparr>avail := a\<rparr>) = all_conns s"
      using de by (simp_all add: dead_empty_def all_conns_def in_flight_def queued_def)
    show ?thesis
      using scan_event [OF a(2) t, of now] now_paused [OF a(2) t] a(1) by (auto simp: EvWaker WorkerAvailable Let_def)
  next
    case (NewWorker h)
    with ok EvWaker have h: "h_idx h < MAX_WORKERS" "h_idx h \<notin> idxs (handles s)" "h_queue h = []" by simp_all
    obtain a where a: "set_available (avail s) (h_idx h) True = Ok a" "accept_inv (s\<lparr>avail := a, handles := handles s @ [h]\<rparr>)"
      using inv_new_worker [OF inv h(1,2)] by blast
    have t: "dead_empty (s\<lparr>avail := a, handles := handles s @ [h]\<rparr>)"
      "all_conns (s\<lparr>avail := a, handles := handles s @ [h]\<rparr>) = all_conns s"
      using de h(3) by (auto simp: dead_empty_def all_conns_def in_flight_def queued_def)
    show ?thesis
      using scan_event [OF a(2) t, of now] now_paused [OF a(2) t] a(1) by (auto simp: EvWaker NewWorker Let_def)
  next
    case Pause
    let ?p = "s\<lparr>paused := True\<rparr>"
    have p: "dead_empty ?p" "all_conns ?p = all_conns s" "dropped ?p = dropped s" "length (socks ?p) = length (socks s)"
      using de by (simp_all add: dead_empty_def all_conns_def in_flight_def queued_def)
    have t: "dead_empty (deregister_all ?p)" "all_conns (deregister_all ?p) = all_conns s"
      "dropped (deregister_all ?p) = dropped s" "length (socks (deregister_all ?p)) = length (socks s)"
      using p by (simp_all only: deregister_all_conns deregister_all_frame)
    show ?thesis
      using now_paused [OF inv_pause [OF inv] t] now_paused [OF inv de] by (auto simp: EvWaker Pause)
  next
    case Resume
    let ?t = "s\<lparr>paused := False, socks := map (\<lambda>k. k\<lparr>interest := True\<rparr>) (socks s)\<rparr>"
    have t: "dead_empty ?t" "all_conns ?t = all_conns s" "dropped ?t = dropped s" "length (socks ?t) = length (socks s)"
      using de by (simp_all add: dead_empty_def all_conns_def in_flight_def queued_def o_def waiting_def)
    show ?thesis
      using scan_event [OF inv_resume [OF inv] t, of now] now_paused [OF inv de] by (auto simp: EvWaker Resume Let_def)
  next
    case Stop
    have "event_done s True (deregister_all s)" "event_done s True s"
      using de inv by (simp_all add: event_done_def accept_inv_def deregister_all_conns deregister_all_frame)
    then show ?thesis by (simp add: EvWaker Stop)
  qed
qed

section \<open>Runs\<close>

lemma worker_move_ok:
  assumes inv: "accept_inv s" and de: "dead_empty s" and k: "k < length (handles s)"
  shows "accept_inv (worker_move k n ctr ends s) \<and> dead_empty (worker_move k n ctr ends s)
    \<and> all_conns (worker_move k n ctr ends s) + moved k n ends s = all_conns s"
proof -
  let ?h = "handles s ! k"
  let ?h' = "?h\<lparr>h_open := h_open ?h \<and> \<not> ends, h_counter := ctr, h_queue := (if ends then [] else drop n (h_queue ?h))\<rparr>"
  have m: "map h_idx ((handles s)[k := ?h']) = map h_idx (handles s)"
    by (simp add: map_update list_update_same_conv k)
  then have ids: "idxs ((handles s)[k := ?h']) = idxs (handles s)" by (metis list.set_map)
  have sub: "set ((handles s)[k := ?h']) \<subseteq> insert ?h' (set (handles s))" by (rule set_update_subset_insert)
  have "?h \<in> set (handles s)" using k by simp
  then have mx: "\<forall>h \<in> set ((handles s)[k := ?h']). h_idx h < MAX_WORKERS"
    using sub acc_wfD(2) inv by (fastforce simp: accept_inv_def)
  have inv': "accept_inv (worker_move k n ctr ends s)"
    using inv mx by (simp add: accept_inv_def acc_wf_def lst_ok_def worker_move_def m ids)
  have d: "h_queue h = []" if "h \<in> insert ?h' (set (handles s))" "\<not> h_open h" for h
    using that de \<open>?h \<in> set (handles s)\<close> by (auto simp: dead_empty_def)
  have "\<forall>h \<in> set ((handles s)[k := ?h']). \<not> h_open h \<longrightarrow> h_queue h = []" using sub d by blast
  then have de': "dead_empty (worker_move k n ctr ends s)" by (simp add: dead_empty_def worker_move_def)
  have q: "mset (h_queue ?h) = mset (h_queue ?h') + moved k n ends s"
    by (simp add: moved_def) (metis append_take_drop_id mset_append union_commute)
  have s: "(\<Sum>h \<in># mset xs. mset (h_queue h)) = (\<Sum>h \<leftarrow> xs. mset (h_queue h))" for xs :: "handle list"
    by (induction xs) simp_all
  have "queued (worker_move k n ctr ends s) + moved k n ends s = queued s"
    using sum_list_upd [OF k, of "\<lambda>h. mset (h_queue h)" ?h'] q by (simp add: queued_def worker_move_def s ac_simps)
  then have "all_conns (worker_move k n ctr ends s) + moved k n ends s = all_conns s"
    by (simp add: all_conns_def in_flight_def worker_move_def ac_simps)
  with inv' de' show ?thesis by blast
qed

lemma fault_run_inv:
  "fault_run s0 s gone \<Longrightarrow> accept_inv s0 \<Longrightarrow> dead_empty s0 \<Longrightarrow> accept_inv s \<and> dead_empty s \<and> all_conns s + gone = all_conns s0"
proof (induction rule: fault_run.induct)
  case (fr_worker s gone k n ctr ends)
  then show ?case using worker_move_ok [of s k n ctr ends] by (simp add: ac_simps)
next
  case (fr_event s gone e now s')
  with handle_event_ok [of s e now] show ?case by (auto simp: event_done_def accept_inv_def)
qed simp

section \<open>Properties\<close>

text \<open>
  C4. The accept thread survives workers that end, notifications of removed workers apart.  From start-up
  on, with workers that take connections and end at any time between its events, the thread handles each
  of these events - a listener that is ready, a command, a retry, a new worker with a free index, a
  notification of a worker whose handle it still has - without a panic and without looping for ever, keeps
  its invariant, and ends exactly on \<open>Stop\<close>.  No connection is lost or duplicated: what the listeners had
  waiting is waiting there, queued to a worker, taken or dropped by one, or dropped by the thread; and it
  drops one only when no worker is left.  This is a statement of the events that \<open>event_ok\<close> admits: a
  notification that arrives after its worker was removed is not among them, in the run or as the
  event handled, and the thread does not survive it (\<open>stale_notification_stops_accept\<close> of \<open>Accept_Loop\<close>).
\<close>

theorem accept_thread_survives:
  assumes "start_ok ls hs" and "new_with_sockets ls hs = Ok s0" and "fault_run s0 s gone" and "event_ok s e"
  shows "\<exists>s'. handle_event now e s = Some (Ok (e = EvWaker Stop, s')) \<and> acc_wf s' \<and> (e \<noteq> EvWaker Stop \<longrightarrow> lst_ok s')
    \<and> all_conns s' + gone = all_conns s0 \<and> (dropped s' = dropped s \<or> handles s' = [])"
proof -
  have "thread_ok s0" using new_with_sockets_ok [OF assms(1)] assms(2) by fastforce
  then have "accept_inv s0" "dead_empty s0" by (simp_all add: thread_ok_def all_open_def dead_empty_def)
  from fault_run_inv [OF assms(3) this] have s: "accept_inv s" "dead_empty s" "all_conns s + gone = all_conns s0" by simp_all
  from handle_event_ok [OF s(1,2) assms(4), of now] s(3) show ?thesis by (auto simp: event_done_def)
qed

text \<open>Both workers end before a listener has a connection: it is dropped, and the thread goes on.\<close>

theorem accept_thread_survives_witness:
  "\<exists>s0 s s'. new_with_sockets [(0, [Ok 7])] [fresh_handle 0 1, fresh_handle 1 1] = Ok s0 \<and> fault_run s0 s {#}
     \<and> (\<forall>h \<in> set (handles s). \<not> h_open h) \<and> handle_event 5 (EvListener 0) s = Some (Ok (False, s'))
     \<and> all_conns s' = all_conns s0"
proof -
  have st: "start_ok [(0, [Ok 7])] [fresh_handle 0 1, fresh_handle 1 1]" by (simp add: start_ok_def MAX_WORKERS_def)
  then obtain s0 where s0: "new_with_sockets [(0, [Ok 7])] [fresh_handle 0 1, fresh_handle 1 1] = Ok s0"
    "handles s0 = [fresh_handle 0 1, fresh_handle 1 1]" "length (socks s0) = 1"
    by (rule new_with_sockets_ok) simp
  let ?s1 = "worker_move 0 0 (wc_new 1) True s0"
  let ?s = "worker_move 1 0 (wc_new 1) True ?s1"
  have "fault_run s0 ?s1 ({#} + moved 0 0 True s0)" by (rule fr_worker [OF fr_start]) (simp add: s0)
  then have "fault_run s0 ?s1 {#}" by (simp add: moved_def s0)
  then have "fault_run s0 ?s ({#} + moved 1 0 True ?s1)" by (rule fr_worker) (simp add: s0 worker_move_def)
  then have r: "fault_run s0 ?s {#}" by (simp add: moved_def s0 worker_move_def)
  have "event_ok ?s (EvListener 0)" using s0(3) by (simp add: worker_move_def)
  from accept_thread_survives [OF st s0(1) r this, of 5] obtain s' where
    "handle_event 5 (EvListener 0) ?s = Some (Ok (False, s'))" "all_conns s' = all_conns s0" by auto
  moreover have "\<forall>h \<in> set (handles ?s). \<not> h_open h" by (simp add: worker_move_def s0)
  ultimately show ?thesis using s0(1) r by blast
qed

end
