(* ===== verification/Server_Worker.thy ===== *)
theory Server_Worker
  imports Worker_Counter "HOL-Library.Stream"
begin

text \<open>
  \<open>actix-server/src/worker.rs\<close>: the worker future.  \<open>worker\<close> is \<open>ServerWorker\<close> with its two channels
  as queues; the user's services and factories are the streams of the answers they give, one for each
  time they are asked, so that a service may fail for ever and a factory may fail or create such a
  service again.  \<open>live\<close> are the connections whose spawned handler still
  holds its guard, \<open>calls\<close> is the log of service calls, \<open>replies\<close> of the answers to stop requests, and
  \<open>notices\<close> the queued \<open>WorkerAvailable\<close> notifications.  Times are milliseconds, the clock an argument.
  \<open>poll\<close> re-enters itself and loops; \<open>worker_step\<close> is its body up to the next re-entry or loop
  iteration and \<open>worker_run\<close> repeats it, which need not end.
\<close>

section \<open>State\<close>

datatype status = SAvailable | SUnavailable | SFailed | SRestarting | SStopping | SStopped

type_synonym svc = "(unit, unit) result poll stream"
type_synonym create_fut = "(nat \<times> svc, unit) result poll stream"

text \<open>The next answer, and one that stays pending after the answers of a list.\<close>

definition ask :: "'a stream \<Rightarrow> 'a \<times> 'a stream" where
  "ask s = (shd s, stl s)"

definition script :: "'a poll list \<Rightarrow> 'a poll stream" where
  "script xs = xs @- sconst Pending"

record wservice =
  factory_idx :: nat
  status :: status
  service :: svc

datatype wstate =
  WUnavailable
| WAvailable
| WRestarting nat nat create_fut
| WShutdown nat nat nat

record worker =
  conn_rx :: "conn list"
  stop_rx :: "(bool \<times> nat) list"
  widx :: nat
  counter :: wcounter
  services :: "wservice list"
  factories :: "create_fut stream list"
  wstate :: wstate
  shutdown_timeout :: nat
  live :: "conn list"
  calls :: "(nat \<times> conn) list"
  replies :: "(nat \<times> bool) list"
  notices :: "nat list"

definition SHUTDOWN_POLL_INTERVAL :: nat where "SHUTDOWN_POLL_INTERVAL = 1000"

section \<open>Operations\<close>

definition created :: "svc \<Rightarrow> wservice \<Rightarrow> wservice" where
  "created s srv = srv\<lparr>service := s, status := SUnavailable\<rparr>"

definition restart_service :: "nat \<Rightarrow> nat \<Rightarrow> worker \<Rightarrow> (worker, panic) result" where
  "restart_service idx factory_id w =
     (if length (factories w) \<le> factory_id then Err IndexOutOfBounds
      else if length (services w) \<le> idx then Err IndexOutOfBounds
      else
        let (fut, futs) = ask (factories w ! factory_id)
        in Ok (w\<lparr>services := (services w)[idx := (services w ! idx)\<lparr>status := SRestarting\<rparr>],
                 factories := (factories w)[factory_id := futs],
                 wstate := WRestarting factory_id idx fut\<rparr>))"

definition shutdown :: "bool \<Rightarrow> worker \<Rightarrow> worker" where
  "shutdown force w =
     w\<lparr>services := map (\<lambda>srv. if status srv = SAvailable
         then srv\<lparr>status := (if force then SStopped else SStopping)\<rparr> else srv) (services w)\<rparr>"

definition active :: "wservice \<Rightarrow> bool" where
  "active srv \<longleftrightarrow> status srv = SAvailable \<or> status srv = SUnavailable"

text \<open>\<open>check_readiness\<close> from position \<open>idx\<close> on.\<close>

fun check_from :: "nat \<Rightarrow> bool \<Rightarrow> wservice list \<Rightarrow> (bool, nat \<times> nat) result \<times> wservice list" where
  "check_from idx ready [] = (Ok ready, [])"
| "check_from idx ready (srv # srvs) =
     (if active srv then
        (case ask (service srv) of
           (Ready (Ok u), s1) \<Rightarrow>
             (let srv1 = srv\<lparr>service := s1, status := SAvailable\<rparr> in
              case check_from (Suc idx) ready srvs of (r, rest) \<Rightarrow> (r, srv1 # rest))
         | (Pending, s1) \<Rightarrow>
             (let srv1 = srv\<lparr>service := s1, status := SUnavailable\<rparr> in
              case check_from (Suc idx) False srvs of (r, rest) \<Rightarrow> (r, srv1 # rest))
         | (Ready (Err u), s1) \<Rightarrow>
             (Err (idx, factory_idx srv), srv\<lparr>service := s1, status := SFailed\<rparr> # srvs))
      else (case check_from (Suc idx) ready srvs of (r, rest) \<Rightarrow> (r, srv # rest)))"

definition check_readiness :: "worker \<Rightarrow> (bool, nat \<times> nat) result \<times> worker" where
  "check_readiness w = (case check_from 0 True (services w) of (r, s) \<Rightarrow> (r, w\<lparr>services := s\<rparr>))"

text \<open>A guard of this worker is dropped.\<close>

definition drop_guard :: "worker \<Rightarrow> worker" where
  "drop_guard w =
     (case guard_dropped (widx w) (counter w) of
        (None, c) \<Rightarrow> w\<lparr>counter := c\<rparr>
      | (Some i, c) \<Rightarrow> w\<lparr>counter := c, notices := notices w @ [i]\<rparr>)"

text \<open>\<open>StreamService::call\<close>: the stream conversion is \<open>conv\<close>; when it succeeds the spawned handler keeps
  the guard, otherwise the guard is dropped at once.\<close>

definition stream_call :: "(nat \<Rightarrow> bool) \<Rightarrow> conn \<Rightarrow> worker \<Rightarrow> worker" where
  "stream_call conv c w = (if conv (c_io c) then w\<lparr>live := live w @ [c]\<rparr> else drop_guard w)"

definition handler_done :: "nat \<Rightarrow> worker \<Rightarrow> worker" where
  "handler_done i w =
     (if i < length (live w) then drop_guard (w\<lparr>live := take i (live w) @ drop (Suc i) (live w)\<rparr>) else w)"

section \<open>poll\<close>

datatype wnext = Return bool worker | Panicked panic | Continue bool worker

text \<open>The stop message, at the top of every entry of \<open>poll\<close>; \<open>Inl\<close> returns \<open>Ready\<close>.\<close>

definition handle_stop :: "nat \<Rightarrow> worker \<Rightarrow> (worker + worker, panic) result" where
  "handle_stop now w =
     (case stop_rx w of
        [] \<Rightarrow> Ok (Inr w)
      | (graceful, tx) # rest \<Rightarrow>
          (case wc_total (counter w) of
             Err p \<Rightarrow> Err p
           | Ok num \<Rightarrow>
               (let w1 = w\<lparr>stop_rx := rest\<rparr> in
                if num = 0 then Ok (Inl (w1\<lparr>replies := replies w1 @ [(tx, True)]\<rparr>))
                else if graceful then
                  Ok (Inr ((shutdown False w1)\<lparr>wstate := WShutdown (now + SHUTDOWN_POLL_INTERVAL) now tx\<rparr>))
                else
                  (let w2 = shutdown True w1 in Ok (Inl (w2\<lparr>replies := replies w2 @ [(tx, False)]\<rparr>))))))"

fun drop_conns :: "conn list \<Rightarrow> worker \<Rightarrow> worker" where
  "drop_conns [] w = w"
| "drop_conns (c # cs) w = drop_conns cs (drop_guard (w\<lparr>conn_rx := cs\<rparr>))"

definition poll_unavailable :: "worker \<Rightarrow> wnext" where
  "poll_unavailable w =
     (case check_readiness w of
        (Ok b, w1) \<Rightarrow> (if b then Continue True (w1\<lparr>wstate := WAvailable\<rparr>) else Return False w1)
      | (Err (token, idx), w1) \<Rightarrow>
          (case restart_service token idx w1 of Err p \<Rightarrow> Panicked p | Ok w2 \<Rightarrow> Continue True w2))"

definition poll_restarting :: "nat \<Rightarrow> nat \<Rightarrow> create_fut \<Rightarrow> worker \<Rightarrow> wnext" where
  "poll_restarting factory_id tok fut w =
     (case ask fut of
        (Pending, f1) \<Rightarrow> Return False (w\<lparr>wstate := WRestarting factory_id tok f1\<rparr>)
      | (Ready (Err u), f1) \<Rightarrow> Panicked ExplicitPanic
      | (Ready (Ok (tok_new, s)), f1) \<Rightarrow>
          (if tok \<noteq> tok_new then Panicked AssertFailed
           else if length (services w) \<le> tok then Panicked IndexOutOfBounds
           else Continue True (w\<lparr>services := (services w)[tok := created s (services w ! tok)],
                                 wstate := WUnavailable\<rparr>)))"

definition poll_shutdown :: "nat \<Rightarrow> nat \<Rightarrow> nat \<Rightarrow> nat \<Rightarrow> worker \<Rightarrow> wnext" where
  "poll_shutdown now timer start_from tx w =
     (let w1 = drop_conns (conn_rx w) w in
      if now < timer then Return False w1
      else
        case wc_total (counter w1) of
          Err p \<Rightarrow> Panicked p
        | Ok num \<Rightarrow>
            (if num = 0 then
               Return True (w1\<lparr>wstate := WUnavailable, replies := replies w1 @ [(tx, True)]\<rparr>)
             else if now - start_from \<ge> shutdown_timeout w1 then
               Return True (w1\<lparr>wstate := WUnavailable, replies := replies w1 @ [(tx, False)]\<rparr>)
             else Return False (w1\<lparr>wstate := WShutdown (now + SHUTDOWN_POLL_INTERVAL) start_from tx\<rparr>)))"

text \<open>One iteration of the loop of the \<open>Available\<close> state.\<close>

definition poll_available :: "(nat \<Rightarrow> bool) \<Rightarrow> worker \<Rightarrow> wnext" where
  "poll_available conv w =
     (case check_readiness w of
        (Err (token, idx), w1) \<Rightarrow>
          (case restart_service token idx w1 of Err p \<Rightarrow> Panicked p | Ok w2 \<Rightarrow> Continue True w2)
      | (Ok b, w1) \<Rightarrow>
          (if \<not> b then Continue True (w1\<lparr>wstate := WUnavailable\<rparr>)
           else
             case conn_rx w1 of
               [] \<Rightarrow> Return False w1
             | c # cs \<Rightarrow>
                 (if length (services w1) \<le> c_token c then Panicked IndexOutOfBounds
                  else
                    Continue False (stream_call conv c
                      (w1\<lparr>conn_rx := cs, calls := calls w1 @ [(c_token c, c)]\<rparr>)))))"

definition worker_step :: "(nat \<Rightarrow> bool) \<Rightarrow> nat \<Rightarrow> bool \<Rightarrow> worker \<Rightarrow> wnext" where
  "worker_step conv now entry w =
     (if \<not> entry then poll_available conv w
      else
        case handle_stop now w of
          Err p \<Rightarrow> Panicked p
        | Ok (Inl w1) \<Rightarrow> Return True w1
        | Ok (Inr w1) \<Rightarrow>
            (case wstate w1 of
               WUnavailable \<Rightarrow> poll_unavailable w1
             | WRestarting factory_id tok fut \<Rightarrow> poll_restarting factory_id tok fut w1
             | WShutdown timer start_from tx \<Rightarrow> poll_shutdown now timer start_from tx w1
             | WAvailable \<Rightarrow> poll_available conv w1))"

partial_function (option) worker_run ::
  "(nat \<Rightarrow> bool) \<Rightarrow> nat \<Rightarrow> bool \<Rightarrow> worker \<Rightarrow> (bool \<times> worker, panic) result option" where
  "worker_run conv now entry w =
     (case worker_step conv now entry w of
        Return b w1 \<Rightarrow> Some (Ok (b, w1))
      | Panicked p \<Rightarrow> Some (Err p)
      | Continue t w1 \<Rightarrow> worker_run conv now t w1)"

definition worker_poll :: "(nat \<Rightarrow> bool) \<Rightarrow> nat \<Rightarrow> worker \<Rightarrow> (bool \<times> worker, panic) result option" where
  "worker_poll conv now w = worker_run conv now True w"

section \<open>Start-up\<close>

text \<open>The future of \<open>create_services\<close>, over what each factory's future ends with.\<close>

fun create_from ::
  "nat \<Rightarrow> (nat \<times> svc, unit) result list \<Rightarrow> ((nat \<times> nat \<times> svc) list, nat) result" where
  "create_from idx [] = Ok []"
| "create_from idx (Ok (token, s) # rs) = map_result ((#) (idx, token, s)) (create_from (Suc idx) rs)"
| "create_from idx (Err u # rs) = Err idx"

text \<open>\<open>create_services\<close>: a stop request that wins the race confirms the stop and gives \<open>None\<close>.\<close>

definition create_services ::
  "(bool \<times> nat) option \<Rightarrow> (nat \<times> svc, unit) result list \<Rightarrow>
   ((nat \<times> nat \<times> svc) list, nat) result option \<times> (nat \<times> bool) list" where
  "create_services stop rs =
     (case stop of
        Some (graceful, tx) \<Rightarrow> (None, [(tx, True)])
      | None \<Rightarrow> (Some (create_from 0 rs), []))"

fun wrap_from :: "nat \<Rightarrow> (nat \<times> nat \<times> svc) list \<Rightarrow> (wservice list, panic) result" where
  "wrap_from position [] = Ok []"
| "wrap_from position ((idx, token, s) # rest) =
     (if token \<noteq> position then Err AssertFailed
      else map_result ((#) \<lparr>factory_idx = idx, status = SUnavailable, service = s\<rparr>) (wrap_from (Suc position) rest))"

definition wrap_worker_services :: "(nat \<times> nat \<times> svc) list \<Rightarrow> (wservice list, panic) result" where
  "wrap_worker_services ss = wrap_from 0 ss"

text \<open>The worker that \<open>spawn\<close> starts once its services exist; \<open>fs\<close> are the futures its factories
  will return when services are restarted.\<close>

definition spawn_worker ::
  "nat \<Rightarrow> usize \<Rightarrow> nat \<Rightarrow> create_fut stream list \<Rightarrow> (nat \<times> nat \<times> svc) list \<Rightarrow> (worker, panic) result" where
  "spawn_worker idx lim timeout fs ss =
     map_result (\<lambda>srvs. \<lparr>conn_rx = [], stop_rx = [], widx = idx, counter = wc_new lim, services = srvs,
         factories = fs, wstate = WUnavailable, shutdown_timeout = timeout, live = [], calls = [],
         replies = [], notices = []\<rparr>) (wrap_worker_services ss)"

section \<open>Checking readiness\<close>

lemma check_from_length: "check_from i r ss = (q, ss') \<Longrightarrow> length ss' = length ss"
  by (induction i r ss arbitrary: q ss' rule: check_from.induct)
    (auto split: if_splits prod.splits poll.splits result.splits simp: Let_def)

text \<open>What a check does to one service that it reaches.\<close>

definition checked :: "wservice \<Rightarrow> wservice" where
  "checked srv =
     (if active srv then
        (case ask (service srv) of
           (Ready (Ok u), s1) \<Rightarrow> srv\<lparr>service := s1, status := SAvailable\<rparr>
         | (Pending, s1) \<Rightarrow> srv\<lparr>service := s1, status := SUnavailable\<rparr>
         | (Ready (Err u), s1) \<Rightarrow> srv\<lparr>service := s1, status := SFailed\<rparr>)
      else srv)"

definition answer_of :: "wservice \<Rightarrow> (unit, unit) result poll" where
  "answer_of srv = shd (service srv)"

lemma check_from_Ok:
  "check_from i r ss = (Ok b, ss') \<Longrightarrow>
     ss' = map checked ss \<and> (b \<longleftrightarrow> r \<and> (\<forall>srv \<in> set ss. active srv \<longrightarrow> answer_of srv = Ready (Ok ())))
     \<and> (\<forall>srv \<in> set ss. active srv \<longrightarrow> answer_of srv \<noteq> Ready (Err ()))"
  by (induction i r ss arbitrary: b ss' rule: check_from.induct)
    (auto split: if_splits prod.splits poll.splits result.splits simp: Let_def checked_def answer_of_def ask_def)

lemma check_from_Err:
  "check_from i r ss = (Err (k, f), ss') \<Longrightarrow>
     i \<le> k \<and> k - i < length ss \<and> f = factory_idx (ss ! (k - i)) \<and> active (ss ! (k - i))
     \<and> answer_of (ss ! (k - i)) = Ready (Err ())
     \<and> ss' = map checked (take (Suc (k - i)) ss) @ drop (Suc (k - i)) ss
     \<and> (\<forall>srv \<in> set (take (k - i) ss). active srv \<longrightarrow> answer_of srv \<noteq> Ready (Err ()))"
proof (induction ss arbitrary: i r ss')
  case (Cons srv srvs)
  show ?case
  proof (cases "active srv \<and> answer_of srv = Ready (Err ())")
    case True
    with Cons.prems show ?thesis
      by (auto split: prod.splits poll.splits result.splits simp: checked_def answer_of_def ask_def)
  next
    case False
    with Cons.prems obtain q rest where q: "check_from (Suc i) q srvs = (Err (k, f), rest)" "ss' = checked srv # rest"
      by (auto split: if_splits prod.splits poll.splits result.splits simp: Let_def checked_def answer_of_def ask_def)
    note IH = Cons.IH [OF q(1)]
    from IH obtain m where m: "k - i = Suc m" "k - Suc i = m"
      by (metis Suc_diff_Suc Suc_le_lessD)
    with IH False q(2) show ?thesis by auto
  qed
qed simp

lemma check_from_frame:
  "check_from i r ss = (q, ss') \<Longrightarrow> map factory_idx ss' = map factory_idx ss"
  by (induction ss arbitrary: i r ss' q)
    (auto split: if_splits prod.splits poll.splits result.splits simp: Let_def)

lemma checked_active: "answer_of srv \<noteq> Ready (Err ()) \<Longrightarrow> active (checked srv) = active srv"
  by (auto simp: checked_def answer_of_def active_def ask_def split: poll.splits result.splits)

lemma check_readiness_fields:
  assumes "check_readiness w = (r, w')"
  shows "w' = w\<lparr>services := services w'\<rparr>" "map factory_idx (services w') = map factory_idx (services w)"
    "length (services w') = length (services w)"
  using assms check_from_frame [of 0 True "services w"] check_from_length [of 0 True "services w"]
  by (auto simp: check_readiness_def split: prod.splits)

lemma check_readiness_Ok_services:
  assumes "check_readiness w = (Ok b, w')"
  shows "services w' = map checked (services w)"
    "b \<longleftrightarrow> (\<forall>srv \<in> set (services w). active srv \<longrightarrow> answer_of srv = Ready (Ok ()))"
    "\<forall>srv \<in> set (services w). active srv \<longrightarrow> answer_of srv \<noteq> Ready (Err ())"
  using assms check_from_Ok [of 0 True "services w" b] by (auto simp: check_readiness_def split: prod.splits)

lemma check_readiness_Err_services:
  assumes "check_readiness w = (Err (k, f), w')"
  shows "k < length (services w)" "f = factory_idx (services w ! k)" "active (services w ! k)"
    "answer_of (services w ! k) = Ready (Err ())"
    "services w' = map checked (take (Suc k) (services w)) @ drop (Suc k) (services w)"
  using assms check_from_Err [of 0 True "services w" k f] by (auto simp: check_readiness_def split: prod.splits)

lemma stream_call_frame:
  "services (stream_call conv c w) = services w \<and> factories (stream_call conv c w) = factories w
   \<and> wstate (stream_call conv c w) = wstate w \<and> conn_rx (stream_call conv c w) = conn_rx w
   \<and> stop_rx (stream_call conv c w) = stop_rx w"
  by (simp add: stream_call_def drop_guard_def guard_dropped_def split: prod.split option.split)

lemma handle_stop_Inr:
  "handle_stop now w = Ok (Inr w1) \<Longrightarrow> w1 = w \<or> (\<exists>a b c. wstate w1 = WShutdown a b c)"
  by (auto simp: handle_stop_def Let_def split: list.splits result.splits if_splits)

section \<open>The steps of a poll\<close>

text \<open>A step after which the poll goes on: where the poll was, and what the step was.\<close>

lemma worker_step_Continue:
  assumes "worker_step conv now t w = Continue t' w'" and "t \<or> wstate w = WAvailable"
  obtains
    (ready) w1 where "wstate w = WUnavailable" "check_readiness w = (Ok True, w1)" "w' = w1\<lparr>wstate := WAvailable\<rparr>" "t'"
  | (failed) k f w1 where "wstate w = WUnavailable \<or> wstate w = WAvailable" "check_readiness w = (Err (k, f), w1)"
      "restart_service k f w1 = Ok w'" "t'"
  | (restarted) f k fut s where "wstate w = WRestarting f k fut" "shd fut = Ready (Ok (k, s))" "k < length (services w)"
      "w' = w\<lparr>services := (services w)[k := created s (services w ! k)], wstate := WUnavailable\<rparr>" "t'"
  | (unready) w1 where "wstate w = WAvailable" "check_readiness w = (Ok False, w1)" "w' = w1\<lparr>wstate := WUnavailable\<rparr>" "t'"
  | (serve) c cs w1 where "wstate w = WAvailable" "check_readiness w = (Ok True, w1)" "conn_rx w1 = c # cs"
      "w' = stream_call conv c (w1\<lparr>conn_rx := cs, calls := calls w1 @ [(c_token c, c)]\<rparr>)" "\<not> t'"
proof -
  have "(case wstate w of
           WUnavailable \<Rightarrow> poll_unavailable w
         | WRestarting factory_id tok fut \<Rightarrow> poll_restarting factory_id tok fut w
         | WShutdown timer start_from tx \<Rightarrow> poll_shutdown now timer start_from tx w
         | WAvailable \<Rightarrow> poll_available conv w) = Continue t' w'"
  proof (cases t)
    case False
    with assms show ?thesis by (simp add: worker_step_def)
  next
    case True
    then obtain w1 where h: "handle_stop now w = Ok (Inr w1)"
      and b: "(case wstate w1 of
           WUnavailable \<Rightarrow> poll_unavailable w1
         | WRestarting factory_id tok fut \<Rightarrow> poll_restarting factory_id tok fut w1
         | WShutdown timer start_from tx \<Rightarrow> poll_shutdown now timer start_from tx w1
         | WAvailable \<Rightarrow> poll_available conv w1) = Continue t' w'"
      using assms(1) by (auto simp: worker_step_def split: result.splits sum.splits)
    have "poll_shutdown now x y z w1 \<noteq> Continue t' w'" for x y z
      by (auto simp: poll_shutdown_def Let_def split: result.splits)
    with b handle_stop_Inr [OF h] have w1: "w1 = w" by (auto split: wstate.splits)
    show ?thesis using b unfolding w1 .
  qed
  moreover have "poll_shutdown now x y z w \<noteq> Continue t' w'" for x y z
    by (auto simp: poll_shutdown_def Let_def split: result.splits)
  ultimately consider "wstate w = WUnavailable" "poll_unavailable w = Continue t' w'"
    | "wstate w = WAvailable" "poll_available conv w = Continue t' w'"
    | f k fut where "wstate w = WRestarting f k fut" "poll_restarting f k fut w = Continue t' w'"
    by (cases "wstate w") auto
  then show thesis
  proof cases
    case 1
    with that(1,2) show thesis
      by (auto simp: poll_unavailable_def split: prod.splits result.splits if_splits)
  next
    case 2
    with that(2,4,5) show thesis
      by (auto simp: poll_available_def split: prod.splits result.splits if_splits list.splits)
  next
    case (3 f k fut)
    with that(3) show thesis
      by (auto simp: poll_restarting_def ask_def not_le split: prod.splits poll.splits result.splits if_splits)
  qed
qed

text \<open>The state of a poll after \<open>n\<close> steps, as long as it goes on.\<close>

fun poll_steps :: "(nat \<Rightarrow> bool) \<Rightarrow> nat \<Rightarrow> nat \<Rightarrow> bool \<Rightarrow> worker \<Rightarrow> (bool \<times> worker) option" where
  "poll_steps conv now 0 t w = Some (t, w)"
| "poll_steps conv now (Suc n) t w =
     (case poll_steps conv now n t w of
        None \<Rightarrow> None
      | Some (t1, w1) \<Rightarrow> (case worker_step conv now t1 w1 of Continue t2 w2 \<Rightarrow> Some (t2, w2) | _ \<Rightarrow> None))"

lemma poll_steps_Suc:
  "poll_steps conv now (Suc n) t w =
     (case worker_step conv now t w of Continue t1 w1 \<Rightarrow> poll_steps conv now n t1 w1 | _ \<Rightarrow> None)"
  by (induction n) (simp_all split: wnext.split)

text \<open>Induction over a poll that ends.\<close>

lemma worker_run_induct [consumes 1, case_names Return Panicked Continue]:
  assumes "worker_run conv now t w = Some r"
    and "\<And>t w b w1. worker_step conv now t w = Return b w1 \<Longrightarrow> P t w (Ok (b, w1))"
    and "\<And>t w p. worker_step conv now t w = Panicked p \<Longrightarrow> P t w (Err p)"
    and "\<And>t w t1 w1 r. worker_step conv now t w = Continue t1 w1 \<Longrightarrow> P t1 w1 r \<Longrightarrow> P t w r"
  shows "P t w r"
proof -
  have "conv' = conv \<Longrightarrow> now' = now \<Longrightarrow> P t w r" if "worker_run conv' now' t w = Some r" for conv' now'
    by (rule worker_run.raw_induct [where P = "\<lambda>conv' now' t w r. conv' = conv \<longrightarrow> now' = now \<longrightarrow> P t w r", OF _ that, rule_format])
      (use assms(2-4) in \<open>auto split: wnext.splits\<close>)
  with assms(1) show ?thesis by blast
qed

lemma worker_run_steps: "poll_steps conv now n t w = None \<Longrightarrow> \<exists>r. worker_run conv now t w = Some r"
proof (induction n arbitrary: t w)
  case (Suc n)
  show ?case
  proof (cases "worker_step conv now t w")
    case (Continue t1 w1)
    with Suc obtain r where "worker_run conv now t1 w1 = Some r" by (auto simp: poll_steps_Suc simp del: poll_steps.simps)
    with Continue show ?thesis by (subst worker_run.simps) simp
  qed (subst worker_run.simps, simp)+
qed simp

text \<open>A poll may end in the panic of a restart that failed.  It may also never end: then it comes again
  and again to a check in which some service does not answer \<open>Ready(Ok)\<close>.\<close>

definition restart_fails :: "(nat \<Rightarrow> bool) \<Rightarrow> nat \<Rightarrow> worker \<Rightarrow> bool" where
  "restart_fails conv now w \<longleftrightarrow> (\<exists>n t w1 f k fut. poll_steps conv now n True w = Some (t, w1)
     \<and> wstate w1 = WRestarting f k fut \<and> shd fut = Ready (Err ()))"

definition turned_away :: "worker \<Rightarrow> bool" where
  "turned_away w \<longleftrightarrow> (wstate w = WUnavailable \<or> wstate w = WAvailable) \<and> fst (check_readiness w) \<noteq> Ok True"

definition restless :: "(nat \<Rightarrow> bool) \<Rightarrow> nat \<Rightarrow> worker \<Rightarrow> bool" where
  "restless conv now w \<longleftrightarrow> (\<forall>m. \<exists>n \<ge> m. \<exists>t w1. poll_steps conv now n True w = Some (t, w1) \<and> turned_away w1)"

text \<open>Between two such checks the poll only hands out connections.\<close>

definition quiet_rank :: "worker \<Rightarrow> nat" where
  "quiet_rank w = length (conn_rx w) + (case wstate w of WRestarting f k fut \<Rightarrow> 2 | WUnavailable \<Rightarrow> 1 | _ \<Rightarrow> 0)"

lemma check_readiness_rest:
  assumes "check_readiness w = (r, w')"
  shows "wstate w' = wstate w" "conn_rx w' = conn_rx w" "factories w' = factories w" "stop_rx w' = stop_rx w"
  using check_readiness_fields(1) [OF assms] by (metis worker.surjective worker.select_convs worker.update_convs)+

lemma quiet_step:
  assumes "worker_step conv now t w = Continue t' w'" "t \<or> wstate w = WAvailable"
  shows "(t' \<or> wstate w' = WAvailable) \<and> (\<not> turned_away w \<longrightarrow> quiet_rank w' < quiet_rank w)"
  using assms
proof (cases rule: worker_step_Continue)
  case (serve c cs w1)
  have "conn_rx w = c # cs" using check_readiness_rest(2) [OF serve(2)] serve(3) by simp
  with serve check_readiness_rest [OF serve(2)] show ?thesis by (simp add: quiet_rank_def stream_call_frame)
next
  case (ready w1)
  with check_readiness_rest [OF ready(2)] show ?thesis by (simp add: quiet_rank_def)
qed (auto simp: turned_away_def quiet_rank_def)

lemma poll_steps_rest:
  assumes "\<And>n. poll_steps conv now n True w \<noteq> None" and "\<not> restless conv now w"
  shows False
proof -
  let ?at = "\<lambda>n. the (poll_steps conv now n True w)"
  have some: "poll_steps conv now n True w = Some (fst (?at n), snd (?at n))" for n using assms(1) [of n] by auto
  have step: "worker_step conv now (fst (?at n)) (snd (?at n)) = Continue (fst (?at (Suc n))) (snd (?at (Suc n)))" for n
    using some [of n] some [of "Suc n"] by (auto split: wnext.splits option.splits)
  have ent: "fst (?at n) \<or> wstate (snd (?at n)) = WAvailable" for n
    by (induction n) (simp, use quiet_step [OF step] in blast)
  from assms(2) obtain m where m: "\<And>n. m \<le> n \<Longrightarrow> \<not> turned_away (snd (?at n))"
    using some unfolding restless_def by metis
  have "quiet_rank (snd (?at (m + j))) + j \<le> quiet_rank (snd (?at m))" for j
  proof (induction j)
    case (Suc j)
    from quiet_step [OF step ent, of "m + j"] m [of "m + j"] Suc show ?case by simp
  qed simp
  from this [of "Suc (quiet_rank (snd (?at m)))"] show False by simp
qed

lemma worker_poll_restless:
  assumes "worker_poll conv now w = None"
  shows "restless conv now w"
  using assms worker_run_steps [of conv now _ True w] poll_steps_rest [of conv now w] by (fastforce simp: worker_poll_def)

section \<open>Calm services\<close>

text \<open>Services that give finitely many answers other than \<open>Pending\<close>, and factories that can be asked for
  finitely many such services again and do not fail then.\<close>

definition calm_svc :: "svc \<Rightarrow> bool" where
  "calm_svc s \<longleftrightarrow> finite {n. s !! n \<noteq> Pending}"

definition calm_fut :: "create_fut \<Rightarrow> bool" where
  "calm_fut f \<longleftrightarrow> finite {n. f !! n \<noteq> Pending}
     \<and> (\<forall>a \<in> sset f. a = Pending \<or> (\<exists>t s. a = Ready (Ok (t, s)) \<and> calm_svc s))"

definition calm_factory :: "create_fut stream \<Rightarrow> bool" where
  "calm_factory fs \<longleftrightarrow> finite {n. \<exists>k. fs !! n !! k \<noteq> Pending} \<and> (\<forall>f \<in> sset fs. calm_fut f)"

definition calm :: "worker \<Rightarrow> bool" where
  "calm w \<longleftrightarrow> (\<forall>srv \<in> set (services w). calm_svc (service srv)) \<and> (\<forall>fs \<in> set (factories w). calm_factory fs)
     \<and> (\<forall>f t fut. wstate w = WRestarting f t fut \<longrightarrow> calm_fut fut)"

text \<open>The sum of the weights of a stream with finitely many that are not 0.\<close>

definition total :: "('a \<Rightarrow> nat) \<Rightarrow> 'a stream \<Rightarrow> nat" where
  "total h s = (\<Sum>n \<in> {n. h (s !! n) \<noteq> 0}. h (s !! n))"

lemma stream_indices:
  "{n. P (s !! n)} = (if P (shd s) then {0} else {}) \<union> Suc ` {n. P (stl s !! n)}"
proof -
  have "n \<in> {n. P (s !! n)} \<longleftrightarrow> n \<in> (if P (shd s) then {0} else {}) \<union> Suc ` {n. P (stl s !! n)}" for n
    by (cases n) auto
  then show ?thesis by blast
qed

lemma finite_stl: "finite {n. P (s !! n)} \<longleftrightarrow> finite {n. P (stl s !! n)}"
  by (subst stream_indices) (simp add: finite_image_iff)

lemma total_stl:
  assumes "finite {n. h (s !! n) \<noteq> 0}"
  shows "total h s = h (shd s) + total h (stl s)"
proof -
  let ?J = "{n. h (stl s !! n) \<noteq> 0}"
  have J: "finite ?J" using assms finite_stl [of "\<lambda>x. h x \<noteq> 0" s] by simp
  have eq: "{n. h (s !! n) \<noteq> 0} = (if h (shd s) \<noteq> 0 then {0} else {}) \<union> Suc ` ?J"
    by (rule stream_indices)
  have "(\<Sum>n \<in> Suc ` ?J. h (s !! n)) = total h (stl s)" by (simp add: total_def sum.reindex)
  then show ?thesis
    unfolding total_def [of h s] eq using J by (auto simp: sum.insert_if)
qed

definition svc_weight :: "(unit, unit) result poll \<Rightarrow> nat" where
  "svc_weight a = (if a = Pending then 0 else 1)"

definition fut_weight :: "(nat \<times> svc, unit) result poll \<Rightarrow> nat" where
  "fut_weight a = (case a of Pending \<Rightarrow> 0 | Ready (Ok (t, s)) \<Rightarrow> 1 + total svc_weight s | Ready (Err u) \<Rightarrow> 1)"

lemma fut_weight_0: "fut_weight a = 0 \<longleftrightarrow> a = Pending"
  by (auto simp: fut_weight_def split: poll.split result.split)

lemma total_svc:
  assumes "calm_svc s"
  shows "total svc_weight s = svc_weight (shd s) + total svc_weight (stl s)" "calm_svc (stl s)"
  using assms total_stl [of svc_weight s] finite_stl [of "\<lambda>a. a \<noteq> Pending" s]
  by (simp_all add: calm_svc_def svc_weight_def)

lemma sset_stl: "x \<in> sset (stl s) \<Longrightarrow> x \<in> sset s"
  by (metis stl_sset stream.collapse)

lemma total_fut:
  assumes "calm_fut f"
  shows "total fut_weight f = fut_weight (shd f) + total fut_weight (stl f)" "calm_fut (stl f)"
  using assms total_stl [of fut_weight f] finite_stl [of "\<lambda>a. a \<noteq> Pending" f] sset_stl [of _ f]
  by (auto simp: calm_fut_def fut_weight_0)

lemma calm_fut_shd: "calm_fut f \<Longrightarrow> shd f = Pending \<or> (\<exists>t s. shd f = Ready (Ok (t, s)) \<and> calm_svc s)"
  unfolding calm_fut_def using shd_sset [of f] by blast

lemma total_factory:
  assumes "calm_factory fs"
  shows "total (total fut_weight) fs = total fut_weight (shd fs) + total (total fut_weight) (stl fs)"
    "calm_factory (stl fs)" "calm_fut (shd fs)"
proof -
  have "{n. total fut_weight (fs !! n) \<noteq> 0} \<subseteq> {n. \<exists>k. fs !! n !! k \<noteq> Pending}"
  proof (rule subsetI, rule ccontr)
    fix n assume n: "n \<in> {n. total fut_weight (fs !! n) \<noteq> 0}" "n \<notin> {n. \<exists>k. fs !! n !! k \<noteq> Pending}"
    then have "{k. fut_weight (fs !! n !! k) \<noteq> 0} = {}" by (simp add: fut_weight_0)
    then have "total fut_weight (fs !! n) = 0" unfolding total_def by (simp only: sum.empty)
    with n(1) show False by simp
  qed
  with assms have "finite {n. total fut_weight (fs !! n) \<noteq> 0}" unfolding calm_factory_def by (blast intro: finite_subset)
  then show "total (total fut_weight) fs = total fut_weight (shd fs) + total (total fut_weight) (stl fs)"
    by (rule total_stl)
  show "calm_factory (stl fs)" "calm_fut (shd fs)"
    using assms finite_stl [of "\<lambda>f. \<exists>k. f !! k \<noteq> Pending" fs] sset_stl [of _ fs] shd_sset [of fs]
    by (auto simp: calm_factory_def)
qed

text \<open>Literal scripts are calm.\<close>

lemma finite_script: "finite {n. script xs !! n \<noteq> Pending}"
proof (rule finite_subset [of _ "{..<length xs}"])
  show "{n. script xs !! n \<noteq> Pending} \<subseteq> {..<length xs}"
    by (auto simp: script_def shift_snth not_less)
qed simp

lemma sset_script [simp]: "sset (script xs) = insert Pending (set xs)"
  by (auto simp: script_def)

lemma calm_script [simp]: "calm_svc (script xs)"
  by (simp add: calm_svc_def finite_script)

lemma script_simps [simp]: "shd (script []) = Pending" "stl (script []) = script []"
  "shd (script (x # xs)) = x" "stl (script (x # xs)) = script xs"
  by (simp_all add: script_def)

lemma calm_fut_script:
  "calm_fut (script xs) \<longleftrightarrow> (\<forall>a \<in> set xs. a = Pending \<or> (\<exists>t s. a = Ready (Ok (t, s)) \<and> calm_svc s))"
  by (auto simp: calm_fut_def finite_script)

text \<open>A factory that is never asked again, as its futures stay pending.\<close>

definition spent :: "create_fut stream" where
  "spent = sconst (script [])"

lemma spent_simps [simp]: "shd spent = script []" "stl spent = spent" "sset spent = {script []}"
  by (simp_all add: spent_def)

lemma calm_spent [simp]: "calm_factory spent"
  by (simp add: calm_factory_def spent_def calm_fut_script) (simp add: script_def)

section \<open>Termination\<close>

text \<open>The work left in calm services, in the futures of calm factories and in the queues.\<close>

definition svcs_work :: "wservice list \<Rightarrow> nat" where
  "svcs_work ss = (\<Sum>srv \<leftarrow> ss. total svc_weight (service srv))"

definition work :: "worker \<Rightarrow> nat" where
  "work w = svcs_work (services w) + (\<Sum>fs \<leftarrow> factories w. total (total fut_weight) fs)
     + (case wstate w of WRestarting f t fut \<Rightarrow> total fut_weight fut | _ \<Rightarrow> 0) + length (conn_rx w)"

definition in_use :: "worker \<Rightarrow> bool" where
  "in_use w \<longleftrightarrow> (\<exists>srv \<in> set (services w). active srv)"

definition todo :: "worker \<Rightarrow> nat" where
  "todo w = 2 * work w + (case wstate w of
      WUnavailable \<Rightarrow> (if in_use w then 0 else 1)
    | WAvailable \<Rightarrow> (if in_use w then 1 else 0)
    | _ \<Rightarrow> 0)"

lemma todo_less: "work w' < work w \<Longrightarrow> todo w' < todo w"
  by (simp add: todo_def split: wstate.split)

lemma checked_calm:
  assumes "calm_svc (service srv)"
  shows "calm_svc (service (checked srv))"
    "total svc_weight (service (checked srv)) + (if active srv \<and> answer_of srv \<noteq> Pending then 1 else 0)
     = total svc_weight (service srv)"
  using total_svc [OF assms] assms
  by (auto simp: checked_def answer_of_def ask_def svc_weight_def split: poll.splits result.splits)

lemma svcs_work_checked:
  assumes "\<forall>srv \<in> set ss. calm_svc (service srv)"
  shows "svcs_work (map checked ss) \<le> svcs_work ss"
    "srv \<in> set ss \<Longrightarrow> active srv \<Longrightarrow> answer_of srv \<noteq> Pending \<Longrightarrow> svcs_work (map checked ss) < svcs_work ss"
proof -
  show "svcs_work (map checked ss) \<le> svcs_work ss"
    using assms by (induction ss) (simp_all add: svcs_work_def, metis add_mono checked_calm(2) le_add1)
  show "srv \<in> set ss \<Longrightarrow> active srv \<Longrightarrow> answer_of srv \<noteq> Pending \<Longrightarrow> svcs_work (map checked ss) < svcs_work ss"
    using assms
  proof (induction ss)
    case (Cons x xs)
    have le: "svcs_work (map checked xs) \<le> svcs_work xs"
      using Cons.prems(4) by (induction xs) (simp_all add: svcs_work_def, metis add_mono checked_calm(2) le_add1)
    show ?case using Cons checked_calm(2) [of x] le by (cases "x = srv") (auto simp: svcs_work_def)
  qed simp
qed

lemma svcs_work_append: "svcs_work (xs @ ys) = svcs_work xs + svcs_work ys"
  by (simp add: svcs_work_def)

lemma calm_checked: "\<forall>srv \<in> set ss. calm_svc (service srv) \<Longrightarrow> \<forall>srv \<in> set (map checked ss). calm_svc (service srv)"
  using checked_calm(1) by auto

lemma check_calm:
  assumes c: "check_readiness w = (r, w')" and w: "calm w"
  shows "calm w' \<and> svcs_work (services w') \<le> svcs_work (services w)"
proof (cases r)
  case (Ok b)
  with c w show ?thesis
    using check_readiness_Ok_services(1) [of w b w'] check_readiness_rest [OF c] calm_checked [of "services w"]
      svcs_work_checked(1) [of "services w"] by (auto simp: calm_def)
next
  case (Err e)
  obtain k f where e: "e = (k, f)" by force
  let ?ss = "services w"
  have s: "services w' = map checked (take (Suc k) ?ss) @ drop (Suc k) ?ss"
    using check_readiness_Err_services(5) [of w k f w'] c Err e by simp
  have ss: "\<forall>srv \<in> set (take (Suc k) ?ss). calm_svc (service srv)" "\<forall>srv \<in> set (drop (Suc k) ?ss). calm_svc (service srv)"
    using w by (auto simp: calm_def dest: in_set_takeD in_set_dropD)
  have "svcs_work ?ss = svcs_work (take (Suc k) ?ss) + svcs_work (drop (Suc k) ?ss)"
    by (metis append_take_drop_id svcs_work_append)
  moreover have "\<forall>srv \<in> set (services w'). calm_svc (service srv)" using calm_checked [OF ss(1)] ss(2) s by auto
  ultimately show ?thesis
    using svcs_work_checked(1) [OF ss(1)] w check_readiness_rest [OF c] by (simp add: calm_def s svcs_work_append)
qed

lemma sum_list_nat_upd:
  "i < length xs \<Longrightarrow> (\<Sum>x \<leftarrow> xs[i := y]. f x :: nat) + f (xs ! i) = (\<Sum>x \<leftarrow> xs. f x) + f y"
proof (induction xs arbitrary: i)
  case (Cons x xs)
  then show ?case by (cases i) (auto simp: algebra_simps)
qed simp

lemma svcs_work_upd:
  "i < length ss \<Longrightarrow> svcs_work (ss[i := srv]) + total svc_weight (service (ss ! i)) = svcs_work ss + total svc_weight (service srv)"
  unfolding svcs_work_def by (rule sum_list_nat_upd)

lemma set_update_all: "x \<in> set (xs[i := y]) \<Longrightarrow> x = y \<or> x \<in> set xs"
  using set_update_subset_insert by fastforce

lemma restart_service_calm:
  assumes r: "restart_service i f w = Ok w'" and w: "calm w"
    and st: "wstate w = WUnavailable \<or> wstate w = WAvailable"
  shows "calm w' \<and> work w' = work w"
proof -
  from r have lt: "f < length (factories w)" "i < length (services w)"
    by (auto simp: restart_service_def split: if_splits)
  then have fc: "calm_factory (factories w ! f)" "calm_svc (service (services w ! i))" using w by (auto simp: calm_def)
  note t = total_factory [OF fc(1)]
  have "(\<Sum>fs \<leftarrow> (factories w)[f := stl (factories w ! f)]. total (total fut_weight) fs) + total fut_weight (shd (factories w ! f))
      = (\<Sum>fs \<leftarrow> factories w. total (total fut_weight) fs)"
    using sum_list_nat_upd [OF lt(1), of "total (total fut_weight)" "stl (factories w ! f)"] t(1) by simp
  moreover have "svcs_work ((services w)[i := (services w ! i)\<lparr>status := SRestarting\<rparr>]) = svcs_work (services w)"
    using svcs_work_upd [OF lt(2), of "(services w ! i)\<lparr>status := SRestarting\<rparr>"] by simp
  ultimately show ?thesis
    using r st lt w t(2,3) fc(2)
    by (auto simp: restart_service_def work_def calm_def ask_def dest!: set_update_all)
qed

lemma failed_check_less:
  assumes c: "check_readiness w = (Err (k, f), w1)" and w: "calm w"
  shows "svcs_work (services w1) < svcs_work (services w)"
proof -
  let ?ss = "services w"
  note e = check_readiness_Err_services [OF c]
  have ss: "\<forall>srv \<in> set (take (Suc k) ?ss). calm_svc (service srv)"
    using w by (auto simp: calm_def dest: in_set_takeD)
  have "?ss ! k \<in> set (take (Suc k) ?ss)" using e(1) by (auto simp: take_Suc_conv_app_nth)
  with svcs_work_checked(2) [OF ss] e(3,4) have "svcs_work (map checked (take (Suc k) ?ss)) < svcs_work (take (Suc k) ?ss)"
    by simp
  moreover have "svcs_work ?ss = svcs_work (take (Suc k) ?ss) + svcs_work (drop (Suc k) ?ss)"
    by (metis append_take_drop_id svcs_work_append)
  ultimately show ?thesis by (simp add: e(5) svcs_work_append)
qed

lemma check_in_use:
  assumes "check_readiness w = (Ok b, w1)"
  shows "in_use w1 = in_use w"
proof -
  have "active (checked srv) = active srv" if "srv \<in> set (services w)" for srv
  proof (cases "active srv")
    case True
    with that check_readiness_Ok_services(3) [OF assms] checked_active [of srv] show ?thesis by simp
  qed (simp add: checked_def)
  then show ?thesis by (simp add: in_use_def check_readiness_Ok_services(1) [OF assms])
qed

lemma worker_step_less:
  assumes "worker_step conv now t w = Continue t' w'" and "t \<or> wstate w = WAvailable" and w: "calm w"
  shows "todo w' < todo w \<and> calm w'"
  using assms(1,2)
proof (cases rule: worker_step_Continue)
  case (ready w1)
  note c = check_calm [OF ready(2) w] check_readiness_rest [OF ready(2)] check_in_use [OF ready(2)]
  have cw: "calm w'" using c(1) ready(3) by (simp add: calm_def)
  show ?thesis
  proof (cases "in_use w")
    case True
    then obtain srv where srv: "srv \<in> set (services w)" "active srv" by (auto simp: in_use_def)
    have "\<forall>srv \<in> set (services w). calm_svc (service srv)" using w by (simp add: calm_def)
    from svcs_work_checked(2) [OF this srv] check_readiness_Ok_services [OF ready(2)] srv
    have "svcs_work (services w1) < svcs_work (services w)" by simp
    then have "work w' < work w" using c ready by (simp add: work_def)
    with cw show ?thesis by (simp add: todo_less)
  next
    case False
    then have "\<not> in_use w'" using c(6) ready(3) by (simp add: in_use_def)
    moreover have "work w' \<le> work w" using c ready by (simp add: work_def)
    ultimately show ?thesis using False ready cw by (simp add: todo_def)
  qed
next
  case (failed k f w1)
  note c = check_calm [OF failed(2) w] check_readiness_rest [OF failed(2)] failed_check_less [OF failed(2) w]
  have "calm w' \<and> work w' = work w1" using restart_service_calm [OF failed(3)] c failed(1) by simp
  moreover have "work w1 < work w" using c failed(1) by (auto simp: work_def)
  ultimately show ?thesis by (simp add: todo_less)
next
  case (restarted f k fut s)
  have fut: "calm_fut fut" using w restarted(1) by (simp add: calm_def)
  with calm_fut_shd [OF fut] restarted(2) have s: "calm_svc s" by simp
  have "svcs_work (services w') + total svc_weight (service (services w ! k)) = svcs_work (services w) + total svc_weight s"
    using svcs_work_upd [OF restarted(3), of "created s (services w ! k)"] restarted(4) by (simp add: created_def)
  then have "work w' < work w" using restarted total_fut(1) [OF fut] by (simp add: work_def fut_weight_def)
  moreover have "calm w'" using w s restarted(4) by (auto simp: calm_def created_def dest!: set_update_all)
  ultimately show ?thesis by (simp add: todo_less)
next
  case (unready w1)
  note c = check_calm [OF unready(2) w] check_readiness_rest [OF unready(2)] check_in_use [OF unready(2)]
  have "in_use w" using check_readiness_Ok_services(2) [OF unready(2)] by (auto simp: in_use_def)
  moreover from this have "in_use w'" using c(6) unready(3) by (simp add: in_use_def)
  moreover have "work w' \<le> work w" using c unready by (simp add: work_def)
  moreover have "calm w'" using c(1) unready(3) by (simp add: calm_def)
  ultimately show ?thesis using unready by (simp add: todo_def)
next
  case (serve c cs w1)
  note k = check_calm [OF serve(2) w] check_readiness_rest [OF serve(2)]
  have "conn_rx w = c # cs" using k(3) serve(3) by simp
  with k serve have "work w' < work w" by (simp add: work_def stream_call_frame)
  moreover have "calm w'" using k(1) serve(4) by (simp add: calm_def stream_call_frame)
  ultimately show ?thesis by (simp add: todo_less)
qed

lemma calm_run_returns:
  "t \<or> wstate w = WAvailable \<Longrightarrow> calm w \<Longrightarrow> \<exists>r. worker_run conv now t w = Some r"
proof (induction "todo w" arbitrary: t w rule: less_induct)
  case less
  show ?case
  proof (cases "worker_step conv now t w")
    case (Continue t' w')
    with less worker_step_less [OF Continue less.prems] quiet_step [OF Continue less.prems(1)] show ?thesis
      by (subst worker_run.simps) simp
  qed (subst worker_run.simps, simp)+
qed

section \<open>Invariant\<close>

definition fut_ok :: "nat \<Rightarrow> create_fut \<Rightarrow> bool" where
  "fut_ok t fut \<longleftrightarrow> (\<forall>k s. Ready (Ok (k, s)) \<in> sset fut \<longrightarrow> k = t)"

lemma fut_okD: "fut_ok t fut \<Longrightarrow> shd fut = Ready (Ok (k, s)) \<Longrightarrow> k = t"
  unfolding fut_ok_def using shd_sset [of fut] by metis

lemma fut_ok_stl: "fut_ok t fut \<Longrightarrow> fut_ok t (stl fut)"
  unfolding fut_ok_def using sset_stl by metis

text \<open>The counter counts, every queued connection has a service, and what a factory creates again carries
  the token of what it created before; that it creates something is not assumed.\<close>

definition worker_wf :: "worker \<Rightarrow> bool" where
  "worker_wf w \<longleftrightarrow>
     unat (raw (counter w)) = 1 + length (conn_rx w) + length (live w)
     \<and> (\<forall>c \<in> set (conn_rx w). c_token c < length (services w))
     \<and> (\<forall>i < length (services w). factory_idx (services w ! i) < length (factories w)
          \<and> (\<forall>f \<in> sset (factories w ! factory_idx (services w ! i)). fut_ok i f))
     \<and> (\<forall>f t fut. wstate w = WRestarting f t fut \<longrightarrow> t < length (services w) \<and> fut_ok t fut)"

lemma worker_wfD:
  assumes "worker_wf w"
  shows "unat (raw (counter w)) = 1 + length (conn_rx w) + length (live w)"
    "c \<in> set (conn_rx w) \<Longrightarrow> c_token c < length (services w)"
    "i < length (services w) \<Longrightarrow> factory_idx (services w ! i) < length (factories w)"
    "i < length (services w) \<Longrightarrow> f \<in> sset (factories w ! factory_idx (services w ! i)) \<Longrightarrow> fut_ok i f"
    "wstate w = WRestarting g t fut \<Longrightarrow> t < length (services w) \<and> fut_ok t fut"
  using assms by (auto simp: worker_wf_def)

lemma unat_of_nat_64: "n < 2 ^ 64 \<Longrightarrow> unat (of_nat n :: usize) = n"
  by (simp add: unsigned_of_nat take_bit_nat_eq_self)

lemma wc_total_wf: "worker_wf w \<Longrightarrow> wc_total (counter w) = Ok (of_nat (length (conn_rx w) + length (live w)))"
proof -
  assume "worker_wf w"
  then have u: "unat (raw (counter w)) = 1 + length (conn_rx w) + length (live w)" by (rule worker_wfD)
  then have "raw (counter w) \<noteq> 0" by (metis add_is_0 one_neq_zero unsigned_0)
  moreover from u have "of_nat (unat (raw (counter w))) = (of_nat (1 + length (conn_rx w) + length (live w)) :: usize)"
    by simp
  ultimately show ?thesis by (simp add: wc_total_def)
qed

lemma of_nat_zero_64:
  assumes "n < 2 ^ 64"
  shows "(of_nat n :: usize) = 0 \<longleftrightarrow> n = 0"
proof
  assume "(of_nat n :: usize) = 0"
  then have "unat (of_nat n :: usize) = 0" by (simp only: unsigned_0)
  with unat_of_nat_64 [OF assms] show "n = 0" by (simp only:)
qed simp

lemma of_nat_zero_wf:
  assumes "worker_wf w"
  shows "(of_nat (length (conn_rx w) + length (live w)) :: usize) = 0 \<longleftrightarrow> conn_rx w = [] \<and> live w = []"
proof -
  have "length (conn_rx w) + length (live w) < 2 ^ 64"
    using worker_wfD(1) [OF assms] unat_lt_64 [of "raw (counter w)"] by linarith
  from of_nat_zero_64 [OF this] show ?thesis by (simp only: add_is_0 length_0_conv)
qed

lemma drop_guard_fields:
  "conn_rx (drop_guard w) = conn_rx w" "live (drop_guard w) = live w" "services (drop_guard w) = services w"
  "factories (drop_guard w) = factories w" "wstate (drop_guard w) = wstate w" "calls (drop_guard w) = calls w"
  "replies (drop_guard w) = replies w" "stop_rx (drop_guard w) = stop_rx w"
  "shutdown_timeout (drop_guard w) = shutdown_timeout w" "raw (counter (drop_guard w)) = raw (counter w) - 1"
  by (simp_all add: drop_guard_def guard_dropped_def wc_dec_def Let_def)

lemma drop_guard_counter:
  "0 < unat (raw (counter w)) \<Longrightarrow> unat (raw (counter (drop_guard w))) = unat (raw (counter w)) - 1"
  by (simp add: drop_guard_fields unat_minus_1)

text \<open>What the worker did with its queue between two states: it called the services for \<open>ds\<close>, in
  order, and dropped \<open>xs\<close>.\<close>

definition served :: "(nat \<Rightarrow> bool) \<Rightarrow> worker \<Rightarrow> bool \<Rightarrow> worker \<Rightarrow> bool" where
  "served conv w stopped w' \<longleftrightarrow> (\<exists>ds xs. conn_rx w = ds @ xs @ conn_rx w'
     \<and> calls w' = calls w @ map (\<lambda>c. (c_token c, c)) ds
     \<and> live w' = live w @ filter (\<lambda>c. conv (c_io c)) ds
     \<and> (xs \<noteq> [] \<longrightarrow> conn_rx w' = [] \<and> (stopped \<or> (\<exists>a b c. wstate w' = WShutdown a b c))))"

lemma served_trans:
  assumes "served conv w False w1" "\<not> (\<exists>a b c. wstate w1 = WShutdown a b c)" "served conv w1 b w2"
  shows "served conv w b w2"
proof -
  from assms(1,2) obtain ds where 1: "conn_rx w = ds @ conn_rx w1"
    "calls w1 = calls w @ map (\<lambda>c. (c_token c, c)) ds" "live w1 = live w @ filter (\<lambda>c. conv (c_io c)) ds"
    by (auto simp: served_def)
  from assms(3) obtain es xs where 2: "conn_rx w1 = es @ xs @ conn_rx w2"
    "calls w2 = calls w1 @ map (\<lambda>c. (c_token c, c)) es" "live w2 = live w1 @ filter (\<lambda>c. conv (c_io c)) es"
    "xs \<noteq> [] \<longrightarrow> conn_rx w2 = [] \<and> (b \<or> (\<exists>a b c. wstate w2 = WShutdown a b c))"
    unfolding served_def by blast
  from 1 2 show ?thesis unfolding served_def by (intro exI [of _ "ds @ es"] exI [of _ xs]) simp
qed

lemma served_same: "conn_rx w' = conn_rx w \<Longrightarrow> calls w' = calls w \<Longrightarrow> live w' = live w \<Longrightarrow> served conv w b w'"
  by (simp add: served_def)

text \<open>How a poll ends.\<close>

definition ended :: "nat \<Rightarrow> worker \<Rightarrow> bool \<Rightarrow> worker \<Rightarrow> bool" where
  "ended now w stopped w' \<longleftrightarrow>
     (if stopped then
        \<exists>tx r. replies w' = replies w @ [(tx, r)] \<and> (r \<longleftrightarrow> live w' = [] \<and> conn_rx w' = [])
          \<and> (\<not> r \<longrightarrow> (False, tx) \<in> set (stop_rx w)
               \<or> (\<exists>timer start. wstate w = WShutdown timer start tx \<and> timer \<le> now
                    \<and> shutdown_timeout w \<le> now - start))
      else replies w' = replies w)"

lemma drop_conns_ok:
  "worker_wf w \<Longrightarrow> cs = conn_rx w \<Longrightarrow>
     worker_wf (drop_conns cs w) \<and> conn_rx (drop_conns cs w) = [] \<and> live (drop_conns cs w) = live w
     \<and> calls (drop_conns cs w) = calls w \<and> replies (drop_conns cs w) = replies w
     \<and> wstate (drop_conns cs w) = wstate w \<and> shutdown_timeout (drop_conns cs w) = shutdown_timeout w"
proof (induction cs arbitrary: w)
  case (Cons c cs)
  let ?w1 = "drop_guard (w\<lparr>conn_rx := cs\<rparr>)"
  have "unat (raw (counter w)) = 1 + length (conn_rx w) + length (live w)" by (rule worker_wfD(1) [OF Cons.prems(1)])
  then have "unat (raw (counter ?w1)) = 1 + length cs + length (live w)"
    using drop_guard_counter [of "w\<lparr>conn_rx := cs\<rparr>"] Cons.prems(2) [symmetric] by simp
  moreover have "set cs \<subseteq> set (conn_rx w)" using Cons.prems(2) [symmetric] by auto
  ultimately have "worker_wf ?w1"
    using Cons.prems(1) by (auto simp: worker_wf_def drop_guard_fields)
  with Cons.IH [of ?w1] show ?case by (simp add: drop_guard_fields)
qed simp

text \<open>The invariant only reads some fields.\<close>

lemma worker_wf_cong:
  assumes "worker_wf w" "counter w' = counter w" "conn_rx w' = conn_rx w" "live w' = live w"
    "map factory_idx (services w') = map factory_idx (services w)" "factories w' = factories w"
    "\<And>f t fut. wstate w' = WRestarting f t fut \<Longrightarrow> t < length (services w) \<and> fut_ok t fut"
  shows "worker_wf w'"
proof -
  have len: "length (services w') = length (services w)" using assms(5) by (metis length_map)
  have "factory_idx (services w' ! i) = factory_idx (services w ! i)" if "i < length (services w)" for i
    using assms(5) len that by (metis nth_map)
  with assms len show ?thesis by (simp add: worker_wf_def)
qed

lemma restart_service_ok:
  assumes wf: "worker_wf w" and i: "i < length (services w)" and f: "f = factory_idx (services w ! i)"
  obtains w' where "restart_service i f w = Ok w'" "worker_wf w'" "wstate w' = WRestarting f i (shd (factories w ! f))"
    "conn_rx w' = conn_rx w" "calls w' = calls w" "live w' = live w" "replies w' = replies w"
    "stop_rx w' = stop_rx w" "shutdown_timeout w' = shutdown_timeout w"
proof -
  have fl: "f < length (factories w)" using worker_wfD(3) [OF wf i] f by simp
  let ?futs = "factories w ! f"
  let ?w' = "w\<lparr>services := (services w)[i := (services w ! i)\<lparr>status := SRestarting\<rparr>],
                 factories := (factories w)[f := stl ?futs], wstate := WRestarting f i (shd ?futs)\<rparr>"
  have r: "restart_service i f w = Ok ?w'" using fl i by (simp add: restart_service_def ask_def)
  have idx: "factory_idx (services ?w' ! j) = factory_idx (services w ! j)" for j
    using i by (cases "j = i") auto
  have "fut_ok i (shd ?futs)" using worker_wfD(4) [OF wf i] f shd_sset [of ?futs] by simp
  moreover have "\<forall>g \<in> sset ((factories w)[f := stl ?futs] ! factory_idx (services w ! j)). fut_ok j g"
    if "j < length (services w)" for j
    using worker_wfD(4) [OF wf that] fl
    by (cases "factory_idx (services w ! j) = f") (auto dest: sset_stl)
  ultimately have "worker_wf ?w'" using wf idx i by (auto simp: worker_wf_def)
  with r that show thesis by simp
qed

section \<open>One step\<close>

definition step_ok :: "(nat \<Rightarrow> bool) \<Rightarrow> nat \<Rightarrow> worker \<Rightarrow> wnext \<Rightarrow> bool" where
  "step_ok conv now w n \<longleftrightarrow>
     (case n of
        Panicked p \<Rightarrow> p = ExplicitPanic \<and> (\<exists>f k fut. wstate w = WRestarting f k fut \<and> shd fut = Ready (Err ()))
      | Return b w' \<Rightarrow> worker_wf w' \<and> served conv w b w' \<and> ended now w b w'
      | Continue t w' \<Rightarrow> worker_wf w' \<and> served conv w False w' \<and> \<not> (\<exists>a b c. wstate w' = WShutdown a b c)
          \<and> replies w' = replies w \<and> stop_rx w' = stop_rx w)"

lemma check_readiness_wf:
  assumes c: "check_readiness w = (r, w1)" and wf: "worker_wf w"
  shows "worker_wf w1 \<and> conn_rx w1 = conn_rx w \<and> calls w1 = calls w \<and> live w1 = live w \<and> wstate w1 = wstate w
    \<and> replies w1 = replies w \<and> stop_rx w1 = stop_rx w"
proof -
  note fs = check_readiness_fields [OF c]
  have e: "counter w1 = counter w" "conn_rx w1 = conn_rx w" "live w1 = live w" "factories w1 = factories w"
    "wstate w1 = wstate w" "calls w1 = calls w" "replies w1 = replies w" "stop_rx w1 = stop_rx w"
    by (subst fs(1), simp)+
  have "worker_wf w1"
    by (rule worker_wf_cong [OF wf e(1-3) fs(2) e(4)]) (use worker_wfD(5) [OF wf] e(5) in auto)
  with e show ?thesis by simp
qed

lemma check_then_restart:
  assumes wf: "worker_wf w" and c: "check_readiness w = (Err (k, f), w1)"
  shows "\<exists>w2. restart_service k f w1 = Ok w2 \<and> step_ok conv now w (Continue True w2)"
proof -
  note cw = check_readiness_wf [OF c wf]
  from check_readiness_Err_services(1,2) [OF c] check_readiness_fields(2,3) [OF c]
  have k: "k < length (services w1)" "f = factory_idx (services w1 ! k)" by (simp_all, metis length_map nth_map)
  obtain w2 where w2: "restart_service k f w1 = Ok w2" "worker_wf w2"
    "wstate w2 = WRestarting f k (shd (factories w1 ! f))"
    "conn_rx w2 = conn_rx w1" "calls w2 = calls w1" "live w2 = live w1" "replies w2 = replies w1"
    "stop_rx w2 = stop_rx w1"
    by (rule restart_service_ok [OF conjunct1 [OF cw] k])
  with cw show ?thesis by (auto simp: step_ok_def intro!: served_same)
qed

lemma poll_unavailable_ok:
  assumes "worker_wf w" "wstate w = WUnavailable"
  shows "step_ok conv now w (poll_unavailable w)"
proof (cases "check_readiness w")
  case (Pair r w1)
  show ?thesis
  proof (cases r)
    case (Err kf)
    obtain k f where "kf = (k, f)" by force
    with Pair Err check_then_restart [OF assms(1), of k f w1 conv now] show ?thesis
      by (auto simp: poll_unavailable_def)
  next
    case (Ok b)
    note cw = check_readiness_wf [OF Pair assms(1)]
    have "worker_wf (w1\<lparr>wstate := WAvailable\<rparr>)"
      by (rule worker_wf_cong [of w1]) (use cw in auto)
    with Pair Ok cw show ?thesis
      by (auto simp: poll_unavailable_def step_ok_def ended_def intro!: served_same)
  qed
qed

lemma poll_restarting_ok:
  assumes wf: "worker_wf w" and st: "wstate w = WRestarting f t fut"
  shows "step_ok conv now w (poll_restarting f t fut w)"
proof -
  from worker_wfD(5) [OF wf st] have t: "t < length (services w)" "fut_ok t fut" by simp_all
  consider "shd fut = Pending" | "shd fut = Ready (Err ())" | s where "shd fut = Ready (Ok (t, s))"
  proof (cases "shd fut")
    case (Ready a)
    then show ?thesis using that fut_okD [OF t(2)] by (cases a) auto
  qed (use that in simp)
  then show ?thesis
  proof cases
    case 1
    have "worker_wf (w\<lparr>wstate := WRestarting f t (stl fut)\<rparr>)"
      by (rule worker_wf_cong [OF wf]) (use t fut_ok_stl in auto)
    with 1 show ?thesis by (auto simp: poll_restarting_def ask_def step_ok_def ended_def intro!: served_same)
  next
    case 2
    with st show ?thesis by (simp add: poll_restarting_def ask_def step_ok_def)
  next
    case (3 s)
    have "map factory_idx ((services w)[t := created s (services w ! t)]) = map factory_idx (services w)"
      by (simp add: map_update list_update_same_conv t(1) created_def)
    then have "worker_wf (w\<lparr>services := (services w)[t := created s (services w ! t)], wstate := WUnavailable\<rparr>)"
      by (intro worker_wf_cong [OF wf]) auto
    with 3 t show ?thesis by (auto simp: poll_restarting_def ask_def step_ok_def intro!: served_same)
  qed
qed

lemma stream_call_wf:
  assumes wf: "worker_wf w" and c: "conn_rx w = c # cs"
  shows "worker_wf (stream_call conv c (w\<lparr>conn_rx := cs, calls := k\<rparr>))
    \<and> live (stream_call conv c (w\<lparr>conn_rx := cs, calls := k\<rparr>)) = live w @ filter (\<lambda>c. conv (c_io c)) [c]
    \<and> calls (stream_call conv c (w\<lparr>conn_rx := cs, calls := k\<rparr>)) = k
    \<and> replies (stream_call conv c (w\<lparr>conn_rx := cs, calls := k\<rparr>)) = replies w"
proof (cases "conv (c_io c)")
  case True
  with wf c show ?thesis by (auto simp: worker_wf_def stream_call_def)
next
  case False
  have u: "unat (raw (counter w)) = 2 + length cs + length (live w)" using worker_wfD(1) [OF wf] c by simp
  then have "unat (raw (counter (drop_guard (w\<lparr>conn_rx := cs, calls := k\<rparr>)))) = 1 + length cs + length (live w)"
    using drop_guard_counter [of "w\<lparr>conn_rx := cs, calls := k\<rparr>"] by simp
  with False wf c show ?thesis by (auto simp: worker_wf_def stream_call_def drop_guard_fields)
qed

lemma poll_available_ok:
  assumes wf: "worker_wf w" and st: "wstate w = WAvailable"
  shows "step_ok conv now w (poll_available conv w)"
proof (cases "check_readiness w")
  case (Pair r w1)
  show ?thesis
  proof (cases r)
    case (Err kf)
    obtain k f where "kf = (k, f)" by force
    with Pair Err check_then_restart [OF assms(1), of k f w1 conv now] show ?thesis
      by (auto simp: poll_available_def)
  next
    case (Ok b)
    note cw = check_readiness_wf [OF Pair wf]
    show ?thesis
    proof (cases b)
      case False
      have "worker_wf (w1\<lparr>wstate := WUnavailable\<rparr>)" by (rule worker_wf_cong [of w1]) (use cw in auto)
      with Pair Ok cw False show ?thesis by (auto simp: poll_available_def step_ok_def intro!: served_same)
    next
      case True
      show ?thesis
      proof (cases "conn_rx w1")
        case Nil
        with Pair Ok cw True show ?thesis
          by (auto simp: poll_available_def step_ok_def ended_def intro!: served_same)
      next
        case (Cons c cs)
        let ?w2 = "stream_call conv c (w1\<lparr>conn_rx := cs, calls := calls w1 @ [(c_token c, c)]\<rparr>)"
        have t: "\<not> length (services w1) \<le> c_token c" using worker_wfD(2) [of w1 c] cw Cons by (metis list.set_intros(1) not_le)
        have q: "conn_rx ?w2 = cs" "conn_rx w = c # cs" using cw Cons by (simp_all add: stream_call_frame)
        have "live ?w2 = live w @ filter (\<lambda>c. conv (c_io c)) [c]" "calls ?w2 = calls w @ [(c_token c, c)]"
          using stream_call_wf [of w1 c cs conv "calls w1 @ [(c_token c, c)]"] cw Cons by simp_all
        with q have "served conv w False ?w2" unfolding served_def
          by (intro exI [of _ "[c]"] exI [of _ "[]"]) simp
        moreover have "worker_wf ?w2" "replies ?w2 = replies w"
          using stream_call_wf [of w1 c cs conv "calls w1 @ [(c_token c, c)]"] cw Cons by simp_all
        moreover have "wstate ?w2 = WAvailable" "stop_rx ?w2 = stop_rx w"
          using cw st by (simp_all add: stream_call_frame)
        moreover have "poll_available conv w = Continue False ?w2"
          using Pair Ok True t Cons by (simp add: poll_available_def)
        ultimately show ?thesis by (simp add: step_ok_def)
      qed
    qed
  qed
qed

lemma poll_shutdown_ok:
  assumes wf: "worker_wf w" and st: "wstate w = WShutdown timer start tx"
  shows "step_ok conv now w (poll_shutdown now timer start tx w)"
proof -
  let ?w1 = "drop_conns (conn_rx w) w"
  note d = drop_conns_ok [OF wf refl]
  have tot: "wc_total (counter ?w1) = Ok (of_nat (length (conn_rx ?w1) + length (live ?w1)))"
    using wc_total_wf d by blast
  have z: "(of_nat (length (conn_rx ?w1) + length (live ?w1)) :: usize) = 0 \<longleftrightarrow> live w = []"
    using of_nat_zero_wf [of ?w1] d by simp
  have sv: "served conv w b w'" if "conn_rx w' = []" "live w' = live w" "calls w' = calls w"
    "b \<or> (\<exists>a b c. wstate w' = WShutdown a b c)" for w' b
    using that unfolding served_def by (intro exI [of _ "[]"] exI [of _ "conn_rx w"]) simp
  have wf': "worker_wf (?w1\<lparr>wstate := s, replies := r\<rparr>)" if "\<forall>f t fut. s \<noteq> WRestarting f t fut" for s r
    by (rule worker_wf_cong [of ?w1]) (use d that in auto)
  have wf'': "worker_wf (?w1\<lparr>wstate := s\<rparr>)" if "\<forall>f t fut. s \<noteq> WRestarting f t fut" for s
    by (rule worker_wf_cong [of ?w1]) (use d that in auto)
  consider "now < timer" | "timer \<le> now" "live w = []"
    | "timer \<le> now" "live w \<noteq> []" "shutdown_timeout w \<le> now - start"
    | "timer \<le> now" "live w \<noteq> []" "\<not> shutdown_timeout w \<le> now - start" by linarith
  then show ?thesis
  proof cases
    case 1
    with d st sv [of ?w1 False] show ?thesis by (simp add: poll_shutdown_def Let_def step_ok_def ended_def)
  next
    case 2
    have "poll_shutdown now timer start tx w
        = Return True (?w1\<lparr>wstate := WUnavailable, replies := replies ?w1 @ [(tx, True)]\<rparr>)"
      using 2 tot z by (simp add: poll_shutdown_def Let_def del: of_nat_add)
    with 2 d wf' sv show ?thesis by (simp add: step_ok_def ended_def)
  next
    case 3
    have "poll_shutdown now timer start tx w
        = Return True (?w1\<lparr>wstate := WUnavailable, replies := replies ?w1 @ [(tx, False)]\<rparr>)"
      using 3 tot z d by (simp add: poll_shutdown_def Let_def del: of_nat_add)
    with 3 d wf' sv st show ?thesis by (simp add: step_ok_def ended_def)
  next
    case 4
    have "poll_shutdown now timer start tx w
        = Return False (?w1\<lparr>wstate := WShutdown (now + SHUTDOWN_POLL_INTERVAL) start tx\<rparr>)"
      using 4 tot z d by (simp add: poll_shutdown_def Let_def del: of_nat_add)
    with 4 d wf'' sv show ?thesis by (simp add: step_ok_def ended_def)
  qed
qed

lemma shutdown_fields:
  "map factory_idx (services (shutdown f w)) = map factory_idx (services w)" "counter (shutdown f w) = counter w"
  "conn_rx (shutdown f w) = conn_rx w" "live (shutdown f w) = live w" "factories (shutdown f w) = factories w"
  "calls (shutdown f w) = calls w" "replies (shutdown f w) = replies w" "wstate (shutdown f w) = wstate w"
  "stop_rx (shutdown f w) = stop_rx w"
  by (auto simp: shutdown_def)

text \<open>The stop message: either the poll ends with its reply, or the worker goes on as it was, or it
  enters the graceful shutdown.\<close>

lemma handle_stop_ok:
  assumes wf: "worker_wf w"
  shows "(stop_rx w = [] \<and> handle_stop now w = Ok (Inr w))
    \<or> (\<exists>w1. handle_stop now w = Ok (Inl w1) \<and> worker_wf w1 \<and> served conv w True w1 \<and> ended now w True w1)
    \<or> (\<exists>w1 tx. handle_stop now w = Ok (Inr w1) \<and> worker_wf w1 \<and> wstate w1 = WShutdown (now + 1000) now tx
         \<and> conn_rx w1 = conn_rx w \<and> live w1 = live w \<and> calls w1 = calls w \<and> replies w1 = replies w)"
proof (cases "stop_rx w")
  case Nil
  then show ?thesis by (simp add: handle_stop_def)
next
  case (Cons m rest)
  obtain g tx where m: "m = (g, tx)" by force
  note tot = wc_total_wf [OF wf] and z = of_nat_zero_wf [OF wf]
  let ?idle = "conn_rx w = [] \<and> live w = []"
  have wf1: "worker_wf (w\<lparr>stop_rx := rest, replies := r\<rparr>)" for r
    by (rule worker_wf_cong [OF wf]) (use worker_wfD(5) [OF wf] in auto)
  have wf2: "worker_wf ((shutdown True (w\<lparr>stop_rx := rest\<rparr>))\<lparr>replies := r\<rparr>)" for r
    by (rule worker_wf_cong [OF wf]) (use worker_wfD(5) [OF wf] in \<open>auto simp: shutdown_fields\<close>)
  have wf3: "worker_wf ((shutdown False (w\<lparr>stop_rx := rest\<rparr>))\<lparr>wstate := WShutdown a b c\<rparr>)" for a b c
    by (rule worker_wf_cong [OF wf]) (auto simp: shutdown_fields)
  consider "?idle" | "\<not> ?idle" "g" | "\<not> ?idle" "\<not> g" by blast
  then show ?thesis
  proof cases
    case 1
    have "handle_stop now w = Ok (Inl (w\<lparr>stop_rx := rest, replies := replies w @ [(tx, True)]\<rparr>))"
      using Cons m tot 1 by (simp add: handle_stop_def Let_def)
    with 1 wf1 show ?thesis by (auto simp: ended_def intro!: served_same)
  next
    case 2
    have "handle_stop now w = Ok (Inr ((shutdown False (w\<lparr>stop_rx := rest\<rparr>))
        \<lparr>wstate := WShutdown (now + SHUTDOWN_POLL_INTERVAL) now tx\<rparr>))"
      using Cons m tot z 2 by (simp add: handle_stop_def Let_def del: of_nat_add)
    with wf3 show ?thesis by (auto simp: shutdown_fields SHUTDOWN_POLL_INTERVAL_def)
  next
    case 3
    have "handle_stop now w = Ok (Inl ((shutdown True (w\<lparr>stop_rx := rest\<rparr>))\<lparr>replies := replies w @ [(tx, False)]\<rparr>))"
      using Cons m tot z 3 by (simp add: handle_stop_def Let_def shutdown_fields del: of_nat_add)
    with 3 wf2 Cons m show ?thesis by (auto simp: ended_def shutdown_fields intro!: served_same)
  qed
qed

lemma worker_step_ok:
  assumes wf: "worker_wf w" and t: "t \<or> wstate w = WAvailable"
  shows "step_ok conv now w (worker_step conv now t w)"
proof (cases t)
  case False
  with poll_available_ok [OF wf] t show ?thesis by (simp add: worker_step_def)
next
  case True
  from handle_stop_ok [OF wf, of now conv] show ?thesis
  proof (elim disjE exE conjE)
    assume h: "stop_rx w = []" "handle_stop now w = Ok (Inr w)"
    show ?thesis
      using poll_unavailable_ok [OF wf, of conv now] poll_restarting_ok [OF wf, of _ _ _ conv now]
        poll_shutdown_ok [OF wf, of _ _ _ conv now] poll_available_ok [OF wf, of conv now] h True
      by (cases "wstate w") (simp_all add: worker_step_def)
  next
    fix w1 assume "handle_stop now w = Ok (Inl w1)" "worker_wf w1" "served conv w True w1" "ended now w True w1"
    with True show ?thesis by (simp add: worker_step_def step_ok_def)
  next
    fix w1 tx assume h: "handle_stop now w = Ok (Inr w1)" "worker_wf w1" "wstate w1 = WShutdown (now + 1000) now tx"
      "conn_rx w1 = conn_rx w" "live w1 = live w" "calls w1 = calls w" "replies w1 = replies w"
    have "poll_shutdown now (now + 1000) now tx w1 = Return False (drop_conns (conn_rx w1) w1)"
      by (simp add: poll_shutdown_def Let_def)
    with poll_shutdown_ok [OF h(2,3), of conv now] h True show ?thesis
      by (simp add: worker_step_def step_ok_def served_def ended_def)
  qed
qed

text \<open>How a poll ends.\<close>

lemma worker_run_ok:
  assumes "worker_run conv now t w = Some r" and "worker_wf w" and "t \<or> wstate w = WAvailable"
  shows "case r of
      Ok (b, w') \<Rightarrow> worker_wf w' \<and> served conv w b w' \<and> ended now w b w'
    | Err p \<Rightarrow> p = ExplicitPanic \<and> (\<exists>n t1 w1 f k fut. poll_steps conv now n t w = Some (t1, w1)
        \<and> wstate w1 = WRestarting f k fut \<and> shd fut = Ready (Err ()))"
  using assms
proof (induction rule: worker_run_induct)
  case (Return t w b w1)
  with worker_step_ok [OF Return.prems, of conv now] show ?case by (simp add: step_ok_def)
next
  case (Panicked t w p)
  with worker_step_ok [OF Panicked.prems, of conv now] show ?case
    by (simp add: step_ok_def) (metis poll_steps.simps(1))
next
  case (Continue t w t1 w1 r)
  note ok = worker_step_ok [OF Continue.prems, of conv now]
  from ok Continue(1) have w1: "worker_wf w1" "served conv w False w1"
    "\<not> (\<exists>a b c. wstate w1 = WShutdown a b c)" "replies w1 = replies w" "stop_rx w1 = stop_rx w"
    by (simp_all add: step_ok_def)
  have IH: "case r of
      Ok (b, w') \<Rightarrow> worker_wf w' \<and> served conv w1 b w' \<and> ended now w1 b w'
    | Err p \<Rightarrow> p = ExplicitPanic \<and> (\<exists>n t2 w2 f k fut. poll_steps conv now n t1 w1 = Some (t2, w2)
        \<and> wstate w2 = WRestarting f k fut \<and> shd fut = Ready (Err ()))"
    using Continue.IH [OF w1(1)] quiet_step [OF Continue(1) Continue.prems(2)] by blast
  show ?case
  proof (cases r)
    case (Ok bw)
    obtain b w' where bw: "bw = (b, w')" by force
    with IH Ok have r: "worker_wf w'" "served conv w1 b w'" "ended now w1 b w'" by simp_all
    have "ended now w b w'" using r(3) w1(3-5) by (auto simp: ended_def split: if_splits)
    with Ok bw r served_trans [OF w1(2,3) r(2)] show ?thesis by simp
  next
    case (Err p)
    with IH obtain n t2 w2 f k fut where n: "p = ExplicitPanic" "poll_steps conv now n t1 w1 = Some (t2, w2)"
      "wstate w2 = WRestarting f k fut" "shd fut = Ready (Err ())" by auto
    then have "poll_steps conv now (Suc n) t w = Some (t2, w2)"
      using Continue(1) by (simp add: poll_steps_Suc del: poll_steps.simps)
    with n(1,3,4) show ?thesis by (auto simp: Err intro!: exI [of _ "Suc n"])
  qed
qed

lemma worker_poll_ok:
  assumes "worker_wf w" "worker_poll conv now w = Some (Ok (b, w'))"
  shows "worker_wf w'" "served conv w b w'" "ended now w b w'"
  using worker_run_ok [of conv now True w "Ok (b, w')"] assms by (simp_all add: worker_poll_def)

lemma worker_poll_panic:
  assumes "worker_wf w" "worker_poll conv now w = Some (Err p)"
  shows "p = ExplicitPanic" "restart_fails conv now w"
  using worker_run_ok [of conv now True w "Err p"] assms by (simp_all add: worker_poll_def restart_fails_def)

text \<open>Calm services: every poll returns, and leaves them calm.\<close>

lemma calm_no_panic:
  assumes "calm w" "poll_steps conv now n t w = Some (t1, w1)" "t \<or> wstate w = WAvailable"
  shows "calm w1 \<and> (t1 \<or> wstate w1 = WAvailable)"
  using assms
proof (induction n arbitrary: t1 w1)
  case (Suc n)
  then obtain t2 w2 where s: "poll_steps conv now n t w = Some (t2, w2)" "worker_step conv now t2 w2 = Continue t1 w1"
    by (auto split: option.splits wnext.splits)
  from Suc.IH [OF Suc.prems(1) s(1) Suc.prems(3)] have c: "calm w2" "t2 \<or> wstate w2 = WAvailable" by simp_all
  from worker_step_less [OF s(2) c(2,1)] quiet_step [OF s(2) c(2)] show ?case by simp
qed simp

lemma calm_not_failing: "calm w \<Longrightarrow> \<not> restart_fails conv now w"
proof
  assume w: "calm w" and "restart_fails conv now w"
  then obtain n t w1 f k fut where n: "poll_steps conv now n True w = Some (t, w1)"
    "wstate w1 = WRestarting f k fut" "shd fut = Ready (Err ())" by (auto simp: restart_fails_def)
  from calm_no_panic [OF w n(1)] n(2) have "calm_fut fut" by (simp add: calm_def)
  from calm_fut_shd [OF this] n(3) show False by simp
qed

lemma calm_poll_returns:
  assumes "worker_wf w" "calm w"
  obtains b w' where "worker_poll conv now w = Some (Ok (b, w'))"
proof -
  obtain r where r: "worker_poll conv now w = Some r"
    using calm_run_returns [of True w conv now] assms(2) by (auto simp: worker_poll_def)
  with worker_poll_panic(2) [OF assms(1)] calm_not_failing [OF assms(2)] that show thesis
    by (cases r) auto
qed

section \<open>The worker and its environment\<close>

text \<open>The accept thread sends (\<open>WorkerHandleAccept::send\<close>), handlers finish, the server requests a stop,
  and the runtime polls.\<close>

inductive worker_env :: "(nat \<Rightarrow> bool) \<Rightarrow> worker \<Rightarrow> worker \<Rightarrow> bool" for conv where
  env_send: "c_token c < length (services w) \<Longrightarrow> length (conn_rx w) + length (live w) + 2 < 2 ^ 64 \<Longrightarrow>
     worker_env conv w (w\<lparr>counter := snd (wc_inc (counter w)), conn_rx := conn_rx w @ [c]\<rparr>)"
| env_done: "i < length (live w) \<Longrightarrow> worker_env conv w (handler_done i w)"
| env_stop: "worker_env conv w (w\<lparr>stop_rx := stop_rx w @ [(graceful, tx)]\<rparr>)"
| env_poll: "worker_poll conv now w = Some (Ok (False, w')) \<Longrightarrow> worker_env conv w w'"

inductive worker_reachable :: "(nat \<Rightarrow> bool) \<Rightarrow> worker \<Rightarrow> worker \<Rightarrow> bool" for conv w0 where
  wr_start: "worker_reachable conv w0 w0"
| wr_step: "worker_reachable conv w0 w \<Longrightarrow> worker_env conv w w' \<Longrightarrow> worker_reachable conv w0 w'"

inductive_cases worker_envE: "worker_env conv w w'"

lemma handler_done_wf: "worker_wf w \<Longrightarrow> i < length (live w) \<Longrightarrow> worker_wf (handler_done i w)"
proof -
  assume wf: "worker_wf w" and i: "i < length (live w)"
  let ?w1 = "w\<lparr>live := take i (live w) @ drop (Suc i) (live w)\<rparr>"
  have "unat (raw (counter w)) = 1 + length (conn_rx w) + length (live w)" by (rule worker_wfD(1) [OF wf])
  then have "unat (raw (counter (drop_guard ?w1))) = 1 + length (conn_rx w) + (length (live w) - 1)"
    using drop_guard_counter [of ?w1] i by simp
  with wf i show ?thesis by (auto simp: worker_wf_def handler_done_def drop_guard_fields)
qed

lemma worker_env_wf [inv_intros]: "worker_env conv w w' \<Longrightarrow> worker_wf w \<Longrightarrow> worker_wf w'"
proof (induction rule: worker_env.induct)
  case (env_send c w)
  from worker_wfD(1) [OF env_send(3)] env_send(2)
  have "unat (raw (counter w) + 1) = 2 + length (conn_rx w) + length (live w)"
    using unat_suc [of "raw (counter w)"] by simp
  with env_send show ?case by (auto simp: worker_wf_def wc_inc_def Let_def)
next
  case (env_done i w)
  then show ?case by (rule handler_done_wf [rotated])
next
  case (env_stop w g tx)
  then show ?case by (simp add: worker_wf_def)
next
  case (env_poll now w w')
  from worker_poll_ok(1) [OF env_poll(2,1)] show ?case .
qed

lemma worker_reachable_wf: "worker_reachable conv w0 w \<Longrightarrow> worker_wf w0 \<Longrightarrow> worker_wf w"
  by (induction rule: worker_reachable.induct) (auto intro: inv_intros)

lemma wrap_from_ok:
  "wrap_from i ss = Ok srvs \<Longrightarrow> length srvs = length ss
     \<and> (\<forall>k < length ss. fst (snd (ss ! k)) = i + k \<and> factory_idx (srvs ! k) = fst (ss ! k)
          \<and> status (srvs ! k) = SUnavailable \<and> service (srvs ! k) = snd (snd (ss ! k)))"
proof (induction i ss arbitrary: srvs rule: wrap_from.induct)
  case (2 p idx t s rest)
  then obtain rs where rs: "wrap_from (Suc p) rest = Ok rs" "t = p"
    "srvs = \<lparr>factory_idx = idx, status = SUnavailable, service = s\<rparr> # rs"
    by (cases "wrap_from (Suc p) rest") (auto split: if_splits)
  from 2(1) [OF _ rs(1)] rs show ?case by (auto simp: nth_Cons split: nat.splits)
qed simp

text \<open>Factories fit the services they made: what they create again carries the same token.  Calm ones are
  calm with the services they made.\<close>

definition factories_ok :: "create_fut stream list \<Rightarrow> (nat \<times> nat \<times> svc) list \<Rightarrow> bool" where
  "factories_ok fs ss \<longleftrightarrow> (\<forall>k < length ss. fst (ss ! k) < length fs \<and> (\<forall>f \<in> sset (fs ! fst (ss ! k)). fut_ok k f))"

definition factories_calm :: "create_fut stream list \<Rightarrow> (nat \<times> nat \<times> svc) list \<Rightarrow> bool" where
  "factories_calm fs ss \<longleftrightarrow> (\<forall>f \<in> set fs. calm_factory f) \<and> (\<forall>(idx, tok, s) \<in> set ss. calm_svc s)"

lemma spawn_worker_wf:
  "spawn_worker i l t fs ss = Ok w \<Longrightarrow> factories_ok fs ss \<Longrightarrow> worker_wf w"
  by (cases "wrap_from 0 ss")
    (auto simp: spawn_worker_def wrap_worker_services_def worker_wf_def factories_ok_def wc_new_def
      dest: wrap_from_ok)

lemma spawn_worker_calm:
  assumes "spawn_worker i l t fs ss = Ok w" "factories_calm fs ss"
  shows "calm w"
proof -
  from assms(1) obtain srvs where w: "wrap_from 0 ss = Ok srvs" "services w = srvs" "factories w = fs" "wstate w = WUnavailable"
    by (cases "wrap_from 0 ss") (auto simp: spawn_worker_def wrap_worker_services_def)
  note srvs = wrap_from_ok [OF w(1)]
  have "calm_svc (service srv)" if "srv \<in> set srvs" for srv
  proof -
    from that obtain k where k: "k < length ss" "srv = srvs ! k" using srvs by (metis in_set_conv_nth)
    obtain idx tok s where e: "ss ! k = (idx, tok, s)" by (cases "ss ! k")
    with k(1) have "(idx, tok, s) \<in> set ss" by (metis nth_mem)
    then have "calm_svc s" using assms(2) by (auto simp: factories_calm_def)
    then show ?thesis using srvs k e by simp
  qed
  with w assms(2) show ?thesis by (simp add: calm_def factories_calm_def)
qed

text \<open>Calm workers stay calm.\<close>

lemma calm_cong:
  assumes "calm w" "service ` set (services w') \<subseteq> service ` set (services w)" "factories w' = factories w"
    "wstate w' = wstate w \<or> (\<forall>f t fut. wstate w' \<noteq> WRestarting f t fut)"
  shows "calm w'"
proof -
  have "calm_svc (service srv)" if "srv \<in> set (services w')" for srv
    using that assms(1,2) unfolding calm_def by (metis image_iff image_subset_iff)
  with assms show ?thesis by (auto simp: calm_def)
qed

lemma handle_stop_calm:
  assumes "handle_stop now w = Ok (Inl w1) \<or> handle_stop now w = Ok (Inr w1)" "calm w"
  shows "calm w1"
proof (rule calm_cong [OF assms(2)])
  show "service ` set (services w1) \<subseteq> service ` set (services w)" "factories w1 = factories w"
    "wstate w1 = wstate w \<or> (\<forall>f t fut. wstate w1 \<noteq> WRestarting f t fut)"
    using assms(1) by (auto simp: handle_stop_def shutdown_def Let_def split: list.splits result.splits if_splits)
qed

lemma drop_conns_frame:
  "services (drop_conns cs w) = services w" "factories (drop_conns cs w) = factories w" "wstate (drop_conns cs w) = wstate w"
  by (induction cs arbitrary: w) (simp_all add: drop_guard_fields)

lemma worker_step_Return_calm:
  assumes "worker_step conv now t w = Return b w'" "calm w"
  shows "calm w'"
proof -
  have av: "calm w'" if "poll_available conv w1 = Return b w'" "calm w1" for w1
    using that check_calm [of w1] by (auto simp: poll_available_def split: prod.splits result.splits if_splits list.splits)
  have un: "calm w'" if "poll_unavailable w1 = Return b w'" "calm w1" for w1
    using that check_calm [of w1] by (auto simp: poll_unavailable_def split: prod.splits result.splits if_splits)
  have re: "calm w'" if "poll_restarting f k fut w1 = Return b w'" "calm w1" "wstate w1 = WRestarting f k fut" for w1 f k fut
    using that total_fut(2) [of fut]
    by (auto simp: poll_restarting_def ask_def calm_def split: poll.splits result.splits if_splits)
  have sh: "calm w'" if "poll_shutdown now x y z w1 = Return b w'" "calm w1" for w1 x y z
  proof (rule calm_cong [OF that(2)])
    show "service ` set (services w') \<subseteq> service ` set (services w1)" "factories w' = factories w1"
      "wstate w' = wstate w1 \<or> (\<forall>f t fut. wstate w' \<noteq> WRestarting f t fut)"
      using that(1) by (auto simp: poll_shutdown_def Let_def drop_conns_frame split: result.splits if_splits)
  qed
  show ?thesis
  proof (cases t)
    case False
    with assms av show ?thesis by (simp add: worker_step_def)
  next
    case True
    with assms obtain r where r: "handle_stop now w = Ok r" by (auto simp: worker_step_def split: result.splits)
    show ?thesis
    proof (cases r)
      case (Inl w1)
      with True r assms handle_stop_calm [of now w w1] show ?thesis by (simp add: worker_step_def)
    next
      case (Inr w1)
      with r assms(2) handle_stop_calm [of now w w1] have "calm w1" by simp
      with True r Inr assms(1) av [of w1] un [of w1] re [of _ _ _ w1] sh [of _ _ _ w1] show ?thesis
        by (cases "wstate w1") (simp_all add: worker_step_def)
    qed
  qed
qed

lemma calm_run_calm:
  assumes "worker_run conv now t w = Some (Ok (b, w'))" "t \<or> wstate w = WAvailable" "calm w"
  shows "calm w'"
proof -
  have "t \<or> wstate w = WAvailable \<Longrightarrow> calm w \<Longrightarrow> r = Ok (b, w') \<Longrightarrow> calm w'" if "worker_run conv now t w = Some r" for r
    using that
  proof (induction rule: worker_run_induct)
    case (Return t w b1 w1)
    with worker_step_Return_calm [OF Return(1)] show ?case by simp
  next
    case (Continue t w t1 w1 r)
    with worker_step_less [OF Continue(1)] quiet_step [OF Continue(1)] show ?case by blast
  qed simp
  with assms show ?thesis by blast
qed

lemma calm_env: "worker_env conv w w' \<Longrightarrow> calm w \<Longrightarrow> calm w'"
proof (induction rule: worker_env.induct)
  case (env_poll now w w')
  then show ?case using calm_run_calm [of conv now True w False w'] by (simp add: worker_poll_def)
qed (auto simp: calm_def handler_done_def drop_guard_fields)

section \<open>Properties\<close>

text \<open>
  C7. A poll of the worker's future, whatever its services and factories answer.  If it returns, then what
  left the queue was handed, in arrival order and each to the service of its listener's token, except
  for the connections dropped because the worker is shutting down, and the worker is still well formed.
  It panics only in the restart of a service whose factory has failed.  It does not return only if services turn
  the worker away without end: again and again within the poll some service in use does not answer
  \<open>Ready(Ok)\<close>.  With calm services and factories - finitely many answers other than \<open>Pending\<close> in all,
  and no failing restart - it always returns.
\<close>

theorem worker_poll_dispatches:
  assumes "worker_wf w"
  shows "(case worker_poll conv now w of
      Some (Ok (b, w')) \<Rightarrow> worker_wf w' \<and> served conv w b w'
    | Some (Err p) \<Rightarrow> p = ExplicitPanic \<and> restart_fails conv now w
    | None \<Rightarrow> restless conv now w)
    \<and> (calm w \<longrightarrow> (\<exists>b w'. worker_poll conv now w = Some (Ok (b, w'))))"
  using worker_poll_ok [OF assms, of conv now] worker_poll_panic [OF assms, of conv now] worker_poll_restless [of conv now w]
    calm_poll_returns [OF assms, of conv now]
  by (auto split: option.split result.split)

text \<open>A worker whose service fails whenever it is asked, and is created again at once: its poll never
  returns, in the code a recursion without end.\<close>

abbreviation failing :: "create_fut stream \<Rightarrow> status \<Rightarrow> wstate \<Rightarrow> worker" where
  "failing fs st ws \<equiv> \<lparr>conn_rx = [], stop_rx = [], widx = 0, counter = \<lparr>raw = 1, limit = 9\<rparr>,
     services = [\<lparr>factory_idx = 0, status = st, service = sconst (Ready (Err ()))\<rparr>], factories = [fs],
     wstate = ws, shutdown_timeout = 30000, live = [], calls = [], replies = [], notices = []\<rparr>"

abbreviation again :: create_fut where
  "again \<equiv> sconst (Ready (Ok (0, sconst (Ready (Err ())))))"

lemma cycle_never_returns:
  assumes a: "worker_step conv now True u = Continue True v" and b: "worker_step conv now True v = Continue True u"
  shows "worker_run conv now True u = None"
proof (rule ccontr)
  assume "worker_run conv now True u \<noteq> None"
  then obtain r where r: "worker_run conv now True u = Some r" by blast
  have "\<not> (t \<and> (w = u \<or> w = v))" if "worker_run conv now t w = Some r" for t w
    using that by (induction rule: worker_run_induct) (use a b in auto)
  with r show False by blast
qed

lemma poll_never_returns: "worker_poll conv now (failing (sconst again) SUnavailable WUnavailable) = None"
proof -
  have a: "worker_step conv now True (failing (sconst again) SUnavailable WUnavailable)
      = Continue True (failing (sconst again) SRestarting (WRestarting 0 0 again))"
    by (simp add: worker_step_def handle_stop_def poll_unavailable_def check_readiness_def restart_service_def
        active_def ask_def)
  have b: "worker_step conv now True (failing (sconst again) SRestarting (WRestarting 0 0 again))
      = Continue True (failing (sconst again) SUnavailable WUnavailable)"
    by (simp add: worker_step_def handle_stop_def poll_restarting_def created_def ask_def)
  show ?thesis unfolding worker_poll_def by (rule cycle_never_returns [OF a b])
qed

theorem worker_poll_dispatches_witness:
  "(\<exists>w b w'. spawn_worker 0 9 30000 [spent] [(0, 0, script [Ready (Ok ()), Ready (Ok ())])] = Ok w
     \<and> worker_poll (\<lambda>io. True) 5 w = Some (Ok (b, w')) \<and> served (\<lambda>io. True) w b w')
   \<and> restless (\<lambda>io. True) 5 (failing (sconst again) SUnavailable WUnavailable)"
proof
  let ?ss = "[(0, 0, script [Ready (Ok ()), Ready (Ok ())])]"
  obtain w where w: "spawn_worker 0 9 30000 [spent] ?ss = Ok w"
    by (simp add: spawn_worker_def wrap_worker_services_def)
  have wf: "worker_wf w" using spawn_worker_wf [OF w] by (simp add: factories_ok_def fut_ok_def)
  have "calm w" using spawn_worker_calm [OF w] by (simp add: factories_calm_def)
  with worker_poll_dispatches [OF wf, of "\<lambda>io. True" 5] w
  show "\<exists>w b w'. spawn_worker 0 9 30000 [spent] ?ss = Ok w
     \<and> worker_poll (\<lambda>io. True) 5 w = Some (Ok (b, w')) \<and> served (\<lambda>io. True) w b w'" by auto
  have "worker_wf (failing (sconst again) SUnavailable WUnavailable)"
    by (simp add: worker_wf_def fut_ok_def)
  from worker_poll_dispatches [OF this, of "\<lambda>io. True" 5] show
    "restless (\<lambda>io. True) 5 (failing (sconst again) SUnavailable WUnavailable)"
    by (simp add: poll_never_returns)
qed

text \<open>
  C15. What a stop request is told: the worker's future completes only on a stop request and answers it
  once, with \<open>true\<close> exactly when no connection is queued or being handled; \<open>false\<close> is answered only
  to a forced stop, or when the graceful shutdown has lasted at least the shutdown timeout.
\<close>

theorem worker_stop_outcome:
  assumes "worker_wf w" and "worker_poll conv now w = Some (Ok (b, w'))"
  shows "if b then \<exists>tx r. replies w' = replies w @ [(tx, r)] \<and> (r \<longleftrightarrow> live w' = [] \<and> conn_rx w' = [])
          \<and> (\<not> r \<longrightarrow> (False, tx) \<in> set (stop_rx w)
               \<or> (\<exists>timer start. wstate w = WShutdown timer start tx \<and> timer \<le> now
                    \<and> shutdown_timeout w \<le> now - start))
      else replies w' = replies w"
  using worker_poll_ok(3) [OF assms] by (simp only: ended_def)

abbreviation idle_worker :: "conn list \<Rightarrow> worker" where
  "idle_worker cs \<equiv> \<lparr>conn_rx = [], stop_rx = [(False, 3)], widx = 0, counter = \<lparr>raw = of_nat (1 + length cs), limit = 9\<rparr>,
     services = [], factories = [], wstate = WUnavailable, shutdown_timeout = 30000, live = cs,
     calls = [], replies = [], notices = []\<rparr>"

lemma idle_worker_poll:
  "worker_poll conv now (idle_worker []) = Some (Ok (True, (idle_worker [])\<lparr>stop_rx := [], replies := [(3, True)]\<rparr>))"
  by (subst worker_poll_def, subst worker_run.simps)
    (simp add: worker_step_def handle_stop_def wc_total_def Let_def)

theorem worker_stop_outcome_witness:
  "\<exists>tx r. replies ((idle_worker [])\<lparr>stop_rx := [], replies := [(3, True)]\<rparr>) = [(tx, r)] \<and> r"
  using worker_stop_outcome [OF _ idle_worker_poll] by (auto simp: worker_wf_def)

text \<open>
  C8. Connection accounting: in every interleaving of sends, polls, handler completions and stop
  requests, the shared counter of a worker is exactly the number of its queued and running
  connections, so that an idle answer is never given early; and with calm services and factories the next
  poll returns without a panic.
\<close>

theorem worker_counter_exact:
  assumes "spawn_worker i lim timeout fs ss = Ok w0" and "factories_ok fs ss" and "worker_reachable conv w0 w"
  shows "wc_total (counter w) = Ok (of_nat (length (conn_rx w) + length (live w)))
    \<and> (factories_calm fs ss \<longrightarrow> (\<exists>r. worker_poll conv now w = Some (Ok r)))"
proof -
  have wf: "worker_wf w" using worker_reachable_wf spawn_worker_wf assms by blast
  have "calm w" if "factories_calm fs ss"
    using assms(3) spawn_worker_calm [OF assms(1) that] by induction (auto intro: calm_env)
  with wc_total_wf [OF wf] calm_poll_returns [OF wf, of conv now] show ?thesis by blast
qed

theorem worker_counter_exact_witness:
  "\<exists>w0 r. spawn_worker 0 9 30000 [spent] [(0, 0, script [])] = Ok w0
     \<and> wc_total (counter (w0\<lparr>stop_rx := [(True, 1)]\<rparr>)) = Ok 0
     \<and> worker_poll (\<lambda>io. True) 7 (w0\<lparr>stop_rx := [(True, 1)]\<rparr>) = Some (Ok r)"
proof -
  obtain w where w: "spawn_worker 0 9 30000 [spent] [(0, 0, script [])] = Ok w" "conn_rx w = []" "live w = []" "stop_rx w = []"
    by (simp add: spawn_worker_def wrap_worker_services_def)
  have f: "factories_ok [spent] [(0, 0, script [])]" "factories_calm [spent] [(0, 0, script [])]"
    by (simp_all add: factories_ok_def factories_calm_def fut_ok_def)
  have "worker_reachable (\<lambda>io. True) w (w\<lparr>stop_rx := [(True, 1)]\<rparr>)"
    using wr_step [OF wr_start worker_env.env_stop, of "\<lambda>io. True" w True 1] w(4) by simp
  from worker_counter_exact [OF w(1) f(1) this, of 7] f(2) w show ?thesis by auto
qed

lemma handle_stop_calls:
  "handle_stop now w = Ok (Inl w1) \<or> handle_stop now w = Ok (Inr w1) \<Longrightarrow> calls w1 = calls w"
  by (auto simp: handle_stop_def Let_def shutdown_fields split: list.splits result.splits if_splits)

lemma check_readiness_calls: "check_readiness w = (r, w1) \<Longrightarrow> calls w1 = calls w \<and> conn_rx w1 = conn_rx w"
  by (subst (1 2) check_readiness_fields(1)) simp_all

lemma restart_service_calls: "restart_service k f w1 = Ok w2 \<Longrightarrow> calls w2 = calls w1"
  by (auto simp: restart_service_def ask_def split: if_splits)

lemma drop_conns_calls: "calls (drop_conns cs w) = calls w"
  by (induction cs arbitrary: w) (simp_all add: drop_guard_fields)

text \<open>Only the available state calls services.\<close>

lemma other_states_calls:
  assumes "n = Continue t' w' \<or> n = Return b w'"
  shows "poll_unavailable w = n \<Longrightarrow> calls w' = calls w"
    and "poll_restarting x y z w = n \<Longrightarrow> calls w' = calls w"
    and "poll_shutdown now tm st tx w = n \<Longrightarrow> calls w' = calls w"
  using assms
  by (auto simp: poll_unavailable_def poll_restarting_def poll_shutdown_def Let_def drop_conns_calls
      dest!: check_readiness_calls restart_service_calls
      split: prod.splits result.splits if_splits poll.splits)

lemma poll_available_calls:
  assumes p: "poll_available conv w = n" and n: "n = Continue t' w' \<or> n = Return b w'" and ne: "calls w' \<noteq> calls w"
  shows "\<exists>w1 c. check_readiness w = (Ok True, w1) \<and> conn_rx w = c # conn_rx w' \<and> calls w' = calls w @ [(c_token c, c)]"
proof -
  obtain r w1 where c: "check_readiness w = (r, w1)" by force
  note cw = check_readiness_calls [OF c]
  have st: "calls (stream_call conv x y) = calls y" "conn_rx (stream_call conv x y) = conn_rx y" for x y
    by (simp_all add: stream_call_def drop_guard_fields)
  from p n ne c cw restart_service_calls [of _ _ w1 w'] show ?thesis
    by (auto simp: poll_available_def st split: prod.splits result.splits if_splits list.splits)
qed

lemma worker_step_calls:
  assumes "worker_step conv now t w = n" and n: "n = Continue t' w' \<or> n = Return b w'" and "calls w' \<noteq> calls w"
  shows "\<exists>w1 c. check_readiness w = (Ok True, w1) \<and> conn_rx w = c # conn_rx w'
    \<and> calls w' = calls w @ [(c_token c, c)]"
proof (cases t)
  case False
  with assms poll_available_calls [of conv w n t' w' b] show ?thesis by (simp add: worker_step_def)
next
  case True
  show ?thesis
  proof (cases "handle_stop now w")
    case (Ok r)
    show ?thesis
    proof (cases r)
      case (Inl w1)
      with Ok True assms handle_stop_calls show ?thesis by (auto simp: worker_step_def)
    next
      case (Inr w1)
      have "(case wstate w1 of
             WUnavailable \<Rightarrow> poll_unavailable w1
           | WRestarting factory_id tok fut \<Rightarrow> poll_restarting factory_id tok fut w1
           | WShutdown timer start_from tx \<Rightarrow> poll_shutdown now timer start_from tx w1
           | WAvailable \<Rightarrow> poll_available conv w1) = n"
        using Ok Inr True assms(1) by (simp add: worker_step_def)
      with other_states_calls [OF n] handle_stop_calls [of now w w1] Ok Inr assms(3)
      have av: "wstate w1 = WAvailable" "poll_available conv w1 = n"
        by (auto split: wstate.splits)
      with handle_stop_Inr [of now w w1] Ok Inr have "w1 = w" by auto
      with poll_available_calls [OF av(2) n] assms(3) show ?thesis by simp
    qed
  qed (use True assms in \<open>auto simp: worker_step_def\<close>)
qed

text \<open>
  C14. Readiness gates dispatch: a step of the worker that calls a service does so right after a
  readiness check in which every service in use answered \<open>Ready(Ok)\<close>, and it takes the oldest queued
  connection.
\<close>

theorem worker_dispatch_after_ready:
  assumes "worker_step conv now t w = Continue t' w'" and "calls w' \<noteq> calls w"
  shows "(\<forall>srv \<in> set (services w). active srv \<longrightarrow> answer_of srv = Ready (Ok ()))
    \<and> (\<exists>c. conn_rx w = c # conn_rx w' \<and> calls w' = calls w @ [(c_token c, c)])"
proof -
  from worker_step_calls [OF assms(1) _ assms(2)] obtain w1 c where
    "check_readiness w = (Ok True, w1)" "conn_rx w = c # conn_rx w'" "calls w' = calls w @ [(c_token c, c)]"
    by blast
  with check_readiness_Ok_services(2) [of w True w1] show ?thesis by auto
qed

abbreviation ready_worker :: worker where
  "ready_worker \<equiv> \<lparr>conn_rx = [\<lparr>c_io = 7, c_token = 0\<rparr>], stop_rx = [], widx = 0, counter = \<lparr>raw = 2, limit = 9\<rparr>,
     services = [\<lparr>factory_idx = 0, status = SAvailable, service = script [Ready (Ok ())]\<rparr>], factories = [spent],
     wstate = WAvailable, shutdown_timeout = 30000, live = [], calls = [], replies = [], notices = []\<rparr>"

theorem worker_dispatch_after_ready_witness:
  "\<exists>c w'. worker_step (\<lambda>io. True) 5 False ready_worker = Continue False w'
     \<and> conn_rx ready_worker = c # conn_rx w' \<and> calls w' = [(0, c)]"
proof -
  obtain w' where w': "worker_step (\<lambda>io. True) 5 False ready_worker = Continue False w'" "calls w' \<noteq> calls ready_worker"
    "c_token (hd (conn_rx ready_worker)) = 0"
    by (simp add: worker_step_def poll_available_def check_readiness_def active_def ask_def stream_call_def)
  from worker_dispatch_after_ready [OF w'(1,2)] w' show ?thesis by auto
qed

text \<open>
  A graceful shutdown ends: once the worker is shutting down, a poll at or after its timer completes
  the future if all connections are done or the shutdown timeout has passed; otherwise it sets the
  timer one interval ahead.
\<close>

theorem worker_shutdown_completes:
  assumes "worker_wf w" and "wstate w = WShutdown timer start tx" and "stop_rx w = []" and "timer \<le> now"
  shows "\<exists>b w'. worker_poll conv now w = Some (Ok (b, w')) \<and> conn_rx w' = []
    \<and> (b \<longleftrightarrow> live w = [] \<or> shutdown_timeout w \<le> now - start)
    \<and> (\<not> b \<longrightarrow> wstate w' = WShutdown (now + SHUTDOWN_POLL_INTERVAL) start tx)"
proof -
  let ?w1 = "drop_conns (conn_rx w) w"
  note d = drop_conns_ok [OF assms(1) refl]
  have tot: "wc_total (counter ?w1) = Ok (of_nat (length (conn_rx ?w1) + length (live ?w1)))"
    using wc_total_wf d by blast
  have z: "(of_nat (length (conn_rx ?w1) + length (live ?w1)) :: usize) = 0 \<longleftrightarrow> live w = []"
    using of_nat_zero_wf [of ?w1] d by simp
  have "worker_step conv now True w = poll_shutdown now timer start tx w"
    using assms(2,3) by (simp add: worker_step_def handle_stop_def)
  with d tot z assms(4) show ?thesis
    by (subst worker_poll_def, subst worker_run.simps) (simp add: poll_shutdown_def Let_def del: of_nat_add)
qed

theorem worker_shutdown_completes_witness:
  "\<exists>b w'. worker_poll (\<lambda>io. True) 40000 ((idle_worker [\<lparr>c_io = 1, c_token = 0\<rparr>])\<lparr>wstate := WShutdown 40000 9000 3, stop_rx := []\<rparr>)
     = Some (Ok (b, w')) \<and> b"
  using worker_shutdown_completes [of "(idle_worker [\<lparr>c_io = 1, c_token = 0\<rparr>])\<lparr>wstate := WShutdown 40000 9000 3, stop_rx := []\<rparr>"
      40000 9000 3 40000 "\<lambda>io. True"]
  by (auto simp: worker_wf_def)

end
