(* ===== verification/Socket.thy ===== *)
theory Socket
  imports Prelude
begin

text \<open>
  \<open>actix-server/src/socket.rs\<close>: the listener and stream enums over TCP and Unix sockets, the conversion
  of an accepted stream to the type a service takes, and the creation of a TCP listener.  Addresses and
  descriptors are numbers; what the operating system answers is the record \<open>os\<close>.
\<close>

section \<open>The operating system\<close>

datatype protocol = ProtoTcp | ProtoMptcp

record os =
  os_linux :: bool
  os_socket :: "nat \<Rightarrow> protocol \<Rightarrow> (nat, io_error) result"
  os_reuse_address :: "nat \<Rightarrow> (unit, io_error) result"
  os_nonblocking :: "nat \<Rightarrow> (unit, io_error) result"
  os_bind :: "nat \<Rightarrow> nat \<Rightarrow> (unit, io_error) result"
  os_listen :: "nat \<Rightarrow> int \<Rightarrow> (unit, io_error) result"
  os_local_addr :: "nat \<Rightarrow> (nat, io_error) result"
  os_accept :: "nat \<Rightarrow> (nat, io_error) result"
  os_register :: "nat \<Rightarrow> nat \<Rightarrow> (unit, io_error) result"
  os_reregister :: "nat \<Rightarrow> nat \<Rightarrow> (unit, io_error) result"
  os_deregister :: "nat \<Rightarrow> (unit, io_error) result"
  os_from_std :: "nat \<Rightarrow> (nat, io_error) result"

section \<open>Listeners and streams\<close>

datatype mio_listener = TcpListener nat | UdsListener nat

datatype mio_stream = TcpMio nat | UdsMio nat

datatype socket_addr = AddrUnknown | AddrTcp nat | AddrUds nat

fun local_addr :: "os \<Rightarrow> mio_listener \<Rightarrow> socket_addr" where
  "local_addr sys (TcpListener lst) = (case os_local_addr sys lst of Ok a \<Rightarrow> AddrTcp a | Err e \<Rightarrow> AddrUnknown)"
| "local_addr sys (UdsListener lst) = (case os_local_addr sys lst of Ok a \<Rightarrow> AddrUds a | Err e \<Rightarrow> AddrUnknown)"

fun accept_stream :: "os \<Rightarrow> mio_listener \<Rightarrow> (mio_stream, io_error) result" where
  "accept_stream sys (TcpListener lst) = map_result TcpMio (os_accept sys lst)"
| "accept_stream sys (UdsListener lst) = map_result UdsMio (os_accept sys lst)"

fun register_listener :: "os \<Rightarrow> nat \<Rightarrow> mio_listener \<Rightarrow> (unit, io_error) result" where
  "register_listener sys token (TcpListener lst) = os_register sys lst token"
| "register_listener sys token (UdsListener lst) = os_register sys lst token"

fun reregister_listener :: "os \<Rightarrow> nat \<Rightarrow> mio_listener \<Rightarrow> (unit, io_error) result" where
  "reregister_listener sys token (TcpListener lst) = os_reregister sys lst token"
| "reregister_listener sys token (UdsListener lst) = os_reregister sys lst token"

fun deregister_listener :: "os \<Rightarrow> mio_listener \<Rightarrow> (unit, io_error) result" where
  "deregister_listener sys (TcpListener lst) = os_deregister sys lst"
| "deregister_listener sys (UdsListener lst) = os_deregister sys lst"

text \<open>\<open>FromStream\<close>: the stream type of a service, and its conversion, which panics on a stream of the
  other type.\<close>

datatype stream_type = TcpStream | UnixStream

fun from_mio :: "os \<Rightarrow> stream_type \<Rightarrow> mio_stream \<Rightarrow> ((nat, io_error) result, panic) result" where
  "from_mio sys TcpStream (TcpMio raw) = Ok (os_from_std sys raw)"
| "from_mio sys TcpStream (UdsMio raw) = Err ExplicitPanic"
| "from_mio sys UnixStream (TcpMio raw) = Err ExplicitPanic"
| "from_mio sys UnixStream (UdsMio raw) = Ok (os_from_std sys raw)"

fun stream_type_of :: "mio_listener \<Rightarrow> stream_type" where
  "stream_type_of (TcpListener lst) = TcpStream"
| "stream_type_of (UdsListener lst) = UnixStream"

lemma accepted_converts:
  "accept_stream sys lst = Ok s \<Longrightarrow> \<exists>r. from_mio sys (stream_type_of lst) s = Ok r"
  by (cases lst; cases "os_accept sys (case lst of TcpListener l \<Rightarrow> l | UdsListener l \<Rightarrow> l)") auto

section \<open>Creating a TCP listener\<close>

datatype mp_tcp = MpDisabled | TcpFallback | NoFallback

definition listener_protocol :: "os \<Rightarrow> mp_tcp \<Rightarrow> protocol" where
  "listener_protocol sys mptcp = (if \<not> os_linux sys \<or> mptcp = MpDisabled then ProtoTcp else ProtoMptcp)"

definition new_socket :: "os \<Rightarrow> nat \<Rightarrow> mp_tcp \<Rightarrow> (nat, io_error) result" where
  "new_socket sys addr mptcp =
     (case os_socket sys addr (listener_protocol sys mptcp) of
        Ok sock \<Rightarrow> Ok sock
      | Err e \<Rightarrow> (if mptcp = TcpFallback then os_socket sys addr ProtoTcp else Err e))"

text \<open>The cast of the backlog, a \<open>u32\<close>, to \<open>i32\<close>.\<close>

definition as_i32 :: "nat \<Rightarrow> int" where
  "as_i32 n = sint (of_nat n :: 32 word)"

definition create_mio_tcp_listener :: "os \<Rightarrow> nat \<Rightarrow> nat \<Rightarrow> mp_tcp \<Rightarrow> (nat, io_error) result" where
  "create_mio_tcp_listener sys addr backlog mptcp =
     bind_result (new_socket sys addr mptcp) (\<lambda>sock.
     bind_result (os_reuse_address sys sock) (\<lambda>u1.
     bind_result (os_nonblocking sys sock) (\<lambda>u2.
     bind_result (os_bind sys sock addr) (\<lambda>u3.
     bind_result (os_listen sys sock (as_i32 backlog)) (\<lambda>u4. Ok sock)))))"

text \<open>With the fallback a listener is lost to a system without MPTCP only if it cannot have a plain TCP
  socket either; without it MPTCP is never given up silently.\<close>

lemma new_socket_fallback:
  "os_socket sys addr ProtoTcp = Ok sock \<Longrightarrow> \<exists>s. new_socket sys addr TcpFallback = Ok s"
  by (auto simp: new_socket_def listener_protocol_def split: result.split)

lemma new_socket_no_fallback:
  "os_linux sys \<Longrightarrow> new_socket sys addr NoFallback = os_socket sys addr ProtoMptcp"
  "new_socket sys addr MpDisabled = os_socket sys addr ProtoTcp"
  by (simp_all add: new_socket_def listener_protocol_def split: result.split)

lemma create_listener_listens:
  assumes "create_mio_tcp_listener sys addr backlog mptcp = Ok sock"
  shows "os_bind sys sock addr = Ok () \<and> os_listen sys sock (as_i32 backlog) = Ok () \<and> os_nonblocking sys sock = Ok ()
    \<and> (os_socket sys addr (listener_protocol sys mptcp) = Ok sock \<or> mptcp = TcpFallback \<and> os_socket sys addr ProtoTcp = Ok sock)"
  using assms by (auto simp: create_mio_tcp_listener_def bind_result_Ok_iff new_socket_def split: result.splits if_splits)

end
