(* ===== verification/Server_Command.thy ===== *)
theory Server_Command
  imports Accept_Loop Server_Worker Socket
begin

text \<open>
  The server future and its configuration: \<open>builder.rs\<close>, \<open>server.rs\<close>, \<open>handle.rs\<close>, \<open>signals.rs\<close> and
  \<open>join_all.rs\<close> of actix-server.  What a command does outside the server's own fields is a trace of
  \<open>effect\<close>s, in the order the code performs them; awaiting is an effect too.  OS signals and
  the runtime are not modelled.
\<close>

section \<open>Builder\<close>

record server_config =
  cfg_shutdown_timeout :: nat
  cfg_max_blocking_threads :: nat
  cfg_max_concurrent_connections :: nat

record builder =
  threads :: nat
  next_tok :: nat
  b_backlog :: nat
  b_mptcp :: mp_tcp
  b_factories :: "(nat \<times> nat \<times> stream_type) list"
  b_sockets :: "(nat \<times> mio_listener) list"
  exit_system :: bool
  listen_os_signals :: bool
  shutdown_signal :: bool
  worker_config :: server_config

text \<open>\<open>DEFAULT_BLOCKING_THREAD_BUDGET / parallelism\<close>, at least one.\<close>

definition default_worker_config :: "nat \<Rightarrow> server_config" where
  "default_worker_config parallelism =
     \<lparr>cfg_shutdown_timeout = 30000, cfg_max_blocking_threads = max (512 div parallelism) 1,
      cfg_max_concurrent_connections = 25600\<rparr>"

definition with_default_workers :: "nat \<Rightarrow> nat \<Rightarrow> builder" where
  "with_default_workers parallelism n =
     \<lparr>threads = min n MAX_WORKERS, next_tok = 0, b_backlog = 2048, b_mptcp = MpDisabled, b_factories = [], b_sockets = [],
      exit_system = False, listen_os_signals = True, shutdown_signal = False,
      worker_config = default_worker_config parallelism\<rparr>"

definition builder_new :: "nat \<Rightarrow> builder" where
  "builder_new parallelism = with_default_workers parallelism parallelism"

definition workers :: "nat \<Rightarrow> builder \<Rightarrow> (builder, panic) result" where
  "workers n b =
     (if n = 0 then Err AssertFailed
      else if \<not> n \<le> MAX_WORKERS then Err AssertFailed
      else Ok (b\<lparr>threads := n\<rparr>))"

definition max_concurrent_connections :: "nat \<Rightarrow> builder \<Rightarrow> (builder, panic) result" where
  "max_concurrent_connections n b =
     (if n = 0 then Err AssertFailed
      else Ok (b\<lparr>worker_config := (worker_config b)\<lparr>cfg_max_concurrent_connections := n\<rparr>\<rparr>))"

text \<open>The deprecated name.\<close>

definition maxconn :: "nat \<Rightarrow> builder \<Rightarrow> (builder, panic) result" where
  "maxconn n b = max_concurrent_connections n b"

definition set_shutdown_timeout :: "nat \<Rightarrow> builder \<Rightarrow> builder" where
  "set_shutdown_timeout sec b =
     b\<lparr>worker_config := (worker_config b)\<lparr>cfg_shutdown_timeout := 1000 * sec\<rparr>\<rparr>"

definition worker_max_blocking_threads :: "nat \<Rightarrow> builder \<Rightarrow> builder" where
  "worker_max_blocking_threads n b = b\<lparr>worker_config := (worker_config b)\<lparr>cfg_max_blocking_threads := n\<rparr>\<rparr>"

definition set_shutdown_signal :: "builder \<Rightarrow> builder" where
  "set_shutdown_signal b = b\<lparr>shutdown_signal := True\<rparr>"

definition disable_signals :: "builder \<Rightarrow> builder" where
  "disable_signals b = b\<lparr>listen_os_signals := False\<rparr>"

definition system_exit :: "builder \<Rightarrow> builder" where
  "system_exit b = b\<lparr>exit_system := True\<rparr>"

definition set_backlog :: "nat \<Rightarrow> builder \<Rightarrow> builder" where
  "set_backlog n b = b\<lparr>b_backlog := n\<rparr>"

definition set_mptcp :: "mp_tcp \<Rightarrow> builder \<Rightarrow> builder" where
  "set_mptcp m b = b\<lparr>b_mptcp := m\<rparr>"

definition next_token :: "builder \<Rightarrow> nat \<times> builder" where
  "next_token b = (next_tok b, b\<lparr>next_tok := next_tok b + 1\<rparr>)"

text \<open>The loop of \<open>bind_addr\<close> over the results of creating a listener for each resolved address.\<close>

fun bind_loop ::
  "(nat, io_error) result list \<Rightarrow> nat list \<Rightarrow> bool \<Rightarrow> io_error option \<Rightarrow> (nat list, io_error) result" where
  "bind_loop [] sockets success opt_err =
     (if success then Ok sockets
      else (case opt_err of Some e \<Rightarrow> Err e | None \<Rightarrow> Err (OtherKind 0)))"
| "bind_loop (Ok lst # rs) sockets success opt_err = bind_loop rs (sockets @ [lst]) True opt_err"
| "bind_loop (Err e # rs) sockets success opt_err = bind_loop rs sockets success (Some e)"

definition bind_addr :: "os \<Rightarrow> nat \<Rightarrow> mp_tcp \<Rightarrow> (nat list, io_error) result \<Rightarrow> (nat list, io_error) result" where
  "bind_addr sys queue mptcp addrs =
     bind_result addrs (\<lambda>as. bind_loop (map (\<lambda>a. create_mio_tcp_listener sys a queue mptcp) as) [] False None)"

text \<open>Registering one listener under a fresh token, with the factory of its services and the stream type
  they take; \<open>addr\<close> is the result of \<open>local_addr\<close>.\<close>

definition push_listener ::
  "nat \<Rightarrow> stream_type \<Rightarrow> mio_listener \<Rightarrow> (nat, io_error) result \<Rightarrow> builder \<Rightarrow> (builder, io_error) result" where
  "push_listener name io lst addr b =
     (case next_token b of
        (tok, b1) \<Rightarrow> map_result (\<lambda>a. b1\<lparr>b_factories := b_factories b1 @ [(name, tok, io)],
                                         b_sockets := b_sockets b1 @ [(tok, lst)]\<rparr>) addr)"

fun bind_all :: "os \<Rightarrow> nat \<Rightarrow> nat list \<Rightarrow> builder \<Rightarrow> (builder, io_error) result" where
  "bind_all sys name [] b = Ok b"
| "bind_all sys name (lst # ls) b =
     bind_result (push_listener name TcpStream (TcpListener lst) (os_local_addr sys lst) b) (bind_all sys name ls)"

definition bind :: "os \<Rightarrow> nat \<Rightarrow> (nat list, io_error) result \<Rightarrow> builder \<Rightarrow> (builder, io_error) result" where
  "bind sys name addrs b =
     bind_result (bind_addr sys (b_backlog b) (b_mptcp b) addrs) (\<lambda>sockets. bind_all sys name sockets b)"

definition listen :: "os \<Rightarrow> nat \<Rightarrow> nat \<Rightarrow> builder \<Rightarrow> (builder, io_error) result" where
  "listen sys name lst b =
     bind_result (os_nonblocking sys lst) (\<lambda>u.
     bind_result (os_local_addr sys lst) (\<lambda>a. push_listener name TcpStream (TcpListener lst) (Ok a) b))"

text \<open>The address of a Unix listener's factory is the constant \<open>127.0.0.1:8080\<close>.\<close>

definition listen_uds :: "os \<Rightarrow> nat \<Rightarrow> nat \<Rightarrow> builder \<Rightarrow> (builder, io_error) result" where
  "listen_uds sys name lst b =
     bind_result (os_nonblocking sys lst) (\<lambda>u. push_listener name UnixStream (UdsListener lst) (Ok 8080) b)"

text \<open>\<open>rm\<close> and \<open>bound\<close> are the results of removing the path and binding to it.\<close>

definition bind_uds ::
  "os \<Rightarrow> nat \<Rightarrow> (unit, io_error) result \<Rightarrow> (nat, io_error) result \<Rightarrow> builder \<Rightarrow> (builder, io_error) result" where
  "bind_uds sys name rm bound b =
     (case rm of
        Err e \<Rightarrow> (if e \<noteq> NotFound then Err e else bind_result bound (\<lambda>lst. listen_uds sys name lst b))
      | Ok u \<Rightarrow> bind_result bound (\<lambda>lst. listen_uds sys name lst b))"

text \<open>\<open>StreamNewService::create\<close>: the service of the factory's future with the token of its listener, errors
  without their value.\<close>

definition factory_create :: "nat \<Rightarrow> ('s, 'e) result \<Rightarrow> (nat \<times> 's, unit) result" where
  "factory_create tok r = map_err_result (\<lambda>e. ()) (map_result (\<lambda>s. (tok, s)) r)"

text \<open>\<open>run\<close> gives the server of the builder.\<close>

definition builder_run :: "builder \<Rightarrow> (builder, panic) result" where
  "builder_run b = (if b_sockets b = [] then Err ExplicitPanic else Ok b)"

section \<open>Signals and commands\<close>

datatype signal_kind = Cancel | OsInt | OsTerm | OsQuit

datatype command =
  WorkerFaulted nat
| CmdPause nat
| CmdResume nat
| CmdStop bool "nat option" bool

text \<open>\<open>ServerHandle\<close>: the command each method sends, \<open>tx\<close> its reply channel.\<close>

definition handle_stop_cmd :: "bool \<Rightarrow> nat \<Rightarrow> command" where
  "handle_stop_cmd graceful tx = CmdStop graceful (Some tx) False"

fun map_signal :: "signal_kind \<Rightarrow> command" where
  "map_signal Cancel = CmdStop True None True"
| "map_signal OsInt = CmdStop False None True"
| "map_signal OsTerm = CmdStop True None True"
| "map_signal OsQuit = CmdStop False None True"

text \<open>\<open>OsSignals::poll\<close>: the first registered signal that has arrived.\<close>

fun os_signals_poll :: "(signal_kind \<times> bool) list \<Rightarrow> signal_kind poll" where
  "os_signals_poll [] = Pending"
| "os_signals_poll ((sig, arrived) # rest) = (if arrived then Ready sig else os_signals_poll rest)"

text \<open>Which stop signal \<open>run_sync\<close> installs.\<close>

datatype stop_signal = SigOs | SigCancel

definition choose_signal :: "builder \<Rightarrow> stop_signal option" where
  "choose_signal b =
     (if shutdown_signal b then Some SigCancel else if listen_os_signals b then Some SigOs else None)"

definition stop_signal_poll :: "stop_signal \<Rightarrow> (signal_kind \<times> bool) list \<Rightarrow> bool \<Rightarrow> signal_kind poll" where
  "stop_signal_poll sig os cancelled =
     (case sig of
        SigOs \<Rightarrow> os_signals_poll os
      | SigCancel \<Rightarrow> (if cancelled then Ready Cancel else Pending))"

record mux =
  cmd_rx :: "command list"
  cmd_closed :: bool
  signal_fut :: "stop_signal option"

definition mux_poll :: "(signal_kind \<times> bool) list \<Rightarrow> bool \<Rightarrow> mux \<Rightarrow> command option poll \<times> mux" where
  "mux_poll os cancelled m =
     (case (case signal_fut m of Some sig \<Rightarrow> stop_signal_poll sig os cancelled | None \<Rightarrow> Pending) of
        Ready s \<Rightarrow> (Ready (Some (map_signal s)), m\<lparr>signal_fut := None\<rparr>)
      | Pending \<Rightarrow>
          (case cmd_rx m of
             c # cs \<Rightarrow> (Ready (Some c), m\<lparr>cmd_rx := cs\<rparr>)
           | [] \<Rightarrow> (if cmd_closed m then (Ready None, m) else (Pending, m))))"

section \<open>The server\<close>

datatype effect =
  EReply nat
| EGraceful
| EWake waker_interest
| EWorkerStop nat nat bool
| EAwaitStops
| EJoinAccept
| ESleep nat
| ESystemStop

text \<open>A worker handle is the worker's index and its stop channel.  \<open>accept_running\<close> is
  \<open>accept_handle.is_some()\<close>.\<close>

record server =
  worker_handles :: "(nat \<times> nat) list"
  accept_running :: bool
  system_stop :: bool
  stopping :: bool

definition SYSTEM_STOP_DELAY :: nat where "SYSTEM_STOP_DELAY = 300"

text \<open>The \<open>Stop\<close> arm up to its first await, and from there on.\<close>

definition stop_begin :: "bool \<Rightarrow> server \<Rightarrow> server \<times> effect list" where
  "stop_begin graceful s =
     (s\<lparr>stopping := True\<rparr>,
      (if graceful then [EGraceful] else []) @ [EWake Stop]
      @ map (\<lambda>(idx, ch). EWorkerStop idx ch graceful) (worker_handles s))"

definition stop_end :: "bool \<Rightarrow> nat option \<Rightarrow> bool \<Rightarrow> server \<Rightarrow> (server \<times> effect list, panic) result" where
  "stop_end accept_ok completion force_system_stop s =
     (if \<not> accept_running s then Err UnwrapNone
      else if \<not> accept_ok then Err ExplicitPanic
      else Ok (s\<lparr>accept_running := False\<rparr>,
        [EJoinAccept]
        @ (case completion of Some tx \<Rightarrow> [EReply tx] | None \<Rightarrow> [])
        @ (if system_stop s \<or> force_system_stop then [ESleep SYSTEM_STOP_DELAY, ESystemStop] else [])))"

fun replace_handle :: "nat \<Rightarrow> nat \<Rightarrow> (nat \<times> nat) list \<Rightarrow> (nat \<times> nat) list" where
  "replace_handle idx ch [] = []"
| "replace_handle idx ch ((i, c) # hs) = (if i = idx then (idx, ch) # hs else (i, c) # replace_handle idx ch hs)"

text \<open>\<open>handle_cmd\<close>; \<open>started\<close> is what \<open>ServerWorker::start\<close> gives for a faulted worker: the accept
  thread's handle and the stop channel, or an error.\<close>

fun handle_cmd ::
  "bool \<Rightarrow> command \<times> (handle \<times> nat, unit) result \<Rightarrow> server \<Rightarrow> (server \<times> effect list, panic) result" where
  "handle_cmd accept_ok (CmdPause tx, started) s = Ok (s, [EWake Pause, EReply tx])"
| "handle_cmd accept_ok (CmdResume tx, started) s = Ok (s, [EWake Resume, EReply tx])"
| "handle_cmd accept_ok (CmdStop graceful completion force, started) s =
     (case stop_begin graceful s of
        (s1, es1) \<Rightarrow>
          (case stop_end accept_ok completion force s1 of
             Err p \<Rightarrow> Err p
           | Ok (s2, es2) \<Rightarrow> Ok (s2, es1 @ (if graceful then [EAwaitStops] else []) @ es2)))"
| "handle_cmd accept_ok (WorkerFaulted idx, started) s =
     (if idx \<notin> fst ` set (worker_handles s) then Err AssertFailed
      else
        case started of
          Ok (h, ch) \<Rightarrow> Ok (s\<lparr>worker_handles := replace_handle idx ch (worker_handles s)\<rparr>, [EWake (NewWorker h)])
        | Err u \<Rightarrow> Ok (s, []))"

text \<open>\<open>ServerInner::run\<close> over the commands its multiplexer yields; their end is the end of the stream,
  or the point where the future is dropped.\<close>

fun server_run ::
  "bool \<Rightarrow> (command \<times> (handle \<times> nat, unit) result) list \<Rightarrow> server \<Rightarrow> (server \<times> effect list, panic) result" where
  "server_run accept_ok [] s = Ok (s, [])"
| "server_run accept_ok (c # cs) s =
     (case handle_cmd accept_ok c s of
        Err p \<Rightarrow> Err p
      | Ok (s1, es) \<Rightarrow>
          (if stopping s1 then Ok (s1, es)
           else
             case server_run accept_ok cs s1 of
               Err p \<Rightarrow> Err p
             | Ok (s2, es2) \<Rightarrow> Ok (s2, es @ es2)))"

definition server_drop :: "server \<Rightarrow> effect list" where
  "server_drop s =
     (if accept_running s then
        (if \<not> stopping s then [EWake Stop] else [])
        @ map (\<lambda>(idx, ch). EWorkerStop idx ch False) (worker_handles s) @ [EJoinAccept]
      else [])"

definition server_start :: "builder \<Rightarrow> nat list \<Rightarrow> server" where
  "server_start b chans =
     \<lparr>worker_handles = zip [0..<threads b] chans, accept_running = True, system_stop = exit_system b,
      stopping = False\<rparr>"

section \<open>join_all\<close>

datatype 'a join_future = JFuture "'a poll list" | JResult "'a option"

fun join_poll_one :: "'a join_future \<Rightarrow> 'a join_future \<times> bool" where
  "join_poll_one (JFuture f) =
     (case next_answer f of (Ready t, f1) \<Rightarrow> (JResult (Some t), True) | (Pending, f1) \<Rightarrow> (JFuture f1, False))"
| "join_poll_one (JResult r) = (JResult r, True)"

fun take_results :: "'a join_future list \<Rightarrow> ('a list, panic) result" where
  "take_results [] = Ok []"
| "take_results (JResult (Some t) # fs) = map_result ((#) t) (take_results fs)"
| "take_results (JResult None # fs) = Err UnwrapNone"
| "take_results (JFuture f # fs) = take_results fs"

definition join_poll :: "'a join_future list \<Rightarrow> ('a list poll, panic) result \<times> 'a join_future list" where
  "join_poll fs =
     (let ps = map join_poll_one fs; fs1 = map fst ps in
      if list_all snd ps
      then (map_result Ready (take_results fs1),
            map (\<lambda>f. case f of JResult r \<Rightarrow> JResult None | JFuture g \<Rightarrow> JFuture g) fs1)
      else (Ok Pending, fs1))"

definition join_all :: "'a poll list list \<Rightarrow> 'a join_future list" where
  "join_all fs = map JFuture fs"

text \<open>Polling until the join is ready.\<close>

fun join_run :: "nat \<Rightarrow> 'a join_future list \<Rightarrow> ('a list, panic) result option" where
  "join_run 0 fs = None"
| "join_run (Suc n) fs =
     (case join_poll fs of
        (Ok Pending, fs1) \<Rightarrow> join_run n fs1
      | (Ok (Ready ts), fs1) \<Rightarrow> Some (Ok ts)
      | (Err p, fs1) \<Rightarrow> Some (Err p))"

section \<open>Lemmas: builder\<close>

text \<open>Tokens are positions, and a listener's factory takes the streams it accepts.\<close>

definition wired :: "builder \<Rightarrow> bool" where
  "wired b \<longleftrightarrow> map (fst \<circ> snd) (b_factories b) = [0..<next_tok b] \<and> map fst (b_sockets b) = [0..<next_tok b]
     \<and> map (snd \<circ> snd) (b_factories b) = map (stream_type_of \<circ> snd) (b_sockets b)"

definition builder_ok :: "builder \<Rightarrow> bool" where
  "builder_ok b \<longleftrightarrow> 0 < threads b \<and> threads b \<le> MAX_WORKERS \<and> wired b \<and> 0 < cfg_max_concurrent_connections (worker_config b)"

lemma wired_updates [simp]:
  "wired (b\<lparr>threads := n\<rparr>) = wired b" "wired (b\<lparr>worker_config := c\<rparr>) = wired b" "wired (b\<lparr>b_backlog := n\<rparr>) = wired b"
  "wired (b\<lparr>b_mptcp := m\<rparr>) = wired b" "wired (b\<lparr>exit_system := x\<rparr>) = wired b"
  "wired (b\<lparr>listen_os_signals := x\<rparr>) = wired b" "wired (b\<lparr>shutdown_signal := x\<rparr>) = wired b"
  by (simp_all add: wired_def)

inductive builder_built :: "builder \<Rightarrow> bool" where
  bb_new: "0 < n \<Longrightarrow> builder_built (with_default_workers p n)"
| bb_workers: "builder_built b \<Longrightarrow> workers n b = Ok b' \<Longrightarrow> builder_built b'"
| bb_limit: "builder_built b \<Longrightarrow> max_concurrent_connections n b = Ok b' \<Longrightarrow> builder_built b'"
| bb_blocking: "builder_built b \<Longrightarrow> builder_built (worker_max_blocking_threads n b)"
| bb_timeout: "builder_built b \<Longrightarrow> builder_built (set_shutdown_timeout n b)"
| bb_signal: "builder_built b \<Longrightarrow> builder_built (set_shutdown_signal b)"
| bb_nosig: "builder_built b \<Longrightarrow> builder_built (disable_signals b)"
| bb_exit: "builder_built b \<Longrightarrow> builder_built (system_exit b)"
| bb_backlog: "builder_built b \<Longrightarrow> builder_built (set_backlog n b)"
| bb_mptcp: "builder_built b \<Longrightarrow> builder_built (set_mptcp m b)"
| bb_bind: "builder_built b \<Longrightarrow> bind sys name addrs b = Ok b' \<Longrightarrow> builder_built b'"
| bb_listen: "builder_built b \<Longrightarrow> listen sys name lst b = Ok b' \<Longrightarrow> builder_built b'"
| bb_uds: "builder_built b \<Longrightarrow> bind_uds sys name rm bound b = Ok b' \<Longrightarrow> builder_built b'"
| bb_listen_uds: "builder_built b \<Longrightarrow> listen_uds sys name lst b = Ok b' \<Longrightarrow> builder_built b'"

lemmas builder_setters = worker_max_blocking_threads_def set_shutdown_timeout_def set_shutdown_signal_def
  disable_signals_def system_exit_def set_backlog_def set_mptcp_def

lemma push_listener_ok:
  "push_listener name (stream_type_of lst) lst addr b = Ok b' \<Longrightarrow> builder_ok b \<Longrightarrow> builder_ok b'"
  by (cases addr) (auto simp: push_listener_def next_token_def builder_ok_def wired_def)

lemma bind_all_ok: "bind_all sys name ls b = Ok b' \<Longrightarrow> builder_ok b \<Longrightarrow> builder_ok b'"
proof (induction ls arbitrary: b)
  case (Cons l ls)
  then show ?case using push_listener_ok [of name "TcpListener l" "os_local_addr sys l" b] by (auto simp: bind_result_Ok_iff)
qed simp

lemma listen_uds_ok: "listen_uds sys name lst b = Ok b' \<Longrightarrow> builder_ok b \<Longrightarrow> builder_ok b'"
  using push_listener_ok [of name "UdsListener lst"] by (auto simp: listen_uds_def bind_result_Ok_iff)

lemma builder_built_ok: "builder_built b \<Longrightarrow> builder_ok b"
proof (induction rule: builder_built.induct)
  case (bb_new n p)
  then show ?case by (simp add: builder_ok_def wired_def with_default_workers_def MAX_WORKERS_def default_worker_config_def)
next
  case (bb_bind b sys name addrs b')
  then show ?case by (auto simp: bind_def bind_result_Ok_iff dest: bind_all_ok)
next
  case (bb_listen b sys name lst b')
  then show ?case using push_listener_ok [of name "TcpListener lst"] by (auto simp: listen_def bind_result_Ok_iff)
next
  case (bb_uds b sys name rm bound b')
  then show ?case
    by (auto simp: bind_uds_def bind_result_Ok_iff dest: listen_uds_ok split: result.splits if_splits)
next
  case (bb_listen_uds b sys name lst b')
  then show ?case by (auto dest: listen_uds_ok)
qed (auto simp: builder_ok_def workers_def max_concurrent_connections_def builder_setters split: if_splits)

text \<open>The services of a worker whose factories succeed: each factory answers with its own token.\<close>

definition created_services :: "(nat \<Rightarrow> svc) \<Rightarrow> builder \<Rightarrow> (nat \<times> svc, unit) result list" where
  "created_services svc b = map (\<lambda>(name, tok, io). factory_create tok (Ok (svc tok) :: (svc, unit) result)) (b_factories b)"

lemma factory_create_Ok [simp]: "factory_create tok (Ok s) = Ok (tok, s)"
  by (simp add: factory_create_def)

lemma create_from_oks:
  "create_from i (map (\<lambda>(name, tok, io). Ok (tok, f tok)) xs)
     = Ok (map (\<lambda>(k, (name, tok, io)). (k, tok, f tok)) (zip [i..<i + length xs] xs))"
proof (induction xs arbitrary: i)
  case (Cons x xs)
  obtain name tok io where "x = (name, tok, io)" by (cases x)
  moreover have "[i..<i + length (x # xs)] = i # [Suc i..<Suc i + length xs]" by (simp add: upt_rec)
  ultimately show ?case using Cons.IH [of "Suc i"] by simp
qed simp

lemma wrap_from_positions:
  "map (\<lambda>(k, tok, s). tok) ss = [i..<i + length ss] \<Longrightarrow> \<exists>srvs. wrap_from i ss = Ok srvs"
proof (induction ss arbitrary: i)
  case (Cons x ss)
  obtain k tok s where x: "x = (k, tok, s)" by (cases x)
  have "[i..<i + length (x # ss)] = i # [Suc i..<Suc i + length ss]" by (simp add: upt_rec)
  with Cons.prems x have "tok = i" "map (\<lambda>(k, tok, s). tok) ss = [Suc i..<Suc i + length ss]" by simp_all
  with Cons.IH [of "Suc i"] x show ?case by auto
qed simp

section \<open>Properties\<close>

text \<open>
  C26. Wiring of the builder: however a server is configured, its listeners' tokens are the positions of
  their factories, so every worker's start-up assertion holds, every token a connection can carry is
  the index of a service of every worker, a stream that a listener accepts is of the type that this
  service takes, so that its conversion never panics, and the accept thread starts in a state it is
  safe in.
\<close>

theorem builder_wiring:
  assumes "builder_built b" and "builder_run b = Ok b'"
  shows "b' = b \<and> (\<exists>ss srvs. create_services None (created_services svc b) = (Some (Ok ss), [])
    \<and> wrap_worker_services ss = Ok srvs \<and> length srvs = length (b_sockets b)
    \<and> (\<forall>(t, lst) \<in> set (b_sockets b). t < length srvs
         \<and> (\<forall>sys s. accept_stream sys lst = Ok s \<longrightarrow> (\<exists>r. from_mio sys (snd (snd (b_factories b ! t))) s = Ok r)))
    \<and> start_ok (map (\<lambda>(t, l). (t, pending l)) (b_sockets b))
        (map (\<lambda>i. fresh_handle i (of_nat (cfg_max_concurrent_connections (worker_config b)))) [0..<threads b]))"
proof -
  have run: "b' = b" "b_sockets b \<noteq> []" using assms(2) by (simp_all add: builder_run_def split: if_splits)
  have ok: "map (fst \<circ> snd) (b_factories b) = [0..<next_tok b]" "map fst (b_sockets b) = [0..<next_tok b]"
    "threads b \<le> MAX_WORKERS" "map (snd \<circ> snd) (b_factories b) = map (stream_type_of \<circ> snd) (b_sockets b)" using builder_built_ok [OF assms(1)] by (simp_all add: builder_ok_def wired_def)
  then have len: "length (b_factories b) = next_tok b" "length (b_sockets b) = next_tok b"
    by (metis length_map length_upt minus_nat.diff_0)+
  let ?ss = "map (\<lambda>(k, (name, tok, io)). (k, tok, svc tok)) (zip [0..<0 + length (b_factories b)] (b_factories b))"
  have c: "create_services None (created_services svc b) = (Some (Ok ?ss), [])"
    unfolding create_services_def created_services_def by (simp only: factory_create_Ok create_from_oks option.case)
  have "map (\<lambda>(k, tok, s). tok) ?ss = map (fst \<circ> snd) (map snd (zip [0..<0 + length (b_factories b)] (b_factories b)))"
    unfolding map_map by (rule map_cong) auto
  also have "\<dots> = [0..<0 + length ?ss]" using ok(1) len by (simp add: map_snd_zip)
  finally obtain srvs where w: "wrap_from 0 ?ss = Ok srvs" using wrap_from_positions by blast
  then have l: "length srvs = next_tok b" using wrap_from_ok [OF w] len by simp
  have t: "t < length srvs \<and> (\<forall>sys s. accept_stream sys lst = Ok s \<longrightarrow> (\<exists>r. from_mio sys (snd (snd (b_factories b ! t))) s = Ok r))"
    if m: "(t, lst) \<in> set (b_sockets b)" for t lst
  proof -
    obtain k where k: "k < next_tok b" "b_sockets b ! k = (t, lst)" using m len(2) by (auto simp: in_set_conv_nth)
    then have "map fst (b_sockets b) ! k = t" using len by simp
    with ok(2) k(1) have "t = k" by simp
    moreover have "map (snd \<circ> snd) (b_factories b) ! k = map (stream_type_of \<circ> snd) (b_sockets b) ! k" using ok(4) by simp
    ultimately have "snd (snd (b_factories b ! t)) = stream_type_of lst" using k len by simp
    with accepted_converts k(1) \<open>t = k\<close> l show ?thesis by auto
  qed
  have "start_ok (map (\<lambda>(t, l). (t, pending l)) (b_sockets b))
      (map (\<lambda>i. fresh_handle i (of_nat (cfg_max_concurrent_connections (worker_config b)))) [0..<threads b])"
    using ok(2,3) run(2) len by (auto simp: start_ok_def split_beta o_def)
  with run c w l t len show ?thesis by (auto simp: wrap_worker_services_def)
qed

text \<open>A system without MPTCP, where one of three addresses is in use.\<close>

definition small_os :: os where
  "small_os = \<lparr>os_linux = True, os_socket = (\<lambda>a p. if p = ProtoMptcp then Err (OtherKind 3) else Ok (10 + a)),
     os_reuse_address = (\<lambda>l. Ok ()), os_nonblocking = (\<lambda>l. Ok ()),
     os_bind = (\<lambda>l a. if a = 1 then Err (OtherKind 4) else Ok ()), os_listen = (\<lambda>l n. Ok ()), os_local_addr = Ok,
     os_accept = Ok, os_register = (\<lambda>l t. Ok ()), os_reregister = (\<lambda>l t. Ok ()), os_deregister = (\<lambda>l. Ok ()), os_from_std = Ok\<rparr>"

theorem builder_wiring_witness:
  "\<exists>b srvs. bind small_os 1 (Ok [0, 1, 2]) (set_mptcp TcpFallback (builder_new 4)) = Ok b
    \<and> b_sockets b = [(0, TcpListener 10), (1, TcpListener 12)]
    \<and> wrap_worker_services [(0, 0, script []), (1, 1, script [])] = Ok srvs \<and> length srvs = length (b_sockets b)
    \<and> (\<exists>r. from_mio small_os (snd (snd (b_factories b ! 1))) (TcpMio 12) = Ok r)
    \<and> start_ok (map (\<lambda>(t, l). (t, [])) (b_sockets b)) (map (\<lambda>i. fresh_handle i 25600) [0..<4])"
proof -
  let ?b0 = "set_mptcp TcpFallback (builder_new 4)"
  obtain b where b: "bind small_os 1 (Ok [0, 1, 2]) ?b0 = Ok b"
    "b_sockets b = [(0, TcpListener 10), (1, TcpListener 12)]" "created_services (\<lambda>t. script []) b = [Ok (0, script []), Ok (1, script [])]"
    "threads b = 4" "cfg_max_concurrent_connections (worker_config b) = 25600"
    by (simp add: bind_def bind_addr_def push_listener_def next_token_def builder_new_def with_default_workers_def
        created_services_def MAX_WORKERS_def default_worker_config_def create_mio_tcp_listener_def new_socket_def
        listener_protocol_def small_os_def set_mptcp_def)
  have "builder_built b" using bb_bind [OF bb_mptcp [OF bb_new] b(1) [unfolded builder_new_def]] by simp
  then have "builder_built b" "builder_run b = Ok b" using b(2) by (simp_all add: builder_run_def)
  from builder_wiring [OF this, of "\<lambda>t. script []" "\<lambda>l. []"] b have
    "\<exists>srvs. wrap_worker_services [(0, 0, script []), (1, 1, script [])] = Ok srvs \<and> length srvs = length (b_sockets b)
      \<and> (\<forall>(t, lst) \<in> set (b_sockets b). t < length srvs
         \<and> (\<forall>sys s. accept_stream sys lst = Ok s \<longrightarrow> (\<exists>r. from_mio sys (snd (snd (b_factories b ! t))) s = Ok r)))
      \<and> start_ok (map (\<lambda>(t, l). (t, [])) (b_sockets b)) (map (\<lambda>i. fresh_handle i 25600) [0..<4])"
    by (auto simp: create_services_def)
  moreover have "accept_stream small_os (TcpListener 12) = Ok (TcpMio 12)" by (simp add: small_os_def)
  ultimately show ?thesis using b(1,2) by (intro exI [of _ b]) fastforce
qed

section \<open>Lemmas: stopping\<close>

abbreviation wakes_stop :: "effect list \<Rightarrow> nat" where
  "wakes_stop es \<equiv> length (filter (\<lambda>e. e = EWake Stop) es)"

abbreviation joins :: "effect list \<Rightarrow> nat" where
  "joins es \<equiv> length (filter (\<lambda>e. e = EJoinAccept) es)"

lemma no_wake_in_stops:
  "filter (\<lambda>e. e = EWake Stop) (map (\<lambda>(i, ch). EWorkerStop i ch g) hs) = []"
  "filter (\<lambda>e. e = EJoinAccept) (map (\<lambda>(i, ch). EWorkerStop i ch g) hs) = []"
  by (induction hs) auto

lemma replace_handle_ids: "map fst (replace_handle idx ch hs) = map fst hs"
  by (induction hs) auto

text \<open>The faulted workers that are reported are workers of the server.\<close>

definition faults_known :: "server \<Rightarrow> (command \<times> (handle \<times> nat, unit) result) list \<Rightarrow> bool" where
  "faults_known s cs \<longleftrightarrow> (\<forall>(c, st) \<in> set cs. \<forall>idx. c = WorkerFaulted idx \<longrightarrow> idx \<in> fst ` set (worker_handles s))"

text \<open>A command that is not a stop leaves the server running; a stop ends it.\<close>

lemma handle_cmd_running:
  assumes "accept_running s" "\<not> stopping s" "faults_known s [c]"
  obtains s' es where "handle_cmd True c s = Ok (s', es)"
    "map fst (worker_handles s') = map fst (worker_handles s)"
    "if stopping s' then \<not> accept_running s' \<and> wakes_stop es = 1 \<and> joins es = 1
       \<and> worker_handles s' = worker_handles s
       \<and> (\<exists>g. \<forall>(i, ch) \<in> set (worker_handles s). EWorkerStop i ch g \<in> set es)
     else accept_running s' \<and> wakes_stop es = 0 \<and> joins es = 0"
proof -
  obtain k st where c: "c = (k, st)" by force
  show thesis
  proof (cases k)
    case (WorkerFaulted idx)
    have i: "idx \<in> fst ` set (worker_handles s)"
      using assms(3) by (simp add: faults_known_def c WorkerFaulted)
    show thesis
    proof (cases st)
      case (Ok r)
      obtain h ch where r: "r = (h, ch)" by force
      show thesis
        using i assms that
          [of "s\<lparr>worker_handles := replace_handle idx ch (worker_handles s)\<rparr>" "[EWake (NewWorker h)]"]
        by (simp add: c WorkerFaulted Ok r replace_handle_ids)
    next
      case (Err u)
      show thesis using i assms that [of s "[]"] by (simp add: c WorkerFaulted Err)
    qed
  next
    case (CmdPause tx)
    show thesis using assms that [of s "[EWake Pause, EReply tx]"] by (simp add: c CmdPause)
  next
    case (CmdResume tx)
    show thesis using assms that [of s "[EWake Resume, EReply tx]"] by (simp add: c CmdResume)
  next
    case (CmdStop g compl force)
    let ?es = "(if g then [EGraceful] else []) @ [EWake Stop]
        @ map (\<lambda>(idx, ch). EWorkerStop idx ch g) (worker_handles s) @ (if g then [EAwaitStops] else [])
        @ [EJoinAccept] @ (case compl of Some tx \<Rightarrow> [EReply tx] | None \<Rightarrow> [])
        @ (if system_stop s \<or> force then [ESleep SYSTEM_STOP_DELAY, ESystemStop] else [])"
    have "handle_cmd True c s = Ok (s\<lparr>stopping := True, accept_running := False\<rparr>, ?es)"
      using assms(1) by (simp add: c CmdStop stop_begin_def stop_end_def)
    moreover have "wakes_stop ?es = 1" "joins ?es = 1"
      by (auto simp: no_wake_in_stops split: option.split)
    ultimately show thesis
      using that [of "s\<lparr>stopping := True, accept_running := False\<rparr>" ?es] by force
  qed
qed

lemma server_run_cases:
  assumes "accept_running s" "\<not> stopping s" "faults_known s cs"
  shows "\<exists>s' es. server_run True cs s = Ok (s', es) \<and> map fst (worker_handles s') = map fst (worker_handles s)
    \<and> (if stopping s' then \<not> accept_running s' \<and> wakes_stop es = 1 \<and> joins es = 1
         \<and> (\<exists>g. \<forall>(i, ch) \<in> set (worker_handles s'). EWorkerStop i ch g \<in> set es)
       else accept_running s' \<and> wakes_stop es = 0 \<and> joins es = 0)"
  using assms
proof (induction cs arbitrary: s)
  case (Cons c cs)
  have f: "faults_known s [c]" "faults_known s cs" using Cons.prems(3) by (simp_all add: faults_known_def)
  obtain s1 es1 where h: "handle_cmd True c s = Ok (s1, es1)"
    "map fst (worker_handles s1) = map fst (worker_handles s)"
    "if stopping s1 then \<not> accept_running s1 \<and> wakes_stop es1 = 1 \<and> joins es1 = 1
       \<and> worker_handles s1 = worker_handles s
       \<and> (\<exists>g. \<forall>(i, ch) \<in> set (worker_handles s). EWorkerStop i ch g \<in> set es1)
     else accept_running s1 \<and> wakes_stop es1 = 0 \<and> joins es1 = 0"
    by (rule handle_cmd_running [OF Cons.prems(1,2) f(1)]) blast
  show ?case
  proof (cases "stopping s1")
    case True
    with h show ?thesis by auto
  next
    case False
    have "set (map fst (worker_handles s1)) = set (map fst (worker_handles s))" using h(2) by simp
    then have "faults_known s1 cs" using f(2) by (simp add: faults_known_def)
    with Cons.IH [of s1] False h(3) obtain s' es where r: "server_run True cs s1 = Ok (s', es)"
      "map fst (worker_handles s') = map fst (worker_handles s1)"
      "if stopping s' then \<not> accept_running s' \<and> wakes_stop es = 1 \<and> joins es = 1
         \<and> (\<exists>g. \<forall>(i, ch) \<in> set (worker_handles s'). EWorkerStop i ch g \<in> set es)
       else accept_running s' \<and> wakes_stop es = 0 \<and> joins es = 0" by auto
    have run: "server_run True (c # cs) s = Ok (s', es1 @ es)" using h(1) False r(1) by simp
    have e1: "wakes_stop es1 = 0" "joins es1 = 0" using h(3) False by simp_all
    show ?thesis
    proof (cases "stopping s'")
      case True
      with r(3) obtain g where "\<forall>(i, ch) \<in> set (worker_handles s'). EWorkerStop i ch g \<in> set es" by auto
      then have "\<exists>g. \<forall>(i, ch) \<in> set (worker_handles s'). EWorkerStop i ch g \<in> set (es1 @ es)"
        by (intro exI [of _ g]) auto
      with run r(2,3) h(2) e1 True show ?thesis by (intro exI conjI) (assumption | simp)+
    next
      case F: False
      with run r(2,3) h(2) e1 show ?thesis by simp
    qed
  qed
qed (auto simp: faults_known_def)

text \<open>
  Stopping the server, completed or not: for every sequence of commands, the server future either
  ends by a stop command or is dropped while it waits for the next one, or during the wait for its
  workers; in each case the accept thread is told to stop exactly once and joined exactly once, the
  indices of the workers never change, and every current worker has been sent a stop request.
\<close>

theorem acceptor_stopped_once:
  assumes "accept_running s" and "\<not> stopping s" and "faults_known s cs"
  shows "\<exists>s' es. server_run True cs s = Ok (s', es) \<and> map fst (worker_handles s') = map fst (worker_handles s)
    \<and> wakes_stop (es @ server_drop s') = 1 \<and> joins (es @ server_drop s') = 1
    \<and> (\<exists>g. \<forall>(i, ch) \<in> set (worker_handles s'). EWorkerStop i ch g \<in> set (es @ server_drop s'))
    \<and> (\<not> stopping s' \<longrightarrow>
         wakes_stop (es @ snd (stop_begin True s') @ server_drop (fst (stop_begin True s'))) = 1
         \<and> joins (es @ snd (stop_begin True s') @ server_drop (fst (stop_begin True s'))) = 1)"
proof -
  from server_run_cases [OF assms] obtain s' es where r: "server_run True cs s = Ok (s', es)"
    "map fst (worker_handles s') = map fst (worker_handles s)"
    "if stopping s' then \<not> accept_running s' \<and> wakes_stop es = 1 \<and> joins es = 1
         \<and> (\<exists>g. \<forall>(i, ch) \<in> set (worker_handles s'). EWorkerStop i ch g \<in> set es)
       else accept_running s' \<and> wakes_stop es = 0 \<and> joins es = 0" by blast
  show ?thesis
  proof (cases "stopping s'")
    case True
    with r show ?thesis by (auto simp: server_drop_def)
  next
    case False
    have "\<forall>(i, ch) \<in> set (worker_handles s'). EWorkerStop i ch False \<in> set (server_drop s')"
      using r(3) False by (force simp: server_drop_def)
    moreover have "wakes_stop (es @ server_drop s') = 1" "joins (es @ server_drop s') = 1"
      "wakes_stop (es @ snd (stop_begin True s') @ server_drop (fst (stop_begin True s'))) = 1"
      "joins (es @ snd (stop_begin True s') @ server_drop (fst (stop_begin True s'))) = 1"
      using r(3) False by (simp_all add: server_drop_def stop_begin_def no_wake_in_stops)
    ultimately show ?thesis using r by auto
  qed
qed

theorem acceptor_stopped_once_witness:
  "\<exists>s' es. server_run True [(CmdPause 1, Err ()), (WorkerFaulted 1, Ok (fresh_handle 1 4, 9)),
       (CmdStop True (Some 2) False, Err ())] (server_start (with_default_workers 2 2) [5, 6]) = Ok (s', es)
     \<and> wakes_stop (es @ server_drop s') = 1 \<and> joins (es @ server_drop s') = 1"
proof -
  let ?s = "server_start (with_default_workers 2 2) [5, 6]"
  let ?cs = "[(CmdPause 1, Err ()), (WorkerFaulted 1, Ok (fresh_handle 1 4, 9)), (CmdStop True (Some 2) False, Err ())]"
  have "worker_handles ?s = [(0, 5), (1, 6)]"
    by (simp add: server_start_def with_default_workers_def MAX_WORKERS_def upt_rec)
  then have "accept_running ?s" "\<not> stopping ?s" "faults_known ?s ?cs"
    by (simp_all add: server_start_def faults_known_def)
  from acceptor_stopped_once [OF this] show ?thesis by blast
qed

section \<open>Joining\<close>

text \<open>A future of the join that will give, or has given, \<open>t\<close>.\<close>

fun gives :: "'a join_future \<Rightarrow> 'a \<Rightarrow> bool" where
  "gives (JFuture f) t \<longleftrightarrow> first_ready f = Some t"
| "gives (JResult r) t \<longleftrightarrow> r = Some t"

fun remaining :: "'a join_future \<Rightarrow> nat" where
  "remaining (JFuture f) = length f"
| "remaining (JResult r) = 0"

lemma join_poll_one_gives:
  assumes "gives jf t"
  shows "gives (fst (join_poll_one jf)) t" "snd (join_poll_one jf) \<Longrightarrow> fst (join_poll_one jf) = JResult (Some t)"
    "remaining (fst (join_poll_one jf)) \<le> remaining jf"
    "\<not> snd (join_poll_one jf) \<Longrightarrow> remaining (fst (join_poll_one jf)) < remaining jf"
proof -
  have "gives (fst (join_poll_one jf)) t \<and> (snd (join_poll_one jf) \<longrightarrow> fst (join_poll_one jf) = JResult (Some t))
    \<and> remaining (fst (join_poll_one jf)) \<le> remaining jf
    \<and> (\<not> snd (join_poll_one jf) \<longrightarrow> remaining (fst (join_poll_one jf)) < remaining jf)"
  proof (cases jf)
    case (JFuture f)
    then show ?thesis using assms
      by (cases f rule: first_ready.cases) (auto simp: next_answer_def)
  qed (use assms in simp)
  then show "gives (fst (join_poll_one jf)) t" "snd (join_poll_one jf) \<Longrightarrow> fst (join_poll_one jf) = JResult (Some t)"
    "remaining (fst (join_poll_one jf)) \<le> remaining jf"
    "\<not> snd (join_poll_one jf) \<Longrightarrow> remaining (fst (join_poll_one jf)) < remaining jf" by blast+
qed

lemma take_results_map: "take_results (map (\<lambda>t. JResult (Some t)) ts) = Ok ts"
  by (induction ts) simp_all

lemma join_all_ready:
  "list_all2 gives fs ts \<Longrightarrow> list_all snd (map join_poll_one fs)
     \<Longrightarrow> map (fst \<circ> join_poll_one) fs = map (\<lambda>t. JResult (Some t)) ts"
  by (induction rule: list_all2_induct) (simp_all add: join_poll_one_gives(2))

lemma join_gives_step: "list_all2 gives fs ts \<Longrightarrow> list_all2 gives (map (fst \<circ> join_poll_one) fs) ts"
  by (induction rule: list_all2_induct) (simp_all add: join_poll_one_gives(1))

lemma join_remaining_le:
  "list_all2 gives fs ts \<Longrightarrow>
     (\<Sum>f \<leftarrow> map (fst \<circ> join_poll_one) fs. remaining f) \<le> (\<Sum>f \<leftarrow> fs. remaining f)"
proof (induction rule: list_all2_induct)
  case (Cons x xs y ys)
  with join_poll_one_gives(3) [OF Cons(1)] show ?case by simp
qed simp

lemma join_remaining_less:
  "list_all2 gives fs ts \<Longrightarrow> \<not> list_all snd (map join_poll_one fs) \<Longrightarrow>
     (\<Sum>f \<leftarrow> map (fst \<circ> join_poll_one) fs. remaining f) < (\<Sum>f \<leftarrow> fs. remaining f)"
proof (induction rule: list_all2_induct)
  case (Cons x xs y ys)
  show ?case
  proof (cases "snd (join_poll_one x)")
    case True
    with Cons join_poll_one_gives(3) [OF Cons(1)] show ?thesis by simp
  next
    case False
    with join_remaining_le [OF Cons(2)] join_poll_one_gives(4) [OF Cons(1)] show ?thesis
      by (simp add: o_def)
  qed
qed simp

lemma join_run_gives:
  "list_all2 gives fs ts \<Longrightarrow> (\<Sum>f \<leftarrow> fs. remaining f) < n \<Longrightarrow> join_run n fs = Some (Ok ts)"
proof (induction n arbitrary: fs)
  case (Suc n)
  let ?fs1 = "map (fst \<circ> join_poll_one) fs"
  show ?case
  proof (cases "list_all snd (map join_poll_one fs)")
    case True
    with join_all_ready [OF Suc.prems(1)] take_results_map [of ts] show ?thesis
      by (simp add: join_poll_def Let_def)
  next
    case False
    then have "join_poll fs = (Ok Pending, ?fs1)" by (simp add: join_poll_def Let_def)
    moreover have "join_run n ?fs1 = Some (Ok ts)"
      using Suc join_gives_step [OF Suc.prems(1)] join_remaining_less [OF Suc.prems(1) False] by simp
    ultimately show ?thesis by simp
  qed
qed simp

text \<open>
  The join of the workers' stop futures: if every future eventually completes, polling the join
  completes too, after no more polls than the futures need together, with all results in the order
  of the futures, whatever the order in which they completed.
\<close>

theorem join_all_collects:
  assumes "list_all2 (\<lambda>f t. first_ready f = Some t) fs ts" and "(\<Sum>f \<leftarrow> fs. length f) < n"
  shows "join_run n (join_all fs) = Some (Ok ts)"
proof (rule join_run_gives)
  show "list_all2 gives (join_all fs) ts" using assms(1) by (simp add: join_all_def list_all2_map1)
  show "(\<Sum>f \<leftarrow> join_all fs. remaining f) < n" using assms(2) by (simp add: join_all_def o_def)
qed

theorem join_all_collects_witness:
  "join_run 9 (join_all [[Pending, Pending, Ready True], [Ready False], [Pending, Ready True]])
    = Some (Ok [True, False, True])"
  by (rule join_all_collects) simp_all

end
