(* ===== verification/Server_Handle.thy ===== *)
theory Server_Handle
  imports Server_Command
begin

text \<open>
  Handles and the server future together: the methods of \<open>ServerHandle\<close> (\<open>handle.rs\<close>) with the futures
  that they return, the command channel, and \<open>ServerInner::run\<close> (\<open>server.rs\<close>) from one of its awaits to
  the next: handles call while it waits, and the server can be dropped at every await.  A returned
  future waits for a reply channel: it is ready when the server has replied or has dropped the
  channel, with the command that holds it.
\<close>

section \<open>Handles\<close>

definition handle_pause_cmd :: "nat \<Rightarrow> command" where
  "handle_pause_cmd tx = CmdPause tx"

definition handle_resume_cmd :: "nat \<Rightarrow> command" where
  "handle_resume_cmd tx = CmdResume tx"

definition worker_faulted_cmd :: "nat \<Rightarrow> command" where
  "worker_faulted_cmd idx = WorkerFaulted idx"

text \<open>The reply channel in a command.\<close>

fun reply_tx :: "command \<Rightarrow> nat list" where
  "reply_tx (CmdPause tx) = [tx]"
| "reply_tx (CmdResume tx) = [tx]"
| "reply_tx (CmdStop graceful (Some tx) force) = [tx]"
| "reply_tx c = []"

fun sent_replies :: "effect list \<Rightarrow> nat list" where
  "sent_replies [] = []"
| "sent_replies (EReply tx # es) = tx # sent_replies es"
| "sent_replies (e # es) = sent_replies es"

section \<open>The server future\<close>

text \<open>Where \<open>run\<close> is: waiting for a command, for the workers of a graceful stop, for the delay before
  the system is stopped; returning or unwinding, with its locals still there; its multiplexer dropped;
  dropped.\<close>

datatype server_phase = PRun | PStops "nat option" bool | PSleep | PReturn | PInner | PEnd

record handle_sys =
  hs_mux :: mux
  hs_open :: bool
  hs_phase :: server_phase
  hs_server :: server
  hs_log :: "effect list"
  hs_issued :: "command list"

definition hs_start :: "builder \<Rightarrow> nat list \<Rightarrow> handle_sys" where
  "hs_start b chans =
     \<lparr>hs_mux = \<lparr>cmd_rx = [], cmd_closed = False, signal_fut = choose_signal b\<rparr>, hs_open = True, hs_phase = PRun,
      hs_server = server_start b chans, hs_log = [], hs_issued = []\<rparr>"

text \<open>Sending: without a receiver the command is dropped.\<close>

definition send_cmd :: "command \<Rightarrow> handle_sys \<Rightarrow> handle_sys" where
  "send_cmd c s =
     (if hs_open s then s\<lparr>hs_mux := (hs_mux s)\<lparr>cmd_rx := cmd_rx (hs_mux s) @ [c]\<rparr>\<rparr> else s)"

text \<open>The rest of a stop, from the join of the accept thread to the next await or the end.  A failed join
  has taken the thread's handle, and the panic drops the reply channel.\<close>

definition finish_stop :: "bool \<Rightarrow> nat option \<Rightarrow> bool \<Rightarrow> handle_sys \<Rightarrow> handle_sys" where
  "finish_stop accept_ok completion force s =
     (case stop_end accept_ok completion force (hs_server s) of
        Err p \<Rightarrow> s\<lparr>hs_server := (hs_server s)\<lparr>accept_running := False\<rparr>, hs_log := hs_log s @ [EJoinAccept], hs_phase := PReturn\<rparr>
      | Ok (srv, es) \<Rightarrow>
          s\<lparr>hs_server := srv, hs_log := hs_log s @ filter (\<lambda>e. e \<noteq> ESystemStop) es,
            hs_phase := (if ESystemStop \<in> set es then PSleep else PReturn)\<rparr>)"

text \<open>The multiplexer is dropped first, with the commands that it holds.\<close>

definition drop_mux :: "handle_sys \<Rightarrow> handle_sys" where
  "drop_mux s = s\<lparr>hs_mux := (hs_mux s)\<lparr>cmd_rx := []\<rparr>, hs_open := False, hs_phase := PInner\<rparr>"

inductive handle_step :: "handle_sys \<Rightarrow> handle_sys \<Rightarrow> bool" where
  hc_call: "c \<in> {handle_pause_cmd tx, handle_resume_cmd tx, handle_stop_cmd graceful tx} \<Longrightarrow>
     tx \<notin> set (concat (map reply_tx (hs_issued s))) \<Longrightarrow>
     handle_step s (send_cmd c (s\<lparr>hs_issued := hs_issued s @ [c]\<rparr>))"
| hc_fault: "handle_step s (send_cmd (worker_faulted_cmd idx) s)"
| hc_cmd: "hs_phase s = PRun \<Longrightarrow> mux_poll os cancelled (hs_mux s) = (Ready (Some c), m) \<Longrightarrow>
     (\<forall>g t f. c \<noteq> CmdStop g t f) \<Longrightarrow> handle_cmd True (c, started) (hs_server s) = Ok (srv, es) \<Longrightarrow>
     handle_step s (s\<lparr>hs_mux := m, hs_server := srv, hs_log := hs_log s @ es\<rparr>)"
| hc_panic: "hs_phase s = PRun \<Longrightarrow> mux_poll os cancelled (hs_mux s) = (Ready (Some c), m) \<Longrightarrow>
     (\<forall>g t f. c \<noteq> CmdStop g t f) \<Longrightarrow> handle_cmd True (c, started) (hs_server s) = Err p \<Longrightarrow>
     handle_step s (s\<lparr>hs_mux := m, hs_phase := PReturn\<rparr>)"
| hc_stop: "hs_phase s = PRun \<Longrightarrow> mux_poll os cancelled (hs_mux s) = (Ready (Some (CmdStop graceful t f)), m) \<Longrightarrow>
     stop_begin graceful (hs_server s) = (srv, es) \<Longrightarrow>
     s1 = s\<lparr>hs_mux := m, hs_server := srv, hs_log := hs_log s @ es\<rparr> \<Longrightarrow>
     handle_step s (if graceful then s1\<lparr>hs_phase := PStops t f\<rparr> else finish_stop accept_ok t f s1)"
| hc_stopped: "hs_phase s = PStops t f \<Longrightarrow>
     handle_step s (finish_stop accept_ok t f (s\<lparr>hs_log := hs_log s @ [EAwaitStops]\<rparr>))"
| hc_slept: "hs_phase s = PSleep \<Longrightarrow> handle_step s (s\<lparr>hs_log := hs_log s @ [ESystemStop], hs_phase := PReturn\<rparr>)"
| hc_return: "hs_phase s = PReturn \<Longrightarrow> handle_step s (drop_mux s)"
| hc_cancel: "hs_phase s = PRun \<or> hs_phase s = PStops t f \<or> hs_phase s = PSleep \<Longrightarrow> handle_step s (drop_mux s)"
| hc_inner: "hs_phase s = PInner \<Longrightarrow>
     handle_step s (s\<lparr>hs_log := hs_log s @ server_drop (hs_server s), hs_phase := PEnd\<rparr>)"

section \<open>The invariant\<close>

text \<open>The commands whose reply channel still exists: the one being handled, and those in the channel.\<close>

definition held :: "handle_sys \<Rightarrow> command list" where
  "held s = filter (\<lambda>c. reply_tx c \<noteq> [])
     ((case hs_phase s of PStops t f \<Rightarrow> [CmdStop True t f] | _ \<Rightarrow> []) @ cmd_rx (hs_mux s))"

text \<open>How a command is answered: right after the accept thread has been told, or has ended.\<close>

fun answer :: "command \<Rightarrow> effect list" where
  "answer (CmdPause tx) = [EWake Pause, EReply tx]"
| "answer (CmdResume tx) = [EWake Resume, EReply tx]"
| "answer (CmdStop graceful (Some tx) force) = (if graceful then [EAwaitStops] else []) @ [EJoinAccept, EReply tx]"
| "answer c = []"

definition answered :: "effect list \<Rightarrow> command \<Rightarrow> bool" where
  "answered es c \<longleftrightarrow> (\<exists>es1 es2. es = es1 @ answer c @ es2)"

definition stops_sent :: "handle_sys \<Rightarrow> bool" where
  "stops_sent s \<longleftrightarrow> (\<exists>g. \<forall>(i, ch) \<in> set (worker_handles (hs_server s)). EWorkerStop i ch g \<in> set (hs_log s))"

definition is_running :: "handle_sys \<Rightarrow> bool" where
  "is_running s \<longleftrightarrow> accept_running (hs_server s) \<and> \<not> stopping (hs_server s) \<and> wakes_stop (hs_log s) = 0 \<and> joins (hs_log s) = 0"

definition is_stopping :: "handle_sys \<Rightarrow> bool" where
  "is_stopping s \<longleftrightarrow> accept_running (hs_server s) \<and> stopping (hs_server s) \<and> wakes_stop (hs_log s) = 1
     \<and> joins (hs_log s) = 0 \<and> stops_sent s"

definition is_stopped :: "handle_sys \<Rightarrow> bool" where
  "is_stopped s \<longleftrightarrow> \<not> accept_running (hs_server s) \<and> wakes_stop (hs_log s) = 1 \<and> joins (hs_log s) = 1 \<and> stops_sent s"

fun phase_inv :: "server_phase \<Rightarrow> handle_sys \<Rightarrow> bool" where
  "phase_inv PRun s = (is_running s \<and> hs_open s)"
| "phase_inv (PStops t f) s = (is_stopping s \<and> hs_open s)"
| "phase_inv PSleep s = (is_stopped s \<and> hs_open s)"
| "phase_inv PReturn s = ((is_running s \<or> is_stopped s) \<and> hs_open s)"
| "phase_inv PInner s = ((is_running s \<or> is_stopping s \<or> is_stopped s) \<and> \<not> hs_open s)"
| "phase_inv PEnd s = (wakes_stop (hs_log s) = 1 \<and> joins (hs_log s) = 1 \<and> stops_sent s \<and> \<not> hs_open s)"

definition live_phase :: "server_phase \<Rightarrow> bool" where
  "live_phase p = (case p of PRun \<Rightarrow> True | PStops t f \<Rightarrow> True | PSleep \<Rightarrow> True | _ \<Rightarrow> False)"

text \<open>The calls so far are the answered ones, in order, and after them those that wait.\<close>

definition answers_inv :: "handle_sys \<Rightarrow> bool" where
  "answers_inv s \<longleftrightarrow> (\<exists>done rest. hs_issued s = done @ rest \<and> sent_replies (hs_log s) = concat (map reply_tx done)
     \<and> (\<forall>c \<in> set done. answered (hs_log s) c) \<and> (live_phase (hs_phase s) \<longrightarrow> rest = held s))"

definition hs_inv :: "handle_sys \<Rightarrow> bool" where
  "hs_inv s \<longleftrightarrow> phase_inv (hs_phase s) s \<and> answers_inv s \<and> (\<not> hs_open s \<longrightarrow> cmd_rx (hs_mux s) = [])"

text \<open>What an operation adds to the log keeps the answers given.\<close>

lemma answered_append: "answered es c \<Longrightarrow> answered (es @ fs) c"
  by (auto simp: answered_def) (metis append.assoc)

lemma answered_last: "answered (es @ answer c) c"
  by (auto simp: answered_def intro: exI [of _ "[]"])

lemma replies_append [simp]: "sent_replies (es @ fs) = sent_replies es @ sent_replies fs"
  by (induction es rule: sent_replies.induct) simp_all

lemma replies_stops [simp]: "sent_replies (map (\<lambda>(i, ch). EWorkerStop i ch g) hs) = []"
  by (induction hs) auto

lemma replies_filter [simp]: "sent_replies (filter (\<lambda>e. e \<noteq> ESystemStop) es) = sent_replies es"
  by (induction es rule: sent_replies.induct) simp_all

lemma filter_stops [simp]:
  "filter (\<lambda>e. e \<noteq> ESystemStop) (map (\<lambda>(i, ch). EWorkerStop i ch g) hs) = map (\<lambda>(i, ch). EWorkerStop i ch g) hs"
  by (induction hs) auto

lemma mux_poll_Ready:
  assumes "mux_poll os cancelled m = (Ready (Some c), m')"
  shows "(cmd_rx m' = cmd_rx m \<and> reply_tx c = []) \<or> cmd_rx m = c # cmd_rx m'"
proof (cases "case signal_fut m of Some sig \<Rightarrow> stop_signal_poll sig os cancelled | None \<Rightarrow> Pending")
  case (Ready sg)
  then show ?thesis using assms by (cases sg) (auto simp: mux_poll_def)
next
  case Pending
  then show ?thesis using assms by (auto simp: mux_poll_def split: list.splits if_splits)
qed

text \<open>A command that is not a stop.\<close>

lemma handle_cmd_plain:
  assumes "handle_cmd True (c, started) s = Ok (s', es)" "\<forall>g t f. c \<noteq> CmdStop g t f"
  shows "accept_running s' = accept_running s \<and> stopping s' = stopping s \<and> wakes_stop es = 0 \<and> joins es = 0
    \<and> sent_replies es = reply_tx c \<and> (reply_tx c \<noteq> [] \<longrightarrow> es = answer c)"
  using assms by (cases c) (auto split: if_splits result.splits prod.splits)

lemma stop_begin_effects:
  "stop_begin g s = (s', es) \<Longrightarrow> s' = s\<lparr>stopping := True\<rparr> \<and> wakes_stop es = 1 \<and> joins es = 0 \<and> sent_replies es = []
     \<and> (\<forall>(i, ch) \<in> set (worker_handles s). EWorkerStop i ch g \<in> set es)"
  by (auto simp: stop_begin_def no_wake_in_stops)

lemma stop_end_effects:
  "stop_end ok t f s = Ok (s', es) \<Longrightarrow> s' = s\<lparr>accept_running := False\<rparr> \<and> wakes_stop es = 0 \<and> joins es = 1
     \<and> sent_replies es = (case t of Some tx \<Rightarrow> [tx] | None \<Rightarrow> [])
     \<and> (\<exists>es2. filter (\<lambda>e. e \<noteq> ESystemStop) es = [EJoinAccept] @ (case t of Some tx \<Rightarrow> [EReply tx] | None \<Rightarrow> []) @ es2)"
  by (cases t) (auto simp: stop_end_def split: if_splits)

lemma filter_other [simp]:
  "filter (\<lambda>e. e \<noteq> ESystemStop \<and> e = EWake Stop) es = filter (\<lambda>e. e = EWake Stop) es"
  "filter (\<lambda>e. e \<noteq> ESystemStop \<and> e = EJoinAccept) es = filter (\<lambda>e. e = EJoinAccept) es"
  by (auto intro!: filter_cong)

text \<open>The invariant on answers, while a command \<open>cs\<close> is being handled.\<close>

definition answers_with :: "command list \<Rightarrow> handle_sys \<Rightarrow> bool" where
  "answers_with cs s \<longleftrightarrow> (\<exists>done. hs_issued s = done @ filter (\<lambda>c. reply_tx c \<noteq> []) (cs @ cmd_rx (hs_mux s))
     \<and> sent_replies (hs_log s) = concat (map reply_tx done) \<and> (\<forall>c \<in> set done. answered (hs_log s) c))"

lemma answers_invI: "answers_with cs s \<Longrightarrow> live_phase (hs_phase s) \<Longrightarrow>
    (case hs_phase s of PStops t f \<Rightarrow> [CmdStop True t f] | _ \<Rightarrow> []) = cs \<Longrightarrow> answers_inv s"
  by (auto simp: answers_with_def answers_inv_def held_def)

lemma answers_invD: "answers_inv s \<Longrightarrow> live_phase (hs_phase s) \<Longrightarrow>
    answers_with (case hs_phase s of PStops t f \<Rightarrow> [CmdStop True t f] | _ \<Rightarrow> []) s"
  by (auto simp: answers_with_def answers_inv_def held_def)

lemma answers_dead: "answers_with cs s \<Longrightarrow> \<not> live_phase (hs_phase s) \<Longrightarrow> answers_inv s"
  by (auto simp: answers_with_def answers_inv_def)

text \<open>Effects without a reply, and the effects that answer.\<close>

lemma answers_quiet:
  assumes "answers_with cs s" "hs_issued s' = hs_issued s" "cmd_rx (hs_mux s') = cmd_rx (hs_mux s)"
    "hs_log s' = hs_log s @ es" "sent_replies es = []"
  shows "answers_with cs s'"
  using assms unfolding answers_with_def by (auto intro: answered_append)

lemma answers_reply:
  assumes "answers_with [c] s" "hs_issued s' = hs_issued s" "cmd_rx (hs_mux s') = cmd_rx (hs_mux s)"
    "hs_log s' = hs_log s @ es" "sent_replies es = reply_tx c" "reply_tx c \<noteq> [] \<Longrightarrow> answered (hs_log s') c"
  shows "answers_with [] s'"
proof -
  obtain dn where d: "hs_issued s = dn @ filter (\<lambda>c. reply_tx c \<noteq> []) ([c] @ cmd_rx (hs_mux s))"
    "sent_replies (hs_log s) = concat (map reply_tx dn)" "\<forall>c \<in> set dn. answered (hs_log s) c"
    using assms(1) by (auto simp: answers_with_def)
  show ?thesis
    unfolding answers_with_def
    by (rule exI [of _ "dn @ (if reply_tx c \<noteq> [] then [c] else [])"]) (use d assms in \<open>auto intro: answered_append\<close>)
qed

lemma finish_stop_inv:
  assumes s: "is_stopping s" "hs_open s" and a: "answers_with [CmdStop g t f] s"
    and l: "hs_log s = l @ (if g then [EAwaitStops] else [])"
  shows "hs_inv (finish_stop ok t f s)"
proof (cases "stop_end ok t f (hs_server s)")
  case (Err p)
  let ?s = "finish_stop ok t f s"
  have f: "hs_phase ?s = PReturn" "hs_log ?s = hs_log s @ [EJoinAccept]" "hs_issued ?s = hs_issued s"
    "hs_mux ?s = hs_mux s" "hs_open ?s = hs_open s" "hs_server ?s = (hs_server s)\<lparr>accept_running := False\<rparr>"
    by (simp_all add: finish_stop_def Err)
  have "answers_with [CmdStop g t f] ?s" by (rule answers_quiet [OF a, where es = "[EJoinAccept]"]) (simp_all add: f)
  then have "answers_inv ?s" by (rule answers_dead) (simp add: f live_phase_def)
  moreover have "is_stopped ?s" using s by (auto simp: is_stopping_def is_stopped_def stops_sent_def f)
  ultimately show ?thesis using s(2) by (simp add: hs_inv_def f)
next
  case (Ok r)
  obtain srv es where r: "stop_end ok t f (hs_server s) = Ok (srv, es)" using Ok by (cases r) simp
  note e = stop_end_effects [OF r]
  let ?s = "finish_stop ok t f s"
  have f: "hs_log ?s = hs_log s @ filter (\<lambda>e. e \<noteq> ESystemStop) es" "hs_issued ?s = hs_issued s"
    "hs_mux ?s = hs_mux s" "hs_open ?s = hs_open s" "hs_server ?s = srv"
    "hs_phase ?s = (if ESystemStop \<in> set es then PSleep else PReturn)"
    by (simp_all add: finish_stop_def r)
  have "answers_with [] ?s"
  proof (rule answers_reply [OF a f(2) _ f(1)])
    show "sent_replies (filter (\<lambda>e. e \<noteq> ESystemStop) es) = reply_tx (CmdStop g t f)" using e by (cases t) simp_all
    assume "reply_tx (CmdStop g t f) \<noteq> []"
    then obtain tx where tx: "t = Some tx" by (cases t) simp_all
    with e obtain es2 where es2: "filter (\<lambda>e. e \<noteq> ESystemStop) es = [EJoinAccept, EReply tx] @ es2" by auto
    have "hs_log ?s = l @ answer (CmdStop g (Some tx) f) @ es2" unfolding f(1) l es2 by simp
    then have "\<exists>es1 es2. hs_log ?s = es1 @ answer (CmdStop g (Some tx) f) @ es2" by blast
    then show "answered (hs_log ?s) (CmdStop g t f)" using tx by (simp only: answered_def)
  qed (simp add: f)
  then have "answers_inv ?s"
    by (cases "ESystemStop \<in> set es") (simp_all add: f answers_dead answers_invI live_phase_def)
  moreover have "is_stopped ?s" using s e by (auto simp: is_stopping_def is_stopped_def stops_sent_def f)
  ultimately show ?thesis using s(2) by (simp add: hs_inv_def f)
qed

lemma drop_mux_inv:
  assumes "answers_inv s" "is_running s \<or> is_stopping s \<or> is_stopped s"
  shows "hs_inv (drop_mux s)"
  using assms
  by (auto simp: hs_inv_def drop_mux_def answers_inv_def live_phase_def is_running_def is_stopping_def is_stopped_def stops_sent_def)

lemma send_cmd_fields [simp]:
  "hs_phase (send_cmd c s) = hs_phase s" "hs_server (send_cmd c s) = hs_server s" "hs_log (send_cmd c s) = hs_log s"
  "hs_open (send_cmd c s) = hs_open s" "hs_issued (send_cmd c s) = hs_issued s"
  by (simp_all add: send_cmd_def)

lemma phase_inv_cong:
  "hs_server s' = hs_server s \<Longrightarrow> hs_log s' = hs_log s \<Longrightarrow> hs_open s' = hs_open s \<Longrightarrow> phase_inv p s' = phase_inv p s"
  by (cases p) (simp_all add: is_running_def is_stopping_def is_stopped_def stops_sent_def)

lemma send_inv:
  assumes "hs_inv s" "hs_issued s' = hs_issued s @ filter (\<lambda>c. reply_tx c \<noteq> []) [c]"
    "hs_server s' = hs_server s" "hs_log s' = hs_log s" "hs_open s' = hs_open s" "hs_phase s' = hs_phase s" "hs_mux s' = hs_mux s"
  shows "hs_inv (send_cmd c s')"
proof -
  have p: "phase_inv (hs_phase s) s" "answers_inv s" "\<not> hs_open s \<Longrightarrow> cmd_rx (hs_mux s) = []"
    using assms(1) by (simp_all add: hs_inv_def)
  obtain dn rest where d: "hs_issued s = dn @ rest" "sent_replies (hs_log s) = concat (map reply_tx dn)"
    "\<forall>c \<in> set dn. answered (hs_log s) c" "live_phase (hs_phase s) \<longrightarrow> rest = held s"
    using p(2) by (auto simp: answers_inv_def)
  have "live_phase (hs_phase s) \<longrightarrow> hs_open s" using p(1) by (cases "hs_phase s") (simp_all add: live_phase_def)
  then have "answers_inv (send_cmd c s')"
    unfolding answers_inv_def
    by (intro exI [of _ dn] exI [of _ "rest @ filter (\<lambda>c. reply_tx c \<noteq> []) [c]"])
      (use d assms in \<open>auto simp: held_def send_cmd_def\<close>)
  moreover have "phase_inv (hs_phase s) (send_cmd c s')"
    using p(1) by (subst phase_inv_cong [of _ s]) (simp_all add: assms)
  ultimately show ?thesis using p(3) assms by (auto simp: hs_inv_def send_cmd_def)
qed

lemma running_begin:
  assumes "is_running s" "stop_begin g (hs_server s) = (srv, es)"
  shows "is_stopping (s\<lparr>hs_mux := m, hs_server := srv, hs_log := hs_log s @ es\<rparr>)"
  using assms(1) stop_begin_effects [OF assms(2)] by (auto simp: is_running_def is_stopping_def stops_sent_def)

lemma answers_polled:
  assumes "answers_inv s" "hs_phase s = PRun" "mux_poll os cancelled (hs_mux s) = (Ready (Some c), m)"
  shows "answers_with [c] (s\<lparr>hs_mux := m\<rparr>)"
  using answers_invD [OF assms(1)] mux_poll_Ready [OF assms(3)] by (auto simp: answers_with_def assms(2) live_phase_def)

lemma drop_is_stop:
  assumes "is_running s \<or> is_stopping s \<or> is_stopped s"
  shows "wakes_stop (hs_log s @ server_drop (hs_server s)) = 1 \<and> joins (hs_log s @ server_drop (hs_server s)) = 1
    \<and> (\<exists>g. \<forall>(i, ch) \<in> set (worker_handles (hs_server s)). EWorkerStop i ch g \<in> set (hs_log s @ server_drop (hs_server s)))"
proof (cases "is_stopped s")
  case True
  then show ?thesis by (auto simp: is_stopped_def server_drop_def stops_sent_def)
next
  case False
  then have a: "accept_running (hs_server s)" and
    w: "wakes_stop (hs_log s) + (if stopping (hs_server s) then 0 else 1) = 1" "joins (hs_log s) = 0"
    using assms by (auto simp: is_running_def is_stopping_def)
  then have "\<forall>(i, ch) \<in> set (worker_handles (hs_server s)). EWorkerStop i ch False \<in> set (server_drop (hs_server s))"
    by (force simp: server_drop_def)
  with a w show ?thesis by (auto simp: server_drop_def no_wake_in_stops split: if_splits)
qed

lemma replies_drop [simp]: "sent_replies (server_drop s) = []"
  by (simp add: server_drop_def)

lemma handle_step_inv: "handle_step s s' \<Longrightarrow> hs_inv s \<Longrightarrow> hs_inv s'"
proof (induction rule: handle_step.induct)
  case (hc_call c tx graceful s)
  then show ?case
    by (intro send_inv [OF hc_call.prems]) (auto simp: handle_pause_cmd_def handle_resume_cmd_def handle_stop_cmd_def)
next
  case (hc_fault s idx)
  then show ?case by (intro send_inv [OF hc_fault.prems]) (simp_all add: worker_faulted_cmd_def)
next
  case (hc_cmd s os cancelled c m started srv es)
  then have inv: "is_running s" "hs_open s" "answers_inv s" by (simp_all add: hs_inv_def)
  note h = handle_cmd_plain [OF hc_cmd(4,3)]
  let ?s = "s\<lparr>hs_mux := m, hs_server := srv, hs_log := hs_log s @ es\<rparr>"
  have "answers_with [] ?s"
    by (rule answers_reply [OF answers_polled [OF inv(3) hc_cmd(1,2)], where es = es]) (use h answered_last in auto)
  then have "answers_inv ?s" by (rule answers_invI) (simp_all add: hc_cmd(1) live_phase_def)
  with inv h show ?case by (simp add: hs_inv_def hc_cmd(1) is_running_def)
next
  case (hc_panic s os cancelled c m started p)
  then have inv: "is_running s" "hs_open s" "answers_inv s" by (simp_all add: hs_inv_def)
  let ?s = "s\<lparr>hs_mux := m, hs_phase := PReturn\<rparr>"
  have "answers_with [c] ?s"
    by (rule answers_quiet [OF answers_polled [OF inv(3) hc_panic(1,2)], where es = "[]"]) simp_all
  then have "answers_inv ?s" by (rule answers_dead) (simp add: live_phase_def)
  with inv show ?case by (simp add: hs_inv_def is_running_def)
next
  case (hc_stop s os cancelled graceful t f m srv es s1 accept_ok)
  then have inv: "is_running s" "hs_open s" "answers_inv s" by (simp_all add: hs_inv_def)
  note e = stop_begin_effects [OF hc_stop(3)]
  have a: "answers_with [CmdStop graceful t f] s1"
    unfolding hc_stop(4)
    by (rule answers_quiet [OF answers_polled [OF inv(3) hc_stop(1,2)], where es = es]) (use e in simp_all)
  have st: "is_stopping s1" "hs_open s1" using running_begin [OF inv(1) hc_stop(3)] inv(2) by (simp_all add: hc_stop(4))
  show ?case
  proof (cases graceful)
    case True
    have "answers_inv (s1\<lparr>hs_phase := PStops t f\<rparr>)"
      by (rule answers_invI [OF answers_quiet [OF a, where es = "[]"]]) (simp_all add: live_phase_def True)
    with st True show ?thesis by (simp add: hs_inv_def is_stopping_def stops_sent_def)
  next
    case False
    with finish_stop_inv [OF st a, of "hs_log s1"] show ?thesis by simp
  qed
next
  case (hc_stopped s t f accept_ok)
  then have inv: "is_stopping s" "hs_open s" "answers_inv s" by (simp_all add: hs_inv_def)
  let ?s = "s\<lparr>hs_log := hs_log s @ [EAwaitStops]\<rparr>"
  have "answers_with [CmdStop True t f] s"
    using answers_invD [OF inv(3)] by (simp add: hc_stopped(1) live_phase_def)
  then have "answers_with [CmdStop True t f] ?s" by (rule answers_quiet [where es = "[EAwaitStops]"]) simp_all
  moreover have "is_stopping ?s" using inv(1) by (auto simp: is_stopping_def stops_sent_def)
  ultimately show ?case using inv(2) by (intro finish_stop_inv [where l = "hs_log s"]) simp_all
next
  case (hc_slept s)
  then have inv: "is_stopped s" "hs_open s" "answers_inv s" by (simp_all add: hs_inv_def)
  have "answers_with [] s" using answers_invD [OF inv(3)] by (simp add: hc_slept(1) live_phase_def)
  then have "answers_inv (s\<lparr>hs_log := hs_log s @ [ESystemStop], hs_phase := PReturn\<rparr>)"
    by (intro answers_dead [OF answers_quiet [where es = "[ESystemStop]"]]) (simp_all add: live_phase_def)
  with inv show ?case by (auto simp: hs_inv_def is_stopped_def stops_sent_def)
next
  case (hc_return s)
  then show ?case by (intro drop_mux_inv) (auto simp: hs_inv_def)
next
  case (hc_cancel s t f)
  then show ?case by (intro drop_mux_inv) (auto simp: hs_inv_def)
next
  case (hc_inner s)
  then have inv: "is_running s \<or> is_stopping s \<or> is_stopped s" "\<not> hs_open s" "answers_inv s" "cmd_rx (hs_mux s) = []"
    by (simp_all add: hs_inv_def)
  then have "answers_inv (s\<lparr>hs_log := hs_log s @ server_drop (hs_server s), hs_phase := PEnd\<rparr>)"
    by (auto simp: answers_inv_def live_phase_def intro: answered_append)
  with inv drop_is_stop [OF inv(1)] show ?case by (simp add: hs_inv_def stops_sent_def)
qed

lemma hs_start_inv: "hs_inv (hs_start b chans)"
  by (simp add: hs_inv_def hs_start_def server_start_def is_running_def answers_inv_def live_phase_def held_def)

lemma handle_run_inv: "handle_step\<^sup>*\<^sup>* s s' \<Longrightarrow> hs_inv s \<Longrightarrow> hs_inv s'"
  by (induction rule: rtranclp_induct) (auto intro: handle_step_inv)

text \<open>Reply channels are fresh.\<close>

lemma finish_stop_issued [simp]: "hs_issued (finish_stop ok t f s) = hs_issued s"
  by (simp add: finish_stop_def split: result.split prod.split)

lemma handle_step_distinct:
  "handle_step s s' \<Longrightarrow> distinct (concat (map reply_tx (hs_issued s))) \<Longrightarrow> distinct (concat (map reply_tx (hs_issued s')))"
  by (induction rule: handle_step.induct)
    (auto simp: handle_pause_cmd_def handle_resume_cmd_def handle_stop_cmd_def drop_mux_def)

lemma handle_run_distinct:
  "handle_step\<^sup>*\<^sup>* s s' \<Longrightarrow> distinct (concat (map reply_tx (hs_issued s))) \<Longrightarrow> distinct (concat (map reply_tx (hs_issued s')))"
  by (induction rule: rtranclp_induct) (auto intro: handle_step_distinct)

text \<open>While the server runs, a command in the channel makes its multiplexer ready.\<close>

lemma mux_ready:
  "held s \<noteq> [] \<Longrightarrow> hs_phase s = PRun \<Longrightarrow> \<exists>c m. mux_poll os cancelled (hs_mux s) = (Ready (Some c), m)"
  by (cases "cmd_rx (hs_mux s)") (auto simp: held_def mux_poll_def split: poll.splits)

section \<open>Properties\<close>

text \<open>
  C10. Handles and server.  In every interleaving of calls of handles, reports of faulted workers, signals
  and the server's own steps, with the server dropped at any await and panics included: the calls of
  handles are answered in their order, and those that are not answered are, while the server has not
  begun to return, exactly the ones it still holds; a pause or resume is answered right after the accept
  thread has been told, a stop right after that thread was joined, and a graceful one after the workers'
  answers; a server that waits for commands does not sleep while it holds one; once its multiplexer is
  gone no future of a handle waits any more.  However the server ends, it has told the accept thread to
  stop exactly once, joined it exactly once, and sent every worker a stop.
\<close>

theorem handle_futures_resolve:
  assumes "handle_step\<^sup>*\<^sup>* (hs_start b chans) s"
  shows "\<exists>done rest. hs_issued s = done @ rest \<and> distinct (concat (map reply_tx (hs_issued s)))
      \<and> sent_replies (hs_log s) = concat (map reply_tx done) \<and> (\<forall>c \<in> set done. answered (hs_log s) c)
      \<and> (live_phase (hs_phase s) \<longrightarrow> rest = held s)
      \<and> (hs_phase s = PRun \<and> held s \<noteq> [] \<longrightarrow> (\<exists>c m. mux_poll os cancelled (hs_mux s) = (Ready (Some c), m)))
      \<and> (hs_phase s \<in> {PInner, PEnd} \<longrightarrow> held s = [])
      \<and> (hs_phase s = PEnd \<longrightarrow> wakes_stop (hs_log s) = 1 \<and> joins (hs_log s) = 1 \<and> stops_sent s)"
proof -
  have inv: "hs_inv s" by (rule handle_run_inv [OF assms hs_start_inv])
  then obtain dn rest where d: "hs_issued s = dn @ rest" "sent_replies (hs_log s) = concat (map reply_tx dn)"
    "\<forall>c \<in> set dn. answered (hs_log s) c" "live_phase (hs_phase s) \<longrightarrow> rest = held s"
    by (auto simp: hs_inv_def answers_inv_def)
  have fresh: "distinct (concat (map reply_tx (hs_issued s)))"
    by (rule handle_run_distinct [OF assms]) (simp add: hs_start_def)
  have gone: "hs_phase s \<in> {PInner, PEnd} \<longrightarrow> held s = []" using inv by (auto simp: hs_inv_def held_def)
  have ended: "hs_phase s = PEnd \<longrightarrow> wakes_stop (hs_log s) = 1 \<and> joins (hs_log s) = 1 \<and> stops_sent s"
    using inv by (auto simp: hs_inv_def)
  have ready: "hs_phase s = PRun \<and> held s \<noteq> [] \<longrightarrow> (\<exists>c m. mux_poll os cancelled (hs_mux s) = (Ready (Some c), m))"
    using mux_ready by blast
  show ?thesis by (intro exI [of _ dn] exI [of _ rest] conjI d fresh ready gone ended)
qed

text \<open>A pause, then a graceful stop by a handle, up to the end of the server.\<close>

lemma stop_run_sample:
  "\<exists>s. handle_step\<^sup>*\<^sup>* (hs_start (with_default_workers 1 1) [7]) s \<and> hs_phase s = PEnd
     \<and> hs_issued s = [CmdPause 1, CmdStop True (Some 2) False]
     \<and> hs_log s = [EWake Pause, EReply 1, EGraceful, EWake Stop, EWorkerStop 0 7 True, EAwaitStops, EJoinAccept, EReply 2]"
proof -
  let ?b = "with_default_workers 1 1"
  let ?srv = "\<lambda>a st. \<lparr>worker_handles = [(0, 7)], accept_running = a, system_stop = False, stopping = st\<rparr>"
  let ?s = "\<lambda>q op ph a st l is. \<lparr>hs_mux = \<lparr>cmd_rx = q, cmd_closed = False, signal_fut = choose_signal ?b\<rparr>, hs_open = op,
      hs_phase = ph, hs_server = ?srv a st, hs_log = l, hs_issued = is\<rparr>"
  let ?p = "CmdPause 1" and ?q = "CmdStop True (Some 2) False"
  let ?l1 = "[EWake Pause, EReply 1]" and ?l2 = "[EWake Pause, EReply 1, EGraceful, EWake Stop, EWorkerStop 0 7 True]"
  let ?l3 = "?l2 @ [EAwaitStops, EJoinAccept, EReply 2]"
  have start: "hs_start ?b [7] = ?s [] True PRun True False [] []"
    by (simp add: hs_start_def server_start_def with_default_workers_def MAX_WORKERS_def)
  have poll: "mux_poll [] False \<lparr>cmd_rx = c # cs, cmd_closed = False, signal_fut = choose_signal ?b\<rparr>
      = (Ready (Some c), \<lparr>cmd_rx = cs, cmd_closed = False, signal_fut = choose_signal ?b\<rparr>)" for c cs
    by (simp add: mux_poll_def choose_signal_def with_default_workers_def stop_signal_poll_def)
  have 1: "handle_step (?s [] True PRun True False [] []) (?s [?p] True PRun True False [] [?p])"
    using hc_call [where s = "?s [] True PRun True False [] []" and c = ?p and tx = 1]
    by (simp add: handle_pause_cmd_def send_cmd_def)
  have 2: "handle_step (?s [?p] True PRun True False [] [?p]) (?s [?p, ?q] True PRun True False [] [?p, ?q])"
    using hc_call [where s = "?s [?p] True PRun True False [] [?p]" and c = ?q and tx = 2 and graceful = True]
    by (simp add: handle_stop_cmd_def send_cmd_def)
  have 3: "handle_step (?s [?p, ?q] True PRun True False [] [?p, ?q]) (?s [?q] True PRun True False ?l1 [?p, ?q])"
    using hc_cmd [where s = "?s [?p, ?q] True PRun True False [] [?p, ?q]" and os = "[]" and cancelled = False
        and started = "Err ()" and c = ?p] poll by simp
  have 4: "handle_step (?s [?q] True PRun True False ?l1 [?p, ?q]) (?s [] True (PStops (Some 2) False) True True ?l2 [?p, ?q])"
    using hc_stop [where s = "?s [?q] True PRun True False ?l1 [?p, ?q]" and os = "[]" and cancelled = False
        and graceful = True and t = "Some 2" and f = False, OF _ _ _ refl] poll
    by (simp add: stop_begin_def)
  have 5: "handle_step (?s [] True (PStops (Some 2) False) True True ?l2 [?p, ?q]) (?s [] True PReturn False True ?l3 [?p, ?q])"
    using hc_stopped [where s = "?s [] True (PStops (Some 2) False) True True ?l2 [?p, ?q]" and accept_ok = True
        and t = "Some 2" and f = False]
    by (simp add: finish_stop_def stop_end_def)
  have 6: "handle_step (?s [] True PReturn False True ?l3 [?p, ?q]) (?s [] False PInner False True ?l3 [?p, ?q])"
    using hc_return [where s = "?s [] True PReturn False True ?l3 [?p, ?q]"] by (simp add: drop_mux_def)
  have 7: "handle_step (?s [] False PInner False True ?l3 [?p, ?q]) (?s [] False PEnd False True ?l3 [?p, ?q])"
    using hc_inner [where s = "?s [] False PInner False True ?l3 [?p, ?q]"] by (simp add: server_drop_def)
  note step = converse_rtranclp_into_rtranclp [where r = handle_step]
  have "handle_step\<^sup>*\<^sup>* (hs_start ?b [7]) (?s [] False PEnd False True ?l3 [?p, ?q])"
    unfolding start
    by (rule step, rule 1, rule step, rule 2, rule step, rule 3, rule step, rule 4, rule step, rule 5, rule step, rule 6,
        rule step, rule 7, rule rtranclp.rtrancl_refl)
  then show ?thesis by (intro exI [of _ "?s [] False PEnd False True ?l3 [?p, ?q]"]) simp
qed

theorem handle_futures_resolve_witness:
  "\<exists>s. handle_step\<^sup>*\<^sup>* (hs_start (with_default_workers 1 1) [7]) s \<and> hs_phase s = PEnd \<and> sent_replies (hs_log s) = [1, 2]
     \<and> answered (hs_log s) (CmdStop True (Some 2) False) \<and> held s = [] \<and> wakes_stop (hs_log s) = 1"
proof -
  from stop_run_sample obtain s where s: "handle_step\<^sup>*\<^sup>* (hs_start (with_default_workers 1 1) [7]) s" "hs_phase s = PEnd"
    "hs_issued s = [CmdPause 1, CmdStop True (Some 2) False]" "sent_replies (hs_log s) = [1, 2]" by force
  from handle_futures_resolve [OF s(1)] obtain dn rest where d: "hs_issued s = dn @ rest"
    "sent_replies (hs_log s) = concat (map reply_tx dn)" "\<forall>c \<in> set dn. answered (hs_log s) c" "held s = []"
    "wakes_stop (hs_log s) = 1" using s(2) by auto
  have "rest = []" using d(1,2) s(3,4) by (cases dn; cases "tl dn"; auto)
  with d s show ?thesis by (intro exI [of _ s]) auto
qed

end
