(* ===== verification/Server_Shutdown.thy ===== *)
theory Server_Shutdown
  imports Server_Command
begin

text \<open>
  \<open>actix-server/src/shutdown.rs\<close>: the signal that tells listeners of a graceful shutdown, over the effects
  of the server in \<open>Server_Command\<close>.  The channel is tokio's \<open>watch\<close>, a parameter: \<open>changed seen cur
  closed\<close> is the answer of \<open>Receiver::changed\<close> for a receiver that has seen version \<open>seen\<close> of a channel
  at version \<open>cur\<close>, whose sender is gone if \<open>closed\<close>; \<open>watch_laws\<close> is what tokio documents of it.  Each
  \<open>EGraceful\<close> of the server is a \<open>send_replace\<close>, which makes a new version.
\<close>

section \<open>The signal\<close>

record graceful_signal =
  rx_seen :: nat

definition signal_new :: "nat \<Rightarrow> graceful_signal" where
  "signal_new rx = \<lparr>rx_seen = rx\<rparr>"

text \<open>\<open>graceful_shutdown_signal\<close> of the builder subscribes at the version of that moment.\<close>

definition graceful_shutdown_signal :: "nat \<Rightarrow> graceful_signal" where
  "graceful_shutdown_signal cur = signal_new cur"

text \<open>The \<open>async\<close> function \<open>notified\<close>, suspended at its two awaits.\<close>

datatype notified = NotifiedWait nat | NotifiedForever | NotifiedDone

definition notified_new :: "graceful_signal \<Rightarrow> notified" where
  "notified_new sig = NotifiedWait (rx_seen sig)"

fun notified_poll ::
  "(nat \<Rightarrow> nat \<Rightarrow> bool \<Rightarrow> (unit, unit) result poll) \<Rightarrow> nat \<Rightarrow> bool \<Rightarrow> notified \<Rightarrow> (unit poll, panic) result \<times> notified" where
  "notified_poll changed cur closed (NotifiedWait seen) =
     (case changed seen cur closed of
        Pending \<Rightarrow> (Ok Pending, NotifiedWait seen)
      | Ready (Ok u) \<Rightarrow> (Ok (Ready ()), NotifiedDone)
      | Ready (Err u) \<Rightarrow> (Ok Pending, NotifiedForever))"
| "notified_poll changed cur closed NotifiedForever = (Ok Pending, NotifiedForever)"
| "notified_poll changed cur closed NotifiedDone = (Err ExplicitPanic, NotifiedDone)"

definition watch_laws :: "(nat \<Rightarrow> nat \<Rightarrow> bool \<Rightarrow> (unit, unit) result poll) \<Rightarrow> bool" where
  "watch_laws changed \<longleftrightarrow>
     (\<forall>seen cur closed.
        (cur \<noteq> seen \<longrightarrow> changed seen cur closed = Ready (Ok ()))
        \<and> (cur = seen \<longrightarrow> changed seen cur closed = (if closed then Ready (Err ()) else Pending)))"

text \<open>Whether a listener polled in these states of the channel, in order, is notified.\<close>

fun resolves :: "(nat \<Rightarrow> nat \<Rightarrow> bool \<Rightarrow> (unit, unit) result poll) \<Rightarrow> (nat \<times> bool) list \<Rightarrow> notified \<Rightarrow> bool" where
  "resolves changed [] n = False"
| "resolves changed ((cur, closed) # ps) n =
     (case notified_poll changed cur closed n of
        (Ok (Ready u), n1) \<Rightarrow> True
      | (Ok Pending, n1) \<Rightarrow> resolves changed ps n1
      | (Err p, n1) \<Rightarrow> False)"

section \<open>The channel during a run of the server\<close>

text \<open>The version is the number of graceful stops so far; the sender goes with the server.\<close>

definition channel_at :: "effect list \<Rightarrow> nat \<Rightarrow> nat \<times> bool" where
  "channel_at es k = (length (filter (\<lambda>e. e = EGraceful) (take k es)), length es < k)"

definition stop_effect :: "effect \<Rightarrow> bool" where
  "stop_effect e = (case e of EGraceful \<Rightarrow> True | EWake i \<Rightarrow> i = Stop | EWorkerStop i ch g \<Rightarrow> True | _ \<Rightarrow> False)"

fun first_stop :: "(command \<times> (handle \<times> nat, unit) result) list \<Rightarrow> bool option" where
  "first_stop [] = None"
| "first_stop ((CmdStop g completion force, st) # cs) = Some g"
| "first_stop (c # cs) = first_stop cs"

lemma resolves_forever: "\<not> resolves changed ps NotifiedForever"
  by (induction ps) auto

lemma resolves_iff:
  assumes "watch_laws changed" and "\<And>c. c \<in> set ps \<Longrightarrow> snd c \<Longrightarrow> fst c = seen \<Longrightarrow> \<forall>d \<in> set ps. fst d = seen"
  shows "resolves changed ps (NotifiedWait seen) \<longleftrightarrow> (\<exists>c \<in> set ps. fst c \<noteq> seen)"
  using assms(2)
proof (induction ps)
  case (Cons c ps)
  obtain cur closed where c: "c = (cur, closed)" by force
  show ?case
  proof (cases "cur = seen")
    case False
    then show ?thesis using assms(1) by (simp add: c watch_laws_def)
  next
    case seen: True
    show ?thesis
    proof (cases closed)
      case True
      with Cons.prems [of c] seen have "\<forall>d \<in> set (c # ps). fst d = seen" by (simp add: c)
      with assms(1) True seen show ?thesis by (auto simp: c watch_laws_def resolves_forever)
    next
      case False
      have "\<forall>d \<in> set ps. fst d = seen" if "e \<in> set ps" "snd e" "fst e = seen" for e
        using Cons.prems [of e] that by simp
      with Cons.IH assms(1) False seen show ?thesis by (auto simp: c watch_laws_def)
    qed
  qed
qed simp

lemma handle_cmd_quiet:
  assumes "accept_running s" "\<not> stopping s" "faults_known s [(k, st)]" "\<And>g co f. k \<noteq> CmdStop g co f"
  obtains s1 es where "handle_cmd True (k, st) s = Ok (s1, es)" "accept_running s1" "\<not> stopping s1"
    "fst ` set (worker_handles s1) = fst ` set (worker_handles s)" "list_all (\<lambda>e. \<not> stop_effect e) es"
proof (cases k)
  case (WorkerFaulted idx)
  have "set (map fst (replace_handle idx ch (worker_handles s))) = set (map fst (worker_handles s))" for ch
    by (simp add: replace_handle_ids)
  with assms WorkerFaulted that show thesis
    by (cases st) (auto simp: faults_known_def stop_effect_def)
qed (use assms that in \<open>auto simp: stop_effect_def\<close>)

lemma no_graceful_in_stops: "EGraceful \<notin> set (map (\<lambda>(i, ch). EWorkerStop i ch g) hs)"
  by auto

lemma server_run_stop_effects:
  assumes "accept_running s" "\<not> stopping s" "faults_known s cs"
  shows "\<exists>s' es1 es2. server_run True cs s = Ok (s', es1 @ (if first_stop cs = Some True then [EGraceful] else []) @ es2)
    \<and> list_all (\<lambda>e. \<not> stop_effect e) es1 \<and> EGraceful \<notin> set es2"
  using assms
proof (induction cs arbitrary: s)
  case Nil
  then show ?case by (intro exI [of _ s] exI [of _ "[]"]) simp
next
  case (Cons c cs)
  obtain k st where c: "c = (k, st)" by force
  show ?case
  proof (cases "\<exists>g co f. k = CmdStop g co f")
    case True
    then obtain g co f where k: "k = CmdStop g co f" by blast
    define es2 where "es2 = [EWake Stop] @ map (\<lambda>(idx, ch). EWorkerStop idx ch g) (worker_handles s) @ (if g then [EAwaitStops] else [])
        @ [EJoinAccept] @ (case co of Some tx \<Rightarrow> [EReply tx] | None \<Rightarrow> [])
        @ (if system_stop s \<or> f then [ESleep SYSTEM_STOP_DELAY, ESystemStop] else [])"
    have "server_run True (c # cs) s = Ok (s\<lparr>stopping := True, accept_running := False\<rparr>, (if g then [EGraceful] else []) @ es2)"
      using Cons.prems(1) by (simp add: c k stop_begin_def stop_end_def es2_def)
    moreover have "EGraceful \<notin> set es2" by (auto simp: es2_def split: option.splits)
    ultimately show ?thesis by (intro exI [of _ "s\<lparr>stopping := True, accept_running := False\<rparr>"] exI [of _ "[]"] exI [of _ es2]) (simp add: c k)
  next
    case False
    have f: "faults_known s [(k, st)]" "faults_known s cs" using Cons.prems(3) by (simp_all add: faults_known_def c)
    from handle_cmd_quiet [OF Cons.prems(1,2) f(1)] False obtain s1 es where h:
      "handle_cmd True (k, st) s = Ok (s1, es)" "accept_running s1" "\<not> stopping s1"
      "fst ` set (worker_handles s1) = fst ` set (worker_handles s)" "list_all (\<lambda>e. \<not> stop_effect e) es" by metis
    have "faults_known s1 cs" using f(2) h(4) by (simp add: faults_known_def)
    from Cons.IH [OF h(2,3) this] obtain s' es1 es2 where r:
      "server_run True cs s1 = Ok (s', es1 @ (if first_stop cs = Some True then [EGraceful] else []) @ es2)"
      "list_all (\<lambda>e. \<not> stop_effect e) es1" "EGraceful \<notin> set es2" by blast
    have "first_stop (c # cs) = first_stop cs" using False by (cases k) (simp_all add: c)
    with r h show ?thesis
      by (intro exI [of _ s'] exI [of _ "es @ es1"] exI [of _ es2]) (simp add: c)
  qed
qed

lemma drop_not_graceful: "EGraceful \<notin> set (server_drop s)"
  by (auto simp: server_drop_def)

lemma filter_graceful_quiet: "list_all (\<lambda>e. \<not> stop_effect e) es \<Longrightarrow> filter (\<lambda>e. e = EGraceful) es = []"
  by (induction es) (auto simp: stop_effect_def)

lemma filter_graceful_none: "EGraceful \<notin> set es \<Longrightarrow> filter (\<lambda>e. e = EGraceful) es = []"
  by (auto simp: filter_empty_conv)

text \<open>The version is zero up to the graceful stop and one from there on.\<close>

lemma version_at:
  assumes "EGraceful \<notin> set es1" "EGraceful \<notin> set es2"
  shows "fst (channel_at (es1 @ EGraceful # es2) k) = (if length es1 < k then 1 else 0)"
proof -
  have "EGraceful \<notin> set (take k es1)" "EGraceful \<notin> set (take m es2)" for m
    using assms by (auto dest: in_set_takeD)
  then show ?thesis
    by (cases "k - length es1") (auto simp: channel_at_def filter_graceful_none)
qed

lemma version_none: "EGraceful \<notin> set es \<Longrightarrow> fst (channel_at es k) = 0"
  by (auto simp: channel_at_def filter_empty_conv dest: in_set_takeD)

section \<open>Properties\<close>

text \<open>
  C16. The graceful shutdown signal.  A server run to its end and dropped: if the first stop command is
  graceful, the signal is sent once, before the accept thread or a worker is told to stop, and a
  listener that subscribed at the builder is notified by exactly the polls after that, also polls after
  the server is gone; if it is forced, or the server is dropped without a stop, no listener is ever
  notified, however often it is polled.\<close>

theorem graceful_signal_delivered:
  assumes "accept_running s" and "\<not> stopping s" and "faults_known s cs" and "watch_laws changed"
  shows "\<exists>s' es. server_run True cs s = Ok (s', es)
    \<and> (if first_stop cs = Some True
       then \<exists>i < length es. es ! i = EGraceful \<and> (\<forall>j < i. \<not> stop_effect (es ! j))
         \<and> (\<forall>ks. resolves changed (map (channel_at (es @ server_drop s')) ks) (notified_new (graceful_shutdown_signal 0))
              \<longleftrightarrow> (\<exists>k \<in> set ks. i < k))
       else \<forall>ks. \<not> resolves changed (map (channel_at (es @ server_drop s')) ks) (notified_new (graceful_shutdown_signal 0)))"
proof -
  from server_run_stop_effects [OF assms(1-3)] obtain s' es1 es2 where r:
    "server_run True cs s = Ok (s', es1 @ (if first_stop cs = Some True then [EGraceful] else []) @ es2)"
    "list_all (\<lambda>e. \<not> stop_effect e) es1" "EGraceful \<notin> set es2" by blast
  have e1: "EGraceful \<notin> set es1" using r(2) by (auto simp: list_all_iff stop_effect_def)
  have e2: "EGraceful \<notin> set (es2 @ server_drop s')" using r(3) drop_not_graceful by simp
  have n: "notified_new (graceful_shutdown_signal 0) = NotifiedWait 0"
    by (simp add: notified_new_def graceful_shutdown_signal_def signal_new_def)
  show ?thesis
  proof (cases "first_stop cs = Some True")
    case True
    let ?all = "es1 @ EGraceful # (es2 @ server_drop s')"
    have late: "fst (channel_at ?all k) = (if length es1 < k then 1 else 0)" for k
      by (rule version_at [OF e1 e2])
    have "snd (channel_at ?all k) \<longrightarrow> length es1 < k" for k by (simp add: channel_at_def)
    then have "resolves changed (map (channel_at ?all) ks) (NotifiedWait 0) \<longleftrightarrow> (\<exists>k \<in> set ks. length es1 < k)" for ks
      by (subst resolves_iff [OF assms(4)]) (auto simp: late split: if_splits)
    moreover have "\<forall>j < length es1. \<not> stop_effect (es1 ! j)" using r(2) by (simp add: list_all_length)
    ultimately show ?thesis using r(1) True
      by (intro exI [of _ s'] exI [of _ "es1 @ EGraceful # es2"]) (auto simp: n nth_append intro!: exI [of _ "length es1"])
  next
    case False
    have z: "fst (channel_at (es1 @ es2 @ server_drop s') k) = 0" for k
      by (rule version_none) (use e1 e2 in simp)
    have "\<not> resolves changed (map (channel_at (es1 @ es2 @ server_drop s')) ks) (NotifiedWait 0)" for ks
      by (subst resolves_iff [OF assms(4)]) (auto simp: z)
    with r(1) False show ?thesis
      by (intro exI [of _ s'] exI [of _ "es1 @ es2"]) (simp add: n)
  qed
qed

theorem graceful_signal_delivered_witness:
  "\<exists>s' es i. server_run True [(CmdPause 1, Err ()), (CmdStop True (Some 2) False, Err ())]
       (server_start (with_default_workers 2 2) [5, 6]) = Ok (s', es) \<and> es ! i = EGraceful
     \<and> resolves (\<lambda>seen cur closed. if cur \<noteq> seen then Ready (Ok ()) else if closed then Ready (Err ()) else Pending)
         (map (channel_at (es @ server_drop s')) [0, i, Suc i]) (notified_new (graceful_shutdown_signal 0))"
proof -
  let ?s = "server_start (with_default_workers 2 2) [5, 6]"
  let ?cs = "[(CmdPause 1, Err ()), (CmdStop True (Some 2) False, Err ())] :: (command \<times> (handle \<times> nat, unit) result) list"
  let ?ch = "\<lambda>seen cur closed. if cur \<noteq> seen then Ready (Ok ()) else if closed then Ready (Err ()) else Pending"
  have "accept_running ?s" "\<not> stopping ?s" "faults_known ?s ?cs" "watch_laws ?ch"
    by (simp_all add: server_start_def faults_known_def watch_laws_def)
  from graceful_signal_delivered [OF this] obtain s' es i where r: "server_run True ?cs ?s = Ok (s', es)" "es ! i = EGraceful"
    "\<forall>ks. resolves ?ch (map (channel_at (es @ server_drop s')) ks) (notified_new (graceful_shutdown_signal 0)) \<longleftrightarrow> (\<exists>k \<in> set ks. i < k)"
    by (auto split: if_splits)
  from r(3) have "resolves ?ch (map (channel_at (es @ server_drop s')) [0, i, Suc i]) (notified_new (graceful_shutdown_signal 0))"
    by (metis lessI list.set_intros(1,2))
  with r(1,2) show ?thesis by blast
qed

end
