(* ===== verification/Server_Run.thy ===== *)
theory Server_Run
  imports Accept_Loop Server_Worker "HOL-Library.Sublist"
begin

text \<open>
  The accept thread of \<open>Accept\<close> and the workers of \<open>Server_Worker\<close> together, while the server runs: the
  queue and the counter of a worker are those of the accept thread's handle, the worker's
  notifications are what the accept thread finds in its waker queue, and every interleaving of
  dispatch, notification, worker polls and ends of handlers is a run.  How such a run begins is in
  \<open>Server_Start\<close>.  Connections are dispatched as
  \<open>accept\<close> does it, when some worker is flagged available.  No stop is requested; what stops do is in
  \<open>Server_Worker\<close> and \<open>Server_Command\<close>.
\<close>

section \<open>State and steps\<close>

record server_sys =
  sys_acc :: acc
  sys_workers :: "worker list"
  taken :: "conn list"

definition handle_of :: "worker \<Rightarrow> handle" where
  "handle_of w = \<lparr>h_idx = widx w, h_open = True, h_queue = conn_rx w, h_counter = counter w\<rparr>"

text \<open>What a worker sees of its handle.\<close>

definition sync_worker :: "worker \<Rightarrow> handle \<Rightarrow> worker" where
  "sync_worker w h = w\<lparr>conn_rx := h_queue h, counter := h_counter h\<rparr>"

text \<open>A worker changed: its handle shows it.\<close>

definition set_worker :: "nat \<Rightarrow> worker \<Rightarrow> server_sys \<Rightarrow> server_sys" where
  "set_worker i w y = y\<lparr>sys_workers := (sys_workers y)[i := w],
     sys_acc := (sys_acc y)\<lparr>handles := (handles (sys_acc y))[i := handle_of w]\<rparr>\<rparr>"

inductive sys_step :: "(nat \<Rightarrow> bool) \<Rightarrow> server_sys \<Rightarrow> server_sys \<Rightarrow> bool" for conv where
  sys_dispatch: "available (avail (sys_acc y)) \<Longrightarrow> \<forall>w \<in> set (sys_workers y). c_token c < length (services w) \<Longrightarrow>
     accept_one c (sys_acc y) = Some (Ok s) \<Longrightarrow>
     sys_step conv y (y\<lparr>sys_acc := s, sys_workers := map2 sync_worker (sys_workers y) (handles s),
       taken := taken y @ [c]\<rparr>)"
| sys_notified: "i < length (sys_workers y) \<Longrightarrow> notices (sys_workers y ! i) = j # js \<Longrightarrow>
     set_available (avail (sys_acc y)) j True = Ok a \<Longrightarrow>
     sys_step conv y (y\<lparr>sys_acc := (sys_acc y)\<lparr>avail := a\<rparr>,
       sys_workers := (sys_workers y)[i := (sys_workers y ! i)\<lparr>notices := js\<rparr>]\<rparr>)"
| sys_poll: "i < length (sys_workers y) \<Longrightarrow> worker_poll conv now (sys_workers y ! i) = Some (Ok (b, w)) \<Longrightarrow>
     sys_step conv y (set_worker i w y)"
| sys_done: "i < length (sys_workers y) \<Longrightarrow> k < length (worker.live (sys_workers y ! i)) \<Longrightarrow>
     sys_step conv y (set_worker i (handler_done k (sys_workers y ! i)) y)"

section \<open>One worker and its flag\<close>

text \<open>A worker has room, and is flagged or has its one notification on the way, or it is full.\<close>

definition room :: "usize \<Rightarrow> bool \<Rightarrow> worker \<Rightarrow> bool" where
  "room l a w \<longleftrightarrow> limit (counter w) = l \<and> (notices w = [] \<or> notices w = [widx w]) \<and> (a \<longrightarrow> notices w = [])
     \<and> (if a \<or> notices w \<noteq> [] then unat (raw (counter w)) \<le> unat l else unat (raw (counter w)) = unat l + 1)"

fun shutting :: "wstate \<Rightarrow> bool" where
  "shutting (WShutdown timer start_from tx) = True"
| "shutting s = False"

lemma shutting_iff: "shutting s \<longleftrightarrow> (\<exists>a b c. s = WShutdown a b c)"
  by (cases s) auto

definition running :: "worker \<Rightarrow> bool" where
  "running w \<longleftrightarrow> worker_wf w \<and> stop_rx w = [] \<and> \<not> shutting (wstate w)"

lemma room_cong:
  "counter w' = counter w \<Longrightarrow> notices w' = notices w \<Longrightarrow> widx w' = widx w \<Longrightarrow> room l a w' = room l a w"
  by (simp add: room_def)

lemma drop_guard_room:
  assumes "room l a w" "0 < unat (raw (counter w))"
  shows "room l a (drop_guard w) \<and> widx (drop_guard w) = widx w"
proof -
  obtain b k where k: "wc_dec (counter w) = (b, k)" by force
  with wc_dec_cases [OF k assms(2)] assms show ?thesis
    by (auto simp: room_def drop_guard_def guard_dropped_def split: if_splits)
qed

lemma sync_handle_of [simp]: "sync_worker w (handle_of w) = w"
  by (simp add: sync_worker_def handle_of_def)

text \<open>What a worker step keeps.\<close>

definition keeps :: "usize \<Rightarrow> bool \<Rightarrow> worker \<Rightarrow> worker \<Rightarrow> bool" where
  "keeps l a w w' \<longleftrightarrow> room l a w' \<and> widx w' = widx w \<and> stop_rx w' = [] \<and> length (services w') = length (services w)
     \<and> \<not> shutting (wstate w')"

lemma check_readiness_keeps:
  assumes "check_readiness w = (r, w1)"
  shows "counter w1 = counter w \<and> notices w1 = notices w \<and> widx w1 = widx w \<and> stop_rx w1 = stop_rx w
    \<and> wstate w1 = wstate w \<and> length (services w1) = length (services w) \<and> worker.live w1 = worker.live w"
  using check_readiness_fields(3) [OF assms] by (subst (1 2 3 4 5 7) check_readiness_fields(1) [OF assms]) simp

lemma restart_service_keeps:
  "restart_service k f w = Ok w1 \<Longrightarrow> counter w1 = counter w \<and> notices w1 = notices w \<and> widx w1 = widx w
     \<and> stop_rx w1 = stop_rx w \<and> length (services w1) = length (services w) \<and> \<not> shutting (wstate w1)"
  by (auto simp: restart_service_def ask_def split: if_splits)

lemma keeps_same:
  "running w \<Longrightarrow> room l a w \<Longrightarrow> counter w' = counter w \<Longrightarrow> notices w' = notices w \<Longrightarrow> widx w' = widx w \<Longrightarrow>
   stop_rx w' = stop_rx w \<Longrightarrow> length (services w') = length (services w) \<Longrightarrow> \<not> shutting (wstate w') \<Longrightarrow> keeps l a w w'"
  by (simp add: keeps_def room_def running_def)

text \<open>The next state of a step, and that the step does not end the worker.\<close>

fun goes_on :: "(worker \<Rightarrow> bool) \<Rightarrow> wnext \<Rightarrow> bool" where
  "goes_on P (Return b w) = (\<not> b \<and> P w)"
| "goes_on P (Continue t w) = P w"
| "goes_on P (Panicked p) = True"

lemma check_restart_keeps:
  assumes w: "running w" "room l a w" and c: "check_readiness w = (r, w1)" and r: "restart_service k f w1 = Ok w2"
  shows "keeps l a w w2"
  using check_readiness_keeps [OF c] restart_service_keeps [OF r] w by (intro keeps_same) auto

lemma poll_unavailable_keeps:
  assumes w: "running w" "room l a w"
  shows "goes_on (keeps l a w) (poll_unavailable w)"
proof -
  obtain r w1 where c: "check_readiness w = (r, w1)" by force
  have "keeps l a w w1" "keeps l a w (w1\<lparr>wstate := WAvailable\<rparr>)"
    using check_readiness_keeps [OF c] w by (auto intro!: keeps_same simp: running_def)
  with check_restart_keeps [OF w c] show ?thesis
    by (auto simp: poll_unavailable_def c split: result.split)
qed

lemma poll_restarting_keeps:
  assumes w: "running w" "room l a w"
  shows "goes_on (keeps l a w) (poll_restarting f k fut w)"
proof -
  have "keeps l a w (w\<lparr>wstate := WRestarting f k g\<rparr>)" "keeps l a w (w\<lparr>services := (services w)[k := x], wstate := WUnavailable\<rparr>)" for g x
    by (rule keeps_same [OF w]; simp)+
  then show ?thesis by (auto simp: poll_restarting_def split: prod.split poll.split result.split)
qed

lemma stream_call_keeps:
  assumes w: "running w" "room l a w" and c: "check_readiness w = (r, w1)"
  shows "keeps l a w (stream_call conv x (w1\<lparr>conn_rx := cs, calls := ks\<rparr>))"
proof -
  let ?w1 = "w1\<lparr>conn_rx := cs, calls := ks\<rparr>"
  note ck = check_readiness_keeps [OF c]
  have "0 < unat (raw (counter ?w1))" using worker_wfD(1) w(1) ck by (auto simp: running_def)
  moreover have "room l a ?w1" using ck w(2) by (simp add: room_def)
  ultimately have d: "room l a (drop_guard ?w1) \<and> widx (drop_guard ?w1) = widx ?w1" by (intro drop_guard_room)
  show ?thesis
  proof (cases "conv (c_io x)")
    case True
    then show ?thesis using ck w by (auto simp: stream_call_def running_def intro!: keeps_same)
  next
    case False
    with d ck w(1) show ?thesis by (simp add: stream_call_def keeps_def drop_guard_fields running_def)
  qed
qed

lemma poll_available_keeps:
  assumes w: "running w" "room l a w"
  shows "goes_on (keeps l a w) (poll_available conv w)"
proof -
  obtain r w1 where c: "check_readiness w = (r, w1)" by force
  have "keeps l a w w1" "keeps l a w (w1\<lparr>wstate := WUnavailable\<rparr>)"
    using check_readiness_keeps [OF c] w by (auto intro!: keeps_same simp: running_def)
  with check_restart_keeps [OF w c] stream_call_keeps [OF w c] show ?thesis
    by (auto simp: poll_available_def c split: result.split list.split)
qed

lemma worker_step_keeps:
  assumes w: "running w" "room l a w"
  shows "goes_on (keeps l a w) (worker_step conv now t w)"
  using w poll_unavailable_keeps [OF w] poll_restarting_keeps [OF w] poll_available_keeps [OF w]
  by (cases "wstate w") (simp_all add: worker_step_def handle_stop_def running_def)

lemma worker_run_keeps:
  assumes "running w" "room l a w" "t \<or> wstate w = WAvailable" "worker_run conv now t w = Some (Ok (b, w'))"
  shows "keeps l a w w' \<and> \<not> b"
proof -
  have "keeps l a w w' \<and> \<not> b"
    if "worker_run conv now t w = Some r" "r = Ok (b, w')" "running w" "room l a w" "t \<or> wstate w = WAvailable" for r
    using that
  proof (induction rule: worker_run_induct)
    case (Return t w b1 w1)
    with worker_step_keeps [OF Return(3,4), of conv now t] show ?case by simp
  next
    case (Continue t w t1 w1 r)
    have wf: "worker_wf w" using Continue.prems(2) by (simp add: running_def)
    note ok = worker_step_ok [OF wf Continue.prems(4), of conv now]
    have k1: "keeps l a w w1" using worker_step_keeps [OF Continue.prems(2,3), of conv now t] Continue(1) by simp
    have run: "running w1" using ok Continue(1) k1 by (simp add: step_ok_def running_def keeps_def)
    have "room l a w1" using k1 by (simp add: keeps_def)
    from Continue.IH [OF Continue.prems(1) run this] quiet_step [OF Continue(1) Continue.prems(4)]
    have "keeps l a w1 w' \<and> \<not> b" by blast
    with k1 show ?case by (simp add: keeps_def)
  qed simp
  with assms show ?thesis by blast
qed

text \<open>A poll of a running worker that returns: it goes on running, its queue went to the services, nothing is dropped.\<close>

lemma worker_poll_running:
  assumes "running w" "room l a w" and p: "worker_poll conv now w = Some (Ok (b, w'))"
  shows "running w' \<and> keeps l a w w' \<and> map snd (calls w') @ conn_rx w' = map snd (calls w) @ conn_rx w"
proof -
  have wf: "worker_wf w" using assms(1) by (simp add: running_def)
  have k: "keeps l a w w'" "\<not> b"
    using worker_run_keeps [OF assms(1,2), of True conv now b w'] p by (simp_all add: worker_poll_def)
  note worker_poll_ok(1,2) [OF wf p]
  with k obtain ds where ds: "conn_rx w = ds @ conn_rx w'" "calls w' = calls w @ map (\<lambda>c. (c_token c, c)) ds" "worker_wf w'"
    by (auto simp: served_def keeps_def shutting_iff)
  then have "map snd (calls w') = map snd (calls w) @ ds" by (simp add: comp_def)
  with ds k show ?thesis by (simp add: running_def keeps_def del: mset_map)
qed

lemma handler_done_keeps:
  assumes "running w" "room l a w" "k < length (worker.live w)"
  shows "running (handler_done k w) \<and> keeps l a w (handler_done k w)
    \<and> conn_rx (handler_done k w) = conn_rx w \<and> calls (handler_done k w) = calls w"
proof -
  let ?w1 = "w\<lparr>worker.live := take k (worker.live w) @ drop (Suc k) (worker.live w)\<rparr>"
  have "0 < unat (raw (counter ?w1))" using worker_wfD(1) assms(1) by (auto simp: running_def)
  moreover have "room l a ?w1" using assms(2) by (simp add: room_def)
  ultimately have "room l a (drop_guard ?w1) \<and> widx (drop_guard ?w1) = widx ?w1" by (intro drop_guard_room)
  with assms handler_done_wf [of w k] show ?thesis
    by (simp add: handler_done_def running_def keeps_def drop_guard_fields)
qed

section \<open>The invariant\<close>

definition flag_of :: "server_sys \<Rightarrow> worker \<Rightarrow> bool" where
  "flag_of y w = avail_bit (avail (sys_acc y)) (widx w)"

text \<open>The connections a worker was given, in order: those it called services on, then its queue.\<close>

definition worker_log :: "worker \<Rightarrow> conn list" where
  "worker_log w = map snd (calls w) @ conn_rx w"

definition sys_inv :: "usize \<Rightarrow> server_sys \<Rightarrow> bool" where
  "sys_inv l y \<longleftrightarrow> acc_wf (sys_acc y) \<and> handles (sys_acc y) = map handle_of (sys_workers y)
     \<and> (\<forall>w \<in> set (sys_workers y). running w \<and> room l (flag_of y w) w \<and> subseq (worker_log w) (taken y))
     \<and> mset (taken y) = (\<Sum>w \<leftarrow> sys_workers y. mset (worker_log w))"

lemma sys_invD:
  assumes "sys_inv l y" "i < length (sys_workers y)"
  shows "running (sys_workers y ! i)" "room l (flag_of y (sys_workers y ! i)) (sys_workers y ! i)"
    "subseq (worker_log (sys_workers y ! i)) (taken y)"
    "handles (sys_acc y) ! i = handle_of (sys_workers y ! i)" "h_idx (handles (sys_acc y) ! i) = widx (sys_workers y ! i)"
  using assms by (auto simp: sys_inv_def handle_of_def)

lemma sum_list_update:
  fixes f :: "'a \<Rightarrow> 'b :: comm_monoid_add"
  shows "i < length xs \<Longrightarrow> f x = f (xs ! i) + d \<Longrightarrow> (\<Sum>x \<leftarrow> xs[i := x]. f x) = (\<Sum>x \<leftarrow> xs. f x) + d"
  by (induction xs arbitrary: i) (auto split: nat.splits simp: ac_simps)

lemma in_set_list_updateE:
  assumes "v \<in> set (xs[i := w])"
  obtains "v = w" | k where "k < length xs" "k \<noteq> i" "v = xs ! k"
proof -
  obtain k where "k < length xs" "v = xs[i := w] ! k" using assms by (metis in_set_conv_nth length_list_update)
  with that show thesis by (cases "k = i") auto
qed

text \<open>A worker changed by itself.\<close>

lemma acc_wf_same_idxs:
  "acc_wf s \<Longrightarrow> map h_idx hs = map h_idx (handles s) \<Longrightarrow> acc_wf (s\<lparr>handles := hs\<rparr>)"
proof -
  assume a: "acc_wf s" "map h_idx hs = map h_idx (handles s)"
  then have "set (map h_idx hs) = set (map h_idx (handles s))" "length hs = length (handles s)"
    by (simp_all, metis length_map)
  moreover from this have i: "idxs hs = idxs (handles s)" by simp
  moreover have "\<forall>h \<in> set hs. h_idx h < MAX_WORKERS"
  proof
    fix h assume "h \<in> set hs"
    then have "h_idx h \<in> idxs (handles s)" using i by blast
    with a(1) show "h_idx h < MAX_WORKERS" by (auto simp: acc_wf_def)
  qed
  ultimately show ?thesis using a unfolding acc_wf_def by simp
qed

lemma set_worker_inv:
  assumes inv: "sys_inv l y" and i: "i < length (sys_workers y)" and run: "running w"
    and k: "keeps l (flag_of y (sys_workers y ! i)) (sys_workers y ! i) w" and log: "worker_log w = worker_log (sys_workers y ! i)"
  shows "sys_inv l (set_worker i w y)"
proof -
  let ?y = "set_worker i w y"
  have x: "widx w = widx (sys_workers y ! i)" using k by (simp add: keeps_def)
  have h: "handles (sys_acc y) = map handle_of (sys_workers y)" using inv by (simp add: sys_inv_def)
  have "map h_idx ((handles (sys_acc y))[i := handle_of w]) = map h_idx (handles (sys_acc y))"
    using i h x by (simp add: map_update handle_of_def list_update_same_conv)
  then have "acc_wf (sys_acc ?y)" using inv by (simp add: sys_inv_def set_worker_def acc_wf_same_idxs)
  moreover have "handles (sys_acc ?y) = map handle_of (sys_workers ?y)" using h by (simp add: set_worker_def map_update)
  moreover have "running v \<and> room l (flag_of ?y v) v \<and> subseq (worker_log v) (taken ?y)" if "v \<in> set (sys_workers ?y)" for v
  proof -
    have "v \<in> insert w (set (sys_workers y))" using that set_update_subset_insert by (fastforce simp: set_worker_def)
    then show ?thesis using inv run k x log sys_invD(3) [OF inv i] by (auto simp: sys_inv_def flag_of_def set_worker_def keeps_def)
  qed
  moreover have "mset (taken ?y) = (\<Sum>w \<leftarrow> sys_workers ?y. mset (worker_log w))"
    using inv sum_list_update [OF i, of "\<lambda>w. mset (worker_log w)" w "{#}"] log by (simp add: sys_inv_def set_worker_def)
  ultimately show ?thesis by (simp add: sys_inv_def)
qed

text \<open>A dispatch: the first flagged worker from the scan position on gets the connection.\<close>

lemma dispatch_outcome:
  assumes inv: "sys_inv l y" and av: "available (avail (sys_acc y))" and a: "accept_one c (sys_acc y) = Some (Ok s)"
  obtains i a where "i < length (sys_workers y)" "flag_of y (sys_workers y ! i)"
    "s = (sys_acc y)\<lparr>avail := a, handles := (handles (sys_acc y))[i := snd (handle_send c (handle_of (sys_workers y ! i)))],
       next_worker := next_worker s\<rparr>"
    "\<And>j. avail_bit a j = (avail_bit (avail (sys_acc y)) j
       \<and> (j = widx (sys_workers y ! i) \<longrightarrow> raw (counter (sys_workers y ! i)) \<noteq> limit (counter (sys_workers y ! i))))"
proof -
  let ?s = "sys_acc y"
  have wf: "acc_wf ?s" and h: "handles ?s = map handle_of (sys_workers y)" using inv by (simp_all add: sys_inv_def)
  from available_has_handle [OF wf av] have ne: "handles ?s \<noteq> []"
    and "\<exists>d. avail_bit (avail ?s) (h_idx (at_next ?s d))" by blast+
  then obtain k where k: "avail_bit (avail ?s) (h_idx (at_next ?s k))"
    "\<forall>d < k. \<not> avail_bit (avail ?s) (h_idx (at_next ?s d))" using exists_least_iff [of "\<lambda>d. avail_bit (avail ?s) (h_idx (at_next ?s d))"] by blast
  let ?i = "(next_worker ?s + k) mod length (handles ?s)"
  have i: "?i < length (sys_workers y)" using ne h by (metis length_greater_0_conv length_map mod_less_divisor)
  have hi: "at_next ?s k = handle_of (sys_workers y ! ?i)" using h i by simp
  have "h_open (at_next ?s k)" using hi by (simp add: handle_of_def)
  from round_robin_aux [OF wf ne k this, of c] a obtain a' where
    "s = ?s\<lparr>avail := a', handles := (handles ?s)[?i := snd (handle_send c (at_next ?s k))],
       next_worker := (next_worker ?s + k + 1) mod length (handles ?s)\<rparr>"
    "\<forall>j. avail_bit a' j = (avail_bit (avail ?s) j
        \<and> (j = h_idx (at_next ?s k) \<longrightarrow> raw (h_counter (at_next ?s k)) \<noteq> limit (h_counter (at_next ?s k))))"
    by auto
  moreover have "flag_of y (sys_workers y ! ?i)" using k(1) hi by (simp add: flag_of_def handle_of_def)
  ultimately show thesis using hi i by (intro that [of ?i a']) (simp_all add: handle_of_def)
qed

text \<open>What the send does to the worker.\<close>

definition sent :: "conn \<Rightarrow> worker \<Rightarrow> worker" where
  "sent c w = w\<lparr>conn_rx := conn_rx w @ [c], counter := (counter w)\<lparr>raw := raw (counter w) + 1\<rparr>\<rparr>"

lemma sent_handle: "snd (handle_send c (handle_of w)) = handle_of (sent c w)"
  by (simp add: handle_of_def sent_def handle_send_open)

lemma sync_sent: "sync_worker w (handle_of (sent c w)) = sent c w"
  by (simp add: sync_worker_def handle_of_def sent_def)

lemma sync_all:
  "i < length ws \<Longrightarrow> map2 sync_worker ws ((map handle_of ws)[i := handle_of (sent c (ws ! i))]) = ws[i := sent c (ws ! i)]"
  by (rule nth_equalityI) (auto simp: nth_list_update sync_sent)

lemma sent_running:
  assumes "running w" "room l True w" "unat l + 1 < 2 ^ 64" "c_token c < length (services w)"
  shows "running (sent c w) \<and> room l (raw (counter w) \<noteq> limit (counter w)) (sent c w) \<and> widx (sent c w) = widx w"
proof -
  have u: "unat (raw (counter w)) \<le> unat l" using assms(2) by (simp add: room_def)
  then have s: "unat (raw (counter w) + 1) = unat (raw (counter w)) + 1" using assms(3) by (intro unat_suc) simp
  have "worker_wf (sent c w)" using assms(1,4) s by (auto simp: running_def worker_wf_def sent_def)
  with assms(1,2) u s show ?thesis
    by (auto simp: running_def room_def sent_def word_unat_eq_iff)
qed

lemma dispatch_inv:
  assumes inv: "sys_inv l y" and l: "unat l + 1 < 2 ^ 64" and av: "available (avail (sys_acc y))"
    and tok: "\<forall>w \<in> set (sys_workers y). c_token c < length (services w)" and a: "accept_one c (sys_acc y) = Some (Ok s)"
  shows "sys_inv l (y\<lparr>sys_acc := s, sys_workers := map2 sync_worker (sys_workers y) (handles s), taken := taken y @ [c]\<rparr>)"
proof -
  let ?ws = "sys_workers y"
  obtain i b where i: "i < length ?ws" "flag_of y (?ws ! i)"
    and s: "s = (sys_acc y)\<lparr>avail := b, handles := (handles (sys_acc y))[i := snd (handle_send c (handle_of (?ws ! i)))],
       next_worker := next_worker s\<rparr>"
    and b: "\<And>j. avail_bit b j = (avail_bit (avail (sys_acc y)) j
       \<and> (j = widx (?ws ! i) \<longrightarrow> raw (counter (?ws ! i)) \<noteq> limit (counter (?ws ! i))))"
    by (rule dispatch_outcome [OF inv av a]) blast
  have h: "handles (sys_acc y) = map handle_of ?ws" and wf: "acc_wf (sys_acc y)" using inv by (simp_all add: sys_inv_def)
  let ?w = "sent c (?ws ! i)"
  have hs: "handles s = (map handle_of ?ws)[i := handle_of ?w]" using h sent_handle by (subst s) simp
  have ws: "map2 sync_worker ?ws (handles s) = ?ws[i := ?w]" unfolding hs by (rule sync_all [OF i(1)])
  have dis: "j = i" if "j < length ?ws" "widx (?ws ! j) = widx (?ws ! i)" for j
    using acc_wfD(3) [OF wf] that i(1) unfolding h
    by (simp add: distinct_conv_nth handle_of_def) metis
  have r: "running ?w \<and> room l (raw (counter (?ws ! i)) \<noteq> limit (counter (?ws ! i))) ?w \<and> widx ?w = widx (?ws ! i)"
    using sent_running [OF sys_invD(1) [OF inv i(1)] _ l] sys_invD(2) [OF inv i(1)] i tok by simp
  have log: "worker_log ?w = worker_log (?ws ! i) @ [c]" by (simp add: worker_log_def sent_def)
  have "acc_wf s"
    using accept_one_ok [OF wf, of c] a i(1) h by (cases ?ws) (auto simp: dispatched_def)
  moreover have "running v \<and> room l (avail_bit b (widx v)) v \<and> subseq (worker_log v) (taken y @ [c])" if v: "v \<in> set (?ws[i := ?w])" for v
  proof (rule in_set_list_updateE [OF v])
    assume "v = ?w"
    with r b i(2) log sys_invD(3) [OF inv i(1)] show ?thesis by (simp add: flag_of_def list_emb_append_mono)
  next
    fix j assume j: "j < length ?ws" "j \<noteq> i" "v = ?ws ! j"
    then have "widx v \<noteq> widx (?ws ! i)" using dis by blast
    with b have "avail_bit b (widx v) = flag_of y v" by (simp add: flag_of_def)
    with j sys_invD(1-3) [OF inv j(1)] show ?thesis by (simp add: list_emb_prefix)
  qed
  moreover have "mset (worker_log ?w) = mset (worker_log (?ws ! i)) + {#c#}" by (simp add: log)
  then have "(\<Sum>w \<leftarrow> ?ws[i := ?w]. mset (worker_log w)) = (\<Sum>w \<leftarrow> ?ws. mset (worker_log w)) + {#c#}"
    by (rule sum_list_update [OF i(1)])
  moreover have "avail s = b" by (subst s) simp
  ultimately show ?thesis using inv hs ws by (simp add: sys_inv_def map_update flag_of_def)
qed

lemma notified_inv:
  assumes inv: "sys_inv l y" and i: "i < length (sys_workers y)" and n: "notices (sys_workers y ! i) = j # js"
    and a: "set_available (avail (sys_acc y)) j True = Ok a"
  shows "sys_inv l (y\<lparr>sys_acc := (sys_acc y)\<lparr>avail := a\<rparr>,
       sys_workers := (sys_workers y)[i := (sys_workers y ! i)\<lparr>notices := js\<rparr>]\<rparr>)"
proof -
  let ?w = "sys_workers y ! i" and ?ws = "sys_workers y"
  let ?w' = "?w\<lparr>notices := js\<rparr>"
  have h: "handles (sys_acc y) = map handle_of ?ws" and wf: "acc_wf (sys_acc y)" using inv by (simp_all add: sys_inv_def)
  note r = sys_invD(1,2) [OF inv i]
  have j: "j = widx ?w" "js = []" using r(2) n by (auto simp: room_def)
  have r': "running ?w' \<and> room l True ?w'"
    using r n j by (auto simp: running_def worker_wf_def room_def)
  have b: "avail_bit a k = (k = j \<or> avail_bit (avail (sys_acc y)) k)" for k
    using avail_bit_set [OF acc_wfD(1) [OF wf] a] by simp
  have log: "worker_log ?w' = worker_log ?w" by (simp add: worker_log_def)
  have "j \<in> idxs (handles (sys_acc y))" using i j(1) h by (force simp: handle_of_def)
  then have "acc_wf ((sys_acc y)\<lparr>avail := a\<rparr>)"
    using wf b set_available_wf [OF acc_wfD(1) [OF wf] a] by (auto simp: acc_wf_def)
  moreover have "handle_of ?w' = handle_of ?w" by (simp add: handle_of_def)
  then have "map handle_of (?ws[i := ?w']) = map handle_of ?ws" using i by (metis list_update_id map_update nth_map)
  moreover have "running v \<and> room l (avail_bit a (widx v)) v \<and> subseq (worker_log v) (taken y)" if v: "v \<in> set (?ws[i := ?w'])" for v
  proof (rule in_set_list_updateE [OF v])
    assume "v = ?w'"
    with r' b j log sys_invD(3) [OF inv i] show ?thesis by simp
  next
    fix k assume k: "k < length ?ws" "k \<noteq> i" "v = ?ws ! k"
    then have "widx v \<noteq> j"
      using acc_wfD(3) [OF wf] i j(1) unfolding h by (simp add: distinct_conv_nth handle_of_def)
    then have "avail_bit a (widx v) = flag_of y v" using b by (simp add: flag_of_def)
    with k sys_invD(1-3) [OF inv k(1)] show ?thesis by simp
  qed
  moreover have "(\<Sum>w \<leftarrow> ?ws[i := ?w']. mset (worker_log w)) = (\<Sum>w \<leftarrow> ?ws. mset (worker_log w)) + {#}"
    by (rule sum_list_update [OF i]) (simp add: log)
  ultimately show ?thesis using inv h by (simp add: sys_inv_def flag_of_def)
qed

lemma sys_step_inv:
  "sys_step conv y y' \<Longrightarrow> unat l + 1 < 2 ^ 64 \<Longrightarrow> sys_inv l y \<Longrightarrow> sys_inv l y'"
proof (induction rule: sys_step.induct)
  case (sys_dispatch y c s)
  then show ?case by (intro dispatch_inv)
next
  case (sys_notified i y j js a)
  then show ?case by (intro notified_inv)
next
  case (sys_poll i y now b w)
  note inv = sys_poll(4)
  from worker_poll_running [OF sys_invD(1,2) [OF inv sys_poll(1)] sys_poll(2)] show ?case
    by (intro set_worker_inv [OF inv sys_poll(1)]) (simp_all add: worker_log_def)
next
  case (sys_done i y k)
  note inv = sys_done(4)
  from handler_done_keeps [OF sys_invD(1,2) [OF inv sys_done(1)] sys_done(2)] show ?case
    by (intro set_worker_inv [OF inv sys_done(1)]) (simp_all add: worker_log_def)
qed

lemma sys_step_workers:
  assumes "sys_step conv y y'" "sys_inv l y"
  shows "length (sys_workers y') = length (sys_workers y)"
  using assms(1)
proof cases
  case (sys_dispatch c s)
  obtain i a where s: "s = (sys_acc y)\<lparr>avail := a,
      handles := (handles (sys_acc y))[i := snd (handle_send c (handle_of (sys_workers y ! i)))], next_worker := next_worker s\<rparr>"
    by (rule dispatch_outcome [OF assms(2) sys_dispatch(2,4)])
  have "length (handles s) = length (handles (sys_acc y))" by (subst s) simp
  with sys_dispatch(1) assms(2) show ?thesis by (simp add: sys_inv_def)
qed (simp_all add: set_worker_def)

section \<open>The start of a run\<close>

text \<open>A worker that runs and has seen no connection yet.\<close>

definition idle :: "usize \<Rightarrow> nat \<Rightarrow> worker \<Rightarrow> bool" where
  "idle l k w \<longleftrightarrow> running w \<and> room l True w \<and> widx w = k \<and> conn_rx w = [] \<and> worker.live w = [] \<and> calls w = []"

lemma spawn_worker_idle:
  assumes "spawn_worker k l t fs ss = Ok w" "factories_ok fs ss" "0 < unat l"
  shows "idle l k w"
  using spawn_worker_wf [OF assms(1,2)] assms
  by (cases "wrap_worker_services ss") (auto simp: spawn_worker_def running_def room_def wc_new_def idle_def)

lemma idle_handle:
  assumes "idle l k w"
  shows "handle_of w = fresh_handle k l"
proof -
  from assms have u: "unat (raw (counter w)) = unat (1 :: usize)" and l: "limit (counter w) = l"
    using worker_wfD(1) [of w] by (simp_all add: idle_def running_def room_def)
  from u have "raw (counter w) = 1" by (simp only: word_unat_eq_iff)
  with l assms show ?thesis by (simp add: handle_of_def idle_def wc_new_def wcounter.equality)
qed

lemma idle_poll:
  assumes "idle l k w" and p: "worker_poll conv now w = Some (Ok (b, w'))"
  shows "\<not> b \<and> idle l k w'"
proof -
  have w: "running w" "room l True w" "worker_wf w" using assms by (simp_all add: idle_def running_def)
  have k: "keeps l True w w'" "\<not> b" using worker_run_keeps [OF w(1,2) _ p [unfolded worker_poll_def]] by simp_all
  note r = worker_poll_running [OF w(1,2) p]
  from worker_poll_ok(2) [OF w(3) p] assms have "worker.live w' = []" by (auto simp: served_def idle_def)
  with r k assms show ?thesis by (simp add: idle_def keeps_def)
qed

text \<open>Calm workers stay calm, so none of their polls fails.\<close>

definition sys_calm :: "server_sys \<Rightarrow> bool" where
  "sys_calm y \<longleftrightarrow> (\<forall>w \<in> set (sys_workers y). calm w)"

lemma calm_poll_calm: "worker_poll conv now w = Some (Ok (b, w')) \<Longrightarrow> calm w \<Longrightarrow> calm w'"
  using calm_run_calm [of conv now True w b w'] by (simp add: worker_poll_def)

lemma sys_step_calm:
  assumes "sys_step conv y y'" "sys_calm y"
  shows "sys_calm y'"
proof -
  have sub: "sys_calm (y\<lparr>sys_acc := a, sys_workers := (sys_workers y)[i := w]\<rparr>)" if "calm w" for a i w
    using that assms(2) by (auto simp: sys_calm_def dest!: set_update_all)
  have wc: "calm (sys_workers y ! i)" if "i < length (sys_workers y)" for i using assms(2) that by (simp add: sys_calm_def)
  show ?thesis
    using assms(1)
  proof cases
    case (sys_dispatch c s)
    have "calm (sync_worker w h)" if "calm w" for w h using that by (simp add: calm_def sync_worker_def)
    with sys_dispatch(1) assms(2) show ?thesis by (auto simp: sys_calm_def set_zip)
  next
    case (sys_notified i j js a)
    have "calm ((sys_workers y ! i)\<lparr>notices := js\<rparr>)" using wc [OF sys_notified(2)] by (simp add: calm_def)
    with sub show ?thesis using sys_notified(1) by simp
  next
    case (sys_poll i now b w)
    with sub [of w] calm_poll_calm [OF sys_poll(3) wc [OF sys_poll(2)]] show ?thesis
      by (auto simp: sys_calm_def set_worker_def dest!: set_update_all)
  next
    case (sys_done i k)
    have "calm (handler_done k (sys_workers y ! i))" using wc [OF sys_done(2)]
      by (simp add: calm_def handler_done_def drop_guard_fields)
    with sys_done(1) assms(2) show ?thesis by (auto simp: sys_calm_def set_worker_def dest!: set_update_all)
  qed
qed

lemma sys_start_inv:
  assumes idle: "\<forall>w \<in> set ws. \<exists>k. idle l k w" and st: "start_ok ls (map handle_of ws)"
    and new: "new_with_sockets ls (map handle_of ws) = Ok s"
  shows "sys_inv l \<lparr>sys_acc = s, sys_workers = ws, taken = []\<rparr>"
proof -
  obtain t where t: "new_with_sockets ls (map handle_of ws) = Ok t" "thread_ok t" "handles t = map handle_of ws"
    by (rule new_with_sockets_ok [OF st]) blast
  let ?is = "map h_idx (map handle_of ws)"
  have "wf_avail default_avail" "\<forall>i \<in> set ?is. i < MAX_WORKERS" using st default_avail_wf by (auto simp: start_ok_def)
  from set_available_all_ok [OF this] obtain a where a: "set_available_all default_avail ?is = Ok a"
    "\<forall>j. avail_bit a j \<longleftrightarrow> avail_bit default_avail j \<or> j \<in> set ?is" by blast
  have "avail s = a" using new a(1) by (auto simp: new_with_sockets_def simp del: map_map)
  then have "avail_bit (avail s) (widx w)" if "w \<in> set ws" for w
    using a(2) that by (auto simp: handle_of_def image_iff)
  then have w: "running w \<and> room l (avail_bit (avail s) (widx w)) w \<and> worker_log w = []" if "w \<in> set ws" for w
    using idle that by (fastforce simp: idle_def worker_log_def)
  then have "map (\<lambda>w. mset (worker_log w)) ws = map (\<lambda>w. {#}) ws" by simp
  then have "(\<Sum>w \<leftarrow> ws. mset (worker_log w)) = {#}" by (simp only: sum_list_0)
  with w t new show ?thesis by (simp add: sys_inv_def flag_of_def thread_ok_def accept_inv_def)
qed

section \<open>What the invariant says\<close>


text \<open>A poll of a worker that runs: it returns \<open>Pending\<close>, or a restart fails, or the services turn the worker
  away without end.\<close>

definition poll_settles :: "(nat \<Rightarrow> bool) \<Rightarrow> nat \<Rightarrow> worker \<Rightarrow> bool" where
  "poll_settles conv now w \<longleftrightarrow>
     (case worker_poll conv now w of
        Some (Ok (b, w')) \<Rightarrow> \<not> b
      | Some (Err p) \<Rightarrow> p = ExplicitPanic \<and> restart_fails conv now w
      | None \<Rightarrow> restless conv now w)"

lemma running_poll_settles:
  assumes "running w" "room l a w"
  shows "poll_settles conv now w" "calm w \<Longrightarrow> \<exists>w'. worker_poll conv now w = Some (Ok (False, w'))"
proof -
  have wf: "worker_wf w" using assms(1) by (simp add: running_def)
  show s: "poll_settles conv now w"
    using worker_poll_panic [OF wf, of conv now] worker_poll_restless [of conv now w] worker_run_keeps [OF assms, of True conv now]
    by (auto simp: poll_settles_def worker_poll_def split: option.split result.split)
  assume "calm w"
  with calm_poll_returns [OF wf, of conv now] s show "\<exists>w'. worker_poll conv now w = Some (Ok (False, w'))"
    by (fastforce simp: poll_settles_def)
qed

lemma sys_inv_safe:
  assumes inv: "sys_inv l y"
  shows "(\<forall>w \<in> set (sys_workers y). length (conn_rx w) + length (worker.live w) \<le> unat l
       \<and> (length (conn_rx w) + length (worker.live w) < unat l \<longleftrightarrow> flag_of y w \<or> notices w \<noteq> [])
       \<and> subseq (map snd (calls w) @ conn_rx w) (taken y)
       \<and> poll_settles conv now w \<and> (calm w \<longrightarrow> (\<exists>w'. worker_poll conv now w = Some (Ok (False, w')))))
    \<and> mset (taken y) = (\<Sum>w \<leftarrow> sys_workers y. mset (map snd (calls w) @ conn_rx w))
    \<and> (available (avail (sys_acc y)) \<longrightarrow> (\<exists>s. accept_one c (sys_acc y) = Some (Ok s)))"
proof -
  from inv have wf: "acc_wf (sys_acc y)" by (simp add: sys_inv_def)
  have w: "length (conn_rx w) + length (worker.live w) \<le> unat l
       \<and> (length (conn_rx w) + length (worker.live w) < unat l \<longleftrightarrow> flag_of y w \<or> notices w \<noteq> [])
       \<and> subseq (map snd (calls w) @ conn_rx w) (taken y)
       \<and> poll_settles conv now w \<and> (calm w \<longrightarrow> (\<exists>w'. worker_poll conv now w = Some (Ok (False, w'))))"
    if "w \<in> set (sys_workers y)" for w
  proof -
    from inv that have r: "running w" "room l (flag_of y w) w" "subseq (worker_log w) (taken y)"
      by (auto simp: sys_inv_def)
    then have ww: "worker_wf w" by (simp add: running_def)
    from r worker_wfD(1) [OF ww] running_poll_settles [OF r(1,2), of conv now] show ?thesis
      by (auto simp: room_def worker_log_def split: if_splits)
  qed
  have "\<exists>s. accept_one c (sys_acc y) = Some (Ok s)" if "available (avail (sys_acc y))"
    using accept_one_ok [OF wf, of c] available_has_handle [OF wf that] by auto
  with w inv show ?thesis by (simp add: sys_inv_def worker_log_def)
qed

end
