(* ===== verification/Server_Start.thy ===== *)
theory Server_Start
  imports Server_Run
begin

text \<open>
  Start-up: \<open>Accept::start\<close> of \<open>accept.rs\<close> with the worker threads it starts (\<open>ServerWorker::spawn\<close>
  of \<open>worker.rs\<close>), which create their services in parallel, report once and then serve.  A thread is its
  phase and the stop requests sent to it so far; its factories are streams, as in \<open>Server_Worker\<close>.
  \<open>in_system\<close> is whether the workers run in arbiters of an actix system.  The thread that starts the
  server receives the reports; the result of the start-up is its last state.  Every interleaving of
  polls of the threads, panics of factories and receives is a run.  Registering the listeners and
  spawning the accept thread may fail.
\<close>

section \<open>Creating the services\<close>

type_synonym made = "(nat \<times> nat \<times> svc) list"

text \<open>One poll of the inner future of \<open>create_services\<close>: the services made so far and the futures of
  the factories that are left, the first of them running.\<close>

fun create_loop :: "made \<Rightarrow> create_fut list \<Rightarrow> (made, nat) result poll \<times> made \<times> create_fut list" where
  "create_loop made [] = (Ready (Ok made), made, [])"
| "create_loop made (fut # futs) =
     (case ask fut of
        (Pending, fut1) \<Rightarrow> (Pending, made, fut1 # futs)
      | (Ready (Ok (tok, s)), fut1) \<Rightarrow> create_loop (made @ [(length made, tok, s)]) futs
      | (Ready (Err u), fut1) \<Rightarrow> (Ready (Err (length made)), made, []))"

datatype creation = StillCreating made "create_fut list" | Cancelled nat | Created "(made, nat) result"

text \<open>The \<open>select!\<close> around it; \<open>stop_first\<close> is the branch that it happens to poll first.\<close>

definition create_poll :: "bool \<Rightarrow> (bool \<times> nat) list \<Rightarrow> made \<Rightarrow> create_fut list \<Rightarrow> creation" where
  "create_poll stop_first stops made futs =
     (case (if stop_first then stops else []) of
        (graceful, tx) # q \<Rightarrow> Cancelled tx
      | [] \<Rightarrow>
          (case create_loop made futs of
             (Ready r, m, fs) \<Rightarrow> Created r
           | (Pending, m, fs) \<Rightarrow> (case stops of (graceful, tx) # q \<Rightarrow> Cancelled tx | [] \<Rightarrow> StillCreating m fs)))"

section \<open>Worker threads\<close>

datatype phase = Creating made "create_fut list" | Serving worker | Gone

record wthread =
  th_idx :: nat
  th_phase :: phase
  th_stops :: "(bool \<times> nat) list"
  th_factories :: "create_fut stream list"
  th_replies :: "(nat \<times> bool) list"
  arbiter_stopped :: bool

record start_config =
  in_system :: bool
  conn_limit :: usize
  stop_timeout :: nat

type_synonym report = "nat \<times> (unit, io_error) result"

text \<open>\<open>spawn\<close>: each factory is asked for one future.\<close>

definition thread_new :: "nat \<Rightarrow> create_fut stream list \<Rightarrow> wthread" where
  "thread_new idx fs =
     \<lparr>th_idx = idx, th_phase = Creating [] (map shd fs), th_stops = [],
      th_factories = map stl fs, th_replies = [], arbiter_stopped = False\<rparr>"

text \<open>The thread ends; in a system it stops its arbiter first, or the drop of its worker does.\<close>

definition thread_end :: "start_config \<Rightarrow> wthread \<Rightarrow> wthread" where
  "thread_end cfg th = th\<lparr>th_phase := Gone, arbiter_stopped := in_system cfg\<rparr>"

text \<open>The services are created: the report, and the worker unless nobody receives it.  A failed
  assertion of \<open>wrap_worker_services\<close> ends the thread.\<close>

definition thread_created :: "start_config \<Rightarrow> bool \<Rightarrow> made \<Rightarrow> wthread \<Rightarrow> wthread \<times> report list" where
  "thread_created cfg listening made th =
     (if \<not> listening then (thread_end cfg th, [])
      else
        (case spawn_worker (th_idx th) (conn_limit cfg) (stop_timeout cfg) (th_factories th) made of
           Ok w \<Rightarrow> (th\<lparr>th_phase := Serving (w\<lparr>stop_rx := th_stops th\<rparr>), th_stops := []\<rparr>, [(th_idx th, Ok ())])
         | Err p \<Rightarrow> (th\<lparr>th_phase := Gone\<rparr>, [(th_idx th, Ok ())])))"

text \<open>One poll of the thread, with what it reports; \<^term>\<open>None\<close> is a poll that does not return.\<close>

definition thread_poll ::
  "start_config \<Rightarrow> bool \<Rightarrow> bool \<Rightarrow> (nat \<Rightarrow> bool) \<Rightarrow> nat \<Rightarrow> wthread \<Rightarrow> (wthread \<times> report list) option" where
  "thread_poll cfg listening stop_first conv now th =
     (case th_phase th of
        Gone \<Rightarrow> Some (th, [])
      | Creating made futs \<Rightarrow>
          Some (case create_poll stop_first (th_stops th) made futs of
             StillCreating m fs \<Rightarrow> (th\<lparr>th_phase := Creating m fs\<rparr>, [])
           | Cancelled tx \<Rightarrow> (thread_end cfg (th\<lparr>th_replies := th_replies th @ [(tx, True)]\<rparr>), [])
           | Created (Err idx) \<Rightarrow>
               (thread_end cfg th, if listening then [(th_idx th, Err (OtherKind idx))] else [])
           | Created (Ok m) \<Rightarrow> thread_created cfg listening m th)
      | Serving w \<Rightarrow>
          (case worker_poll conv now w of
             None \<Rightarrow> None
           | Some (Err p) \<Rightarrow> Some (thread_end cfg th, [])
           | Some (Ok (b, w1)) \<Rightarrow>
               Some (if b then thread_end cfg (th\<lparr>th_replies := th_replies th @ replies w1\<rparr>)
                     else th\<lparr>th_phase := Serving w1\<rparr>, [])))"

text \<open>\<open>WorkerHandleServer::stop\<close>: the request goes to a thread that still has the receiver.\<close>

definition thread_stop :: "bool \<Rightarrow> nat \<Rightarrow> wthread \<Rightarrow> wthread" where
  "thread_stop graceful tx th =
     (case th_phase th of
        Gone \<Rightarrow> th
      | Creating m fs \<Rightarrow> th\<lparr>th_stops := th_stops th @ [(graceful, tx)]\<rparr>
      | Serving w \<Rightarrow> th\<lparr>th_phase := Serving (w\<lparr>stop_rx := stop_rx w @ [(graceful, tx)]\<rparr>)\<rparr>)"

section \<open>The starting thread\<close>

text \<open>\<open>HandshakeFailed\<close> and \<open>RegisterFailed\<close> are the errors returned while waiting for the reports and
  after that.\<close>

datatype outcome = Awaiting nat | HandshakeFailed io_error | RegisterFailed io_error | Running acc

record startup =
  su_threads :: "wthread list"
  su_reports :: "report list"
  su_main :: outcome

definition listening :: "startup \<Rightarrow> bool" where
  "listening y \<longleftrightarrow> (\<exists>n. su_main y = Awaiting n)"

text \<open>What the loop of \<open>start\<close> does with what it receives: the next state, and the workers it stops.\<close>

fun on_report :: "report option \<Rightarrow> nat \<Rightarrow> outcome \<times> (nat \<Rightarrow> bool)" where
  "on_report (Some (i, Ok u)) n = (Awaiting (n - 1), \<lambda>j. False)"
| "on_report (Some (i, Err e)) n = (HandshakeFailed e, \<lambda>j. j \<noteq> i)"
| "on_report None n = (HandshakeFailed (OtherKind 0), \<lambda>j. True)"

definition stop_threads :: "(nat \<Rightarrow> bool) \<Rightarrow> wthread list \<Rightarrow> wthread list" where
  "stop_threads p ths = map (\<lambda>th. if p (th_idx th) then thread_stop False 0 th else th) ths"

definition is_creating :: "wthread \<Rightarrow> bool" where
  "is_creating th \<longleftrightarrow> (case th_phase th of Creating m fs \<Rightarrow> True | _ \<Rightarrow> False)"

text \<open>What the blocking \<open>recv\<close> gives: a report, or a disconnection once no worker can report any more.\<close>

definition startup_recv :: "startup \<Rightarrow> (report option \<times> startup) option" where
  "startup_recv y =
     (case su_reports y of
        r # rs \<Rightarrow> Some (Some r, y\<lparr>su_reports := rs\<rparr>)
      | [] \<Rightarrow> (if \<exists>th \<in> set (su_threads y). is_creating th then None else Some (None, y)))"

inductive startup_step :: "start_config \<Rightarrow> (nat \<Rightarrow> bool) \<Rightarrow> (nat \<times> (nat, io_error) result list) list \<Rightarrow>
    startup \<Rightarrow> startup \<Rightarrow> bool" for cfg conv ls where
  su_poll: "i < length (su_threads y) \<Longrightarrow> \<forall>s. su_main y \<noteq> Running s \<Longrightarrow>
     thread_poll cfg (listening y) stop_first conv now (su_threads y ! i) = Some (th, reps) \<Longrightarrow>
     startup_step cfg conv ls y (y\<lparr>su_threads := (su_threads y)[i := th], su_reports := su_reports y @ reps\<rparr>)"
| su_die: "i < length (su_threads y) \<Longrightarrow> is_creating (su_threads y ! i) \<Longrightarrow>
     startup_step cfg conv ls y (y\<lparr>su_threads := (su_threads y)[i := (su_threads y ! i)\<lparr>th_phase := Gone\<rparr>]\<rparr>)"
| su_receive: "su_main y = Awaiting (Suc n) \<Longrightarrow> startup_recv y = Some (r, y1) \<Longrightarrow>
     on_report r (Suc n) = (m, p) \<Longrightarrow>
     startup_step cfg conv ls y (y1\<lparr>su_main := m, su_threads := stop_threads p (su_threads y1)\<rparr>)"
| su_registered: "su_main y = Awaiting 0 \<Longrightarrow>
     new_with_sockets ls (map (\<lambda>th. fresh_handle (th_idx th) (conn_limit cfg)) (su_threads y)) = Ok s \<Longrightarrow>
     startup_step cfg conv ls y (y\<lparr>su_main := Running s\<rparr>)"
| su_not_registered: "su_main y = Awaiting 0 \<Longrightarrow> startup_step cfg conv ls y (y\<lparr>su_main := RegisterFailed e\<rparr>)"

text \<open>\<open>Accept::start\<close> for \<open>n\<close> workers with their factories.\<close>

definition accept_start :: "nat \<Rightarrow> (nat \<Rightarrow> create_fut stream list) \<Rightarrow> startup" where
  "accept_start n fs = \<lparr>su_threads = map (\<lambda>k. thread_new k (fs k)) [0..<n], su_reports = [], su_main = Awaiting n\<rparr>"

inductive startup_run :: "start_config \<Rightarrow> (nat \<Rightarrow> bool) \<Rightarrow> (nat \<times> (nat, io_error) result list) list \<Rightarrow>
    startup \<Rightarrow> startup \<Rightarrow> bool" for cfg conv ls y0 where
  run_start: "startup_run cfg conv ls y0 y0"
| run_step: "startup_run cfg conv ls y0 y \<Longrightarrow> startup_step cfg conv ls y y' \<Longrightarrow> startup_run cfg conv ls y0 y'"

text \<open>\<open>ServerWorker::start\<close>, which starts one worker again: its result from what the channel gives.\<close>

definition worker_start :: "report option \<Rightarrow> 'h \<Rightarrow> ('h, io_error) result" where
  "worker_start r hs =
     (case r of
        Some (i, res) \<Rightarrow> map_result (\<lambda>u. hs) res
      | None \<Rightarrow> Err (OtherKind 0))"

section \<open>Threads\<close>

text \<open>The services a factory creates carry its token, as those of \<open>StreamNewService\<close> do.\<close>

definition factory_ok :: "nat \<Rightarrow> create_fut stream \<Rightarrow> bool" where
  "factory_ok k g \<longleftrightarrow> (\<forall>f \<in> sset g. fut_ok k f)"

definition made_ok :: "made \<Rightarrow> bool" where
  "made_ok made \<longleftrightarrow> (\<forall>j < length made. fst (made ! j) = j \<and> fst (snd (made ! j)) = j)"

definition creating_ok :: "made \<Rightarrow> create_fut list \<Rightarrow> create_fut stream list \<Rightarrow> bool" where
  "creating_ok made futs rest \<longleftrightarrow> made_ok made \<and> length made + length futs = length rest
     \<and> (\<forall>j < length futs. fut_ok (length made + j) (futs ! j)) \<and> (\<forall>k < length rest. factory_ok k (rest ! k))"

lemma creating_ok_Cons:
  assumes "creating_ok made (fut # futs) rest"
  shows "creating_ok made (stl fut # futs) rest" "shd fut = Ready (Ok (t, s)) \<Longrightarrow> creating_ok (made @ [(length made, t, s)]) futs rest"
proof -
  from assms have c: "made_ok made" "length made + length futs + 1 = length rest" "fut_ok (length made) fut"
    "\<And>j. j < length futs \<Longrightarrow> fut_ok (length made + 1 + j) (futs ! j)" "\<forall>k < length rest. factory_ok k (rest ! k)"
    unfolding creating_ok_def by (fastforce, fastforce, fastforce, fastforce, fastforce)
  with fut_ok_stl [OF c(3)] show "creating_ok made (stl fut # futs) rest"
    by (auto simp: creating_ok_def less_Suc_eq_0_disj)
  assume "shd fut = Ready (Ok (t, s))"
  with fut_okD [OF c(3)] have "t = length made" .
  with c show "creating_ok (made @ [(length made, t, s)]) futs rest"
    by (auto simp: creating_ok_def made_ok_def nth_append less_Suc_eq)
qed

lemma create_loop_ok:
  assumes "creating_ok made futs rest" "create_loop made futs = (r, m, fs)"
  shows "r = Pending \<and> creating_ok m fs rest \<or> (\<exists>k. r = Ready (Err k)) \<or> (\<exists>m'. r = Ready (Ok m') \<and> creating_ok m' [] rest)"
  using assms
proof (induction futs arbitrary: made)
  case (Cons fut futs)
  note c = creating_ok_Cons [OF Cons.prems(1)]
  show ?case
  proof (cases "shd fut")
    case Pending
    with Cons.prems(2) c(1) show ?thesis by (auto simp: ask_def)
  next
    case (Ready q)
    show ?thesis
    proof (cases q)
      case (Ok p)
      obtain t s where p: "p = (t, s)" by force
      from c(2) [of t s] Ready Ok p have "creating_ok (made @ [(length made, t, s)]) futs rest" by simp
      with Cons.IH [OF this] Cons.prems(2) show ?thesis by (simp add: Ready Ok p ask_def)
    next
      case (Err u)
      with Cons.prems(2) have "r = Ready (Err (length made))" by (auto simp: Ready ask_def)
      then show ?thesis by blast
    qed
  qed
qed auto

lemma created_spawns:
  assumes "creating_ok made [] rest" "0 < unat l"
  obtains w where "spawn_worker i l t rest made = Ok w" "idle l i w"
proof -
  have wrap: "\<exists>srvs. wrap_from (length xs) ys = Ok srvs" if "made_ok (xs @ ys)" for xs ys
    using that
  proof (induction ys arbitrary: xs)
    case (Cons y ys)
    obtain j tok s where y: "y = (j, tok, s)" by (cases y)
    from Cons.prems have "tok = length xs" unfolding made_ok_def y by (metis fst_conv snd_conv nth_append_length length_append length_Cons add_Suc_right less_add_Suc1)
    with Cons.IH [of "xs @ [y]"] Cons.prems y show ?case by auto
  qed simp
  from wrap [of "[]" made] assms(1) obtain w where w: "spawn_worker i l t rest made = Ok w"
    by (auto simp: creating_ok_def spawn_worker_def wrap_worker_services_def)
  have "factories_ok rest made" using assms(1) by (auto simp: creating_ok_def made_ok_def factories_ok_def factory_ok_def)
  with spawn_worker_idle [OF w _ assms(2)] w that show thesis by blast
qed

text \<open>A thread, before and after it was asked to stop.\<close>

definition thread_ok :: "usize \<Rightarrow> wthread \<Rightarrow> bool" where
  "thread_ok l th \<longleftrightarrow> (case th_phase th of
      Creating made futs \<Rightarrow> creating_ok made futs (th_factories th)
    | Serving w \<Rightarrow> wc_total (counter w) = Ok 0 \<and> (stop_rx w = [] \<longrightarrow> idle l (th_idx th) w)
    | Gone \<Rightarrow> True)"

definition asked :: "wthread \<Rightarrow> bool" where
  "asked th \<longleftrightarrow> (case th_phase th of Creating m fs \<Rightarrow> th_stops th \<noteq> [] | Serving w \<Rightarrow> stop_rx w \<noteq> [] | Gone \<Rightarrow> True)"

definition unasked :: "wthread \<Rightarrow> bool" where
  "unasked th \<longleftrightarrow> (case th_phase th of Creating m fs \<Rightarrow> th_stops th = [] | Serving w \<Rightarrow> stop_rx w = [] | Gone \<Rightarrow> True)"

definition is_serving :: "wthread \<Rightarrow> bool" where
  "is_serving th \<longleftrightarrow> (case th_phase th of Serving w \<Rightarrow> True | _ \<Rightarrow> False)"

lemma idle_total: "idle l k w \<Longrightarrow> wc_total (counter w) = Ok 0"
  using wc_total_wf [of w] by (simp add: idle_def running_def)

text \<open>A thread that is asked to stop ends in its next poll.\<close>

lemma asked_ends:
  assumes "thread_ok l th" "asked th"
  shows "\<exists>th'. thread_poll cfg False sf conv now th = Some (th', []) \<and> th_phase th' = Gone \<and> th_idx th' = th_idx th
    \<and> (th_phase th \<noteq> Gone \<longrightarrow> arbiter_stopped th' = in_system cfg)"
proof (cases "th_phase th")
  case (Creating made futs)
  then obtain g tx q where q: "th_stops th = (g, tx) # q" using assms(2) by (auto simp: asked_def neq_Nil_conv)
  show ?thesis
    using Creating by (cases "create_loop made futs")
      (auto simp: thread_poll_def create_poll_def q thread_end_def thread_created_def split: poll.split result.split)
next
  case (Serving w)
  then have t: "wc_total (counter w) = Ok 0" and "stop_rx w \<noteq> []" using assms by (simp_all add: thread_ok_def asked_def)
  then obtain g tx q where q: "stop_rx w = (g, tx) # q" by (auto simp: neq_Nil_conv)
  have "worker_poll conv now w = Some (Ok (True, w\<lparr>stop_rx := q, replies := replies w @ [(tx, True)]\<rparr>))"
    unfolding worker_poll_def by (subst worker_run.simps) (simp add: worker_step_def handle_stop_def q t Let_def)
  then show ?thesis by (simp add: thread_poll_def Serving thread_end_def)
qed (simp add: thread_poll_def)

text \<open>What a poll does while nothing was asked.\<close>

definition advanced :: "wthread \<Rightarrow> wthread \<Rightarrow> report list \<Rightarrow> bool" where
  "advanced th th' reps \<longleftrightarrow> (is_serving th \<longrightarrow> (is_serving th' \<or> th_phase th' = Gone) \<and> reps = [])
     \<and> (th_phase th = Gone \<longrightarrow> th' = th \<and> reps = [])
     \<and> (is_creating th \<longrightarrow> is_creating th' \<and> reps = [] \<or> is_serving th' \<and> reps = [(th_idx th, Ok ())]
          \<or> (\<exists>e. th_phase th' = Gone \<and> reps = [(th_idx th, Err e)]))"

lemma unasked_advances:
  assumes ok: "thread_ok (conn_limit cfg) th" "unasked th" and p: "thread_poll cfg lst sf conv now th = Some (th', reps)"
    and l: "lst \<or> \<not> is_creating th" "0 < unat (conn_limit cfg)"
  shows "thread_ok (conn_limit cfg) th' \<and> unasked th' \<and> th_idx th' = th_idx th \<and> advanced th th' reps"
proof (cases "th_phase th")
  case (Creating made futs)
  have c: "creating_ok made futs (th_factories th)" and lst: "lst" and st: "th_stops th = []"
    using ok l(1) Creating by (simp_all add: thread_ok_def is_creating_def unasked_def)
  obtain r m fs where r: "create_loop made futs = (r, m, fs)" by (cases "create_loop made futs")
  from create_loop_ok [OF c r] consider
    "r = Pending" "creating_ok m fs (th_factories th)" | k where "r = Ready (Err k)"
    | m' where "r = Ready (Ok m')" "creating_ok m' [] (th_factories th)" by blast
  then show ?thesis
  proof cases
    case 1
    with p show ?thesis
      by (auto simp: thread_poll_def Creating create_poll_def st r thread_ok_def unasked_def advanced_def is_creating_def is_serving_def)
  next
    case 2
    with p lst show ?thesis
      by (auto simp: thread_poll_def Creating create_poll_def st r thread_ok_def unasked_def advanced_def is_creating_def
          is_serving_def thread_end_def)
  next
    case 3
    obtain w where w: "spawn_worker (th_idx th) (conn_limit cfg) (stop_timeout cfg) (th_factories th) m' = Ok w"
      "idle (conn_limit cfg) (th_idx th) w" by (rule created_spawns [OF 3(2) l(2)])
    then have "stop_rx w = []" by (simp add: idle_def running_def)
    then have e: "w\<lparr>stop_rx := []\<rparr> = w" by simp
    have "th' = th\<lparr>th_phase := Serving w, th_stops := []\<rparr>" "reps = [(th_idx th, Ok ())]"
      using p lst 3(1) w(1) e by (auto simp: thread_poll_def Creating create_poll_def st r thread_created_def)
    with w(2) idle_total [OF w(2)] \<open>stop_rx w = []\<close> show ?thesis
      by (auto simp: Creating thread_ok_def unasked_def advanced_def is_creating_def is_serving_def)
  qed
next
  case (Serving w)
  then have i: "idle (conn_limit cfg) (th_idx th) w" using ok by (simp add: thread_ok_def unasked_def)
  show ?thesis
  proof (cases "worker_poll conv now w")
    case (Some r)
    show ?thesis
    proof (cases r)
      case (Ok bw)
      obtain b w' where "bw = (b, w')" by force
      with Some Ok idle_poll [OF i, of conv now b w'] have w': "worker_poll conv now w = Some (Ok (False, w'))"
        "idle (conn_limit cfg) (th_idx th) w'" by auto
      with p idle_total [OF w'(2)] show ?thesis
        by (auto simp: thread_poll_def Serving thread_ok_def unasked_def advanced_def is_creating_def is_serving_def idle_def running_def)
    next
      case (Err e)
      with Some p show ?thesis
        by (auto simp: thread_poll_def Serving thread_ok_def unasked_def advanced_def is_creating_def is_serving_def thread_end_def)
    qed
  qed (use p in \<open>simp add: thread_poll_def Serving\<close>)
next
  case Gone
  with p show ?thesis by (simp add: thread_poll_def thread_ok_def unasked_def advanced_def is_creating_def is_serving_def)
qed

lemma thread_stop_asked:
  "thread_ok l th \<Longrightarrow> thread_ok l (thread_stop g tx th) \<and> asked (thread_stop g tx th) \<and> th_idx (thread_stop g tx th) = th_idx th"
  by (cases "th_phase th") (auto simp: thread_stop_def thread_ok_def asked_def)

section \<open>The invariant of the start-up\<close>

abbreviation count :: "('a \<Rightarrow> bool) \<Rightarrow> 'a list \<Rightarrow> nat" where
  "count p xs \<equiv> length (filter p xs)"

lemma count_update:
  assumes "i < length xs"
  shows "count p (xs[i := x]) + (if p (xs ! i) then 1 else 0) = count p xs + (if p x then 1 else 0)"
proof -
  have "count p xs = count p (take i xs @ xs ! i # drop (Suc i) xs)" using id_take_nth_drop [OF assms] by simp
  then show ?thesis by (simp add: upd_conv_take_nth_drop [OF assms])
qed

lemma count_all: "count p xs = length xs \<longleftrightarrow> (\<forall>x \<in> set xs. p x)"
  by (metis filter_id_conv length_filter_less less_not_refl)

abbreviation good :: "report \<Rightarrow> bool" where
  "good r \<equiv> is_ok (snd r)"

text \<open>While reports are awaited, there is one to come, or in the channel, for every thread that still creates;
  a report of a failure is that of a thread that has ended.\<close>

definition startup_inv ::
  "start_config \<Rightarrow> nat \<Rightarrow> (nat \<times> (nat, io_error) result list) list \<Rightarrow> startup \<Rightarrow> bool" where
  "startup_inv cfg n ls y \<longleftrightarrow> map th_idx (su_threads y) = [0..<n] \<and> (\<forall>th \<in> set (su_threads y). thread_ok (conn_limit cfg) th)
     \<and> (case su_main y of
          Awaiting k \<Rightarrow> (\<forall>th \<in> set (su_threads y). unasked th)
            \<and> count is_creating (su_threads y) + count good (su_reports y) \<le> k
            \<and> (\<forall>(i, r) \<in> set (su_reports y). \<not> is_ok r \<longrightarrow> (\<forall>th \<in> set (su_threads y). th_idx th = i \<longrightarrow> th_phase th = Gone))
        | HandshakeFailed e \<Rightarrow> (\<forall>th \<in> set (su_threads y). asked th)
        | RegisterFailed e \<Rightarrow> (\<forall>th \<in> set (su_threads y). unasked th \<and> \<not> is_creating th)
        | Running s \<Rightarrow> (\<forall>th \<in> set (su_threads y). unasked th \<and> \<not> is_creating th)
            \<and> new_with_sockets ls (map (\<lambda>th. fresh_handle (th_idx th) (conn_limit cfg)) (su_threads y)) = Ok s)"

lemma startup_invD:
  assumes "startup_inv cfg n ls y"
  shows "map th_idx (su_threads y) = [0..<n]" "length (su_threads y) = n"
    "th \<in> set (su_threads y) \<Longrightarrow> thread_ok (conn_limit cfg) th"
proof -
  from assms show m: "map th_idx (su_threads y) = [0..<n]" by (simp add: startup_inv_def)
  then show "length (su_threads y) = n" by (metis length_map length_upt minus_nat.diff_0)
  show "th \<in> set (su_threads y) \<Longrightarrow> thread_ok (conn_limit cfg) th" using assms by (simp add: startup_inv_def)
qed

lemma update_same_idx:
  "i < length ths \<Longrightarrow> th_idx th = th_idx (ths ! i) \<Longrightarrow> map th_idx (ths[i := th]) = map th_idx ths"
  by (simp add: map_update list_update_same_conv)

lemma in_update:
  "x \<in> set (xs[i := v]) \<Longrightarrow> x = v \<or> x \<in> set xs"
  using set_update_subset_insert by fastforce

lemma phase_kinds: "th_phase th = Gone \<or> is_creating th \<or> is_serving th" "\<not> (is_creating th \<and> is_serving th)"
  "is_creating th \<Longrightarrow> th_phase th \<noteq> Gone" "is_serving th \<Longrightarrow> th_phase th \<noteq> Gone"
  by (cases "th_phase th"; simp add: is_creating_def is_serving_def)+

text \<open>A thread that advances, while reports are awaited.\<close>

lemma awaiting_update:
  assumes inv: "startup_inv cfg n ls y" and m: "su_main y = Awaiting k" and i: "i < length (su_threads y)"
    and th: "thread_ok (conn_limit cfg) th" "unasked th" "th_idx th = th_idx (su_threads y ! i)"
    and adv: "advanced (su_threads y ! i) th reps \<or> is_creating (su_threads y ! i) \<and> th_phase th = Gone \<and> reps = []"
  shows "startup_inv cfg n ls (y\<lparr>su_threads := (su_threads y)[i := th], su_reports := su_reports y @ reps\<rparr>)"
proof -
  let ?ths = "su_threads y" and ?old = "su_threads y ! i"
  have sums: "count is_creating ?ths + count good (su_reports y) \<le> k"
    and un: "\<forall>th \<in> set ?ths. unasked th \<and> thread_ok (conn_limit cfg) th"
    and errs: "\<And>j r t. (j, r) \<in> set (su_reports y) \<Longrightarrow> \<not> is_ok r \<Longrightarrow> t \<in> set ?ths \<Longrightarrow> th_idx t = j \<Longrightarrow> th_phase t = Gone"
    using inv m by (auto simp: startup_inv_def)
  from adv phase_kinds [of ?old] phase_kinds [of th] have
    "(if is_creating th then 1 else 0) + count good reps \<le> (if is_creating ?old then 1 else 0 :: nat)"
    by (auto simp: advanced_def)
  with count_update [OF i, of is_creating th] sums
  have sums': "count is_creating (?ths[i := th]) + count good (su_reports y @ reps) \<le> k" by simp
  have dis: "distinct (map th_idx ?ths)" using startup_invD(1) [OF inv] by simp
  have gone: "th_phase t = Gone" if r: "(j, r) \<in> set (su_reports y @ reps)" "\<not> is_ok r" "t \<in> set (?ths[i := th])" "th_idx t = j" for j r t
  proof (rule in_set_list_updateE [OF r(3)])
    assume t: "t = th"
    show "th_phase t = Gone"
    proof (cases "(j, r) \<in> set reps")
      case True
      with adv r(2) t phase_kinds [of ?old] show ?thesis by (auto simp: advanced_def)
    next
      case False
      with errs [of j r ?old] r t th(3) i have "th_phase ?old = Gone" by simp
      with adv t phase_kinds [of ?old] show ?thesis by (auto simp: advanced_def)
    qed
  next
    fix q assume q: "q < length ?ths" "q \<noteq> i" "t = ?ths ! q"
    with dis i have ne: "th_idx t \<noteq> th_idx ?old" by (simp add: distinct_conv_nth)
    have "(j, r) \<notin> set reps" using adv ne r(4) phase_kinds [of ?old] by (auto simp: advanced_def)
    with errs [of j r t] r q show "th_phase t = Gone" by simp
  qed
  with sums' un th m inv update_same_idx [OF i th(3)] show ?thesis
    by (auto simp: startup_inv_def dest: in_update)
qed

lemma update_id: "y\<lparr>su_reports := su_reports y @ []\<rparr> = (y :: startup)"
  by simp

lemma poll_inv:
  assumes inv: "startup_inv cfg n ls y" and i: "i < length (su_threads y)" and nr: "\<forall>s. su_main y \<noteq> Running s"
    and p: "thread_poll cfg (listening y) sf conv now (su_threads y ! i) = Some (th, reps)"
    and l: "0 < unat (conn_limit cfg)"
  shows "startup_inv cfg n ls (y\<lparr>su_threads := (su_threads y)[i := th], su_reports := su_reports y @ reps\<rparr>)"
proof -
  have old: "su_threads y ! i \<in> set (su_threads y)" using i by simp
  note ok = startup_invD(3) [OF inv old]
  show ?thesis
  proof (cases "su_main y")
    case (Awaiting k)
    then have "unasked (su_threads y ! i)" "listening y" using inv old by (auto simp: startup_inv_def listening_def)
    with unasked_advances [OF ok _ p _ l] awaiting_update [OF inv Awaiting i] show ?thesis by blast
  next
    case (HandshakeFailed e)
    then have a: "asked (su_threads y ! i)" and nl: "\<not> listening y" using inv old by (auto simp: startup_inv_def listening_def)
    have "th_phase th = Gone" "th_idx th = th_idx (su_threads y ! i)" "reps = []"
      using asked_ends [OF ok a, of cfg sf conv now] p nl by auto
    with inv HandshakeFailed update_same_idx [OF i] show ?thesis
      by (auto simp: startup_inv_def thread_ok_def asked_def dest: in_update)
  next
    case (RegisterFailed e)
    then have u: "unasked (su_threads y ! i)" "\<not> is_creating (su_threads y ! i)" using inv old by (auto simp: startup_inv_def)
    with unasked_advances [OF ok u(1) p _ l] u phase_kinds [of "su_threads y ! i"] phase_kinds [of th] have
      "thread_ok (conn_limit cfg) th" "unasked th" "\<not> is_creating th" "th_idx th = th_idx (su_threads y ! i)" "reps = []"
      by (auto simp: advanced_def)
    with inv RegisterFailed update_same_idx [OF i] show ?thesis
      by (auto simp: startup_inv_def dest: in_update)
  next
    case (Running s)
    with nr show ?thesis by simp
  qed
qed

lemma die_inv:
  assumes inv: "startup_inv cfg n ls y" and i: "i < length (su_threads y)" and c: "is_creating (su_threads y ! i)"
  shows "startup_inv cfg n ls (y\<lparr>su_threads := (su_threads y)[i := (su_threads y ! i)\<lparr>th_phase := Gone\<rparr>]\<rparr>)"
proof -
  let ?th = "(su_threads y ! i)\<lparr>th_phase := Gone\<rparr>"
  have old: "su_threads y ! i \<in> set (su_threads y)" using i by simp
  have th: "thread_ok (conn_limit cfg) ?th" "unasked ?th" "asked ?th" "th_idx ?th = th_idx (su_threads y ! i)"
    by (simp_all add: thread_ok_def unasked_def asked_def)
  show ?thesis
  proof (cases "su_main y")
    case (Awaiting k)
    from awaiting_update [OF inv Awaiting i th(1,2,4), of "[]"] c show ?thesis by simp
  next
    case (HandshakeFailed e)
    with inv update_same_idx [OF i th(4)] th show ?thesis by (auto simp: startup_inv_def dest: in_update)
  qed (use inv old c in \<open>auto simp: startup_inv_def\<close>)
qed

lemma stop_threads_idx: "map th_idx (stop_threads p ths) = map th_idx ths"
  by (auto simp: stop_threads_def thread_stop_def split: phase.split)

lemma stop_threads_none [simp]: "stop_threads (\<lambda>j. False) ths = ths"
  by (simp add: stop_threads_def)

lemma stop_threads_asked:
  assumes "\<forall>th \<in> set ths. thread_ok l th \<and> (p (th_idx th) \<or> th_phase th = Gone)" "th \<in> set (stop_threads p ths)"
  shows "thread_ok l th \<and> asked th"
  using assms thread_stop_asked by (auto simp: stop_threads_def asked_def)

lemma receive_inv:
  assumes inv: "startup_inv cfg n ls y" and m: "su_main y = Awaiting (Suc k)" and r: "startup_recv y = Some (r, y1)"
    and o: "on_report r (Suc k) = (m', p)"
  shows "startup_inv cfg n ls (y1\<lparr>su_main := m', su_threads := stop_threads p (su_threads y1)\<rparr>)"
proof (cases "su_reports y")
  case Nil
  with r have "r = None" "y1 = y" by (auto simp: startup_recv_def split: if_splits)
  with inv o stop_threads_asked [of "su_threads y" "conn_limit cfg" p] show ?thesis
    by (auto simp: startup_inv_def stop_threads_idx)
next
  case (Cons rep rs)
  obtain i q where rep: "rep = (i, q)" by force
  have y1: "r = Some (i, q)" "y1 = y\<lparr>su_reports := rs\<rparr>" using r by (simp_all add: startup_recv_def Cons rep)
  show ?thesis
  proof (cases q)
    case (Ok u)
    with o y1 inv m Cons rep show ?thesis by (auto simp: startup_inv_def)
  next
    case (Err e)
    then have o': "m' = HandshakeFailed e" "p = (\<lambda>j. j \<noteq> i)" using o y1 by auto
    have "\<forall>th \<in> set (su_threads y). thread_ok (conn_limit cfg) th \<and> (p (th_idx th) \<or> th_phase th = Gone)"
      using inv m Cons rep Err o' by (auto simp: startup_inv_def)
    from stop_threads_asked [OF this] o' inv y1 show ?thesis by (auto simp: startup_inv_def stop_threads_idx)
  qed
qed

lemma none_creating:
  assumes inv: "startup_inv cfg n ls y" and m: "su_main y = Awaiting 0"
  shows "\<forall>th \<in> set (su_threads y). unasked th \<and> \<not> is_creating th"
  using inv m by (auto simp: startup_inv_def filter_empty_conv)

lemma startup_step_inv:
  assumes "startup_step cfg conv ls y y'" "startup_inv cfg n ls y" "0 < unat (conn_limit cfg)"
  shows "startup_inv cfg n ls y'"
  using assms
proof cases
  case (su_poll i sf now th reps)
  with poll_inv [OF assms(2)] assms(3) show ?thesis by simp
next
  case (su_die i)
  with die_inv [OF assms(2)] show ?thesis by simp
next
  case (su_receive k r y1 m p)
  with receive_inv [OF assms(2)] show ?thesis by simp
next
  case (su_registered s)
  with none_creating [OF assms(2)] assms(2) show ?thesis by (auto simp: startup_inv_def)
next
  case (su_not_registered e)
  with none_creating [OF assms(2)] assms(2) show ?thesis by (auto simp: startup_inv_def)
qed

lemma startup_run_inv:
  assumes "startup_run cfg conv ls y0 y" "startup_inv cfg n ls y0" "0 < unat (conn_limit cfg)"
  shows "startup_inv cfg n ls y"
  using assms(1)
proof induction
  case run_start
  show ?case by (rule assms(2))
next
  case (run_step y y')
  with startup_step_inv assms(3) show ?case by blast
qed

text \<open>The factories of every worker, by token.\<close>

definition all_factories_ok :: "nat \<Rightarrow> (nat \<Rightarrow> create_fut stream list) \<Rightarrow> bool" where
  "all_factories_ok n fs \<longleftrightarrow> (\<forall>k < n. \<forall>j < length (fs k). factory_ok j (fs k ! j))"

lemma accept_start_inv:
  assumes "all_factories_ok n fs"
  shows "startup_inv cfg n ls (accept_start n fs)"
proof -
  have "thread_ok l (thread_new k (fs k))" if "k < n" for k l
  proof -
    have "factory_ok j (fs k ! j)" if "j < length (fs k)" for j
      using assms that \<open>k < n\<close> by (simp add: all_factories_ok_def)
    then have "fut_ok j (shd (fs k ! j))" "factory_ok j (stl (fs k ! j))" if "j < length (fs k)" for j
      using that by (auto simp: factory_ok_def shd_sset dest: sset_stl)
    then show ?thesis by (simp add: thread_ok_def thread_new_def creating_ok_def made_ok_def)
  qed
  moreover have "map (\<lambda>k. th_idx (thread_new k (fs k))) [0..<n] = [0..<n]" by (simp add: thread_new_def)
  moreover have "count is_creating (map (\<lambda>k. thread_new k (fs k)) [0..<n]) = n"
    by (simp add: thread_new_def is_creating_def)
  ultimately show ?thesis
    by (auto simp: startup_inv_def accept_start_def thread_new_def unasked_def comp_def)
qed

section \<open>Calm factories\<close>

text \<open>A worker whose services and factories are calm (\<open>Server_Worker\<close>); the first future of a factory may
  still fail, which the start-up reports.\<close>

definition first_calm :: "create_fut \<Rightarrow> bool" where
  "first_calm f \<longleftrightarrow> (\<forall>t s. Ready (Ok (t, s)) \<in> sset f \<longrightarrow> calm_svc s)"

definition all_factories_calm :: "nat \<Rightarrow> (nat \<Rightarrow> create_fut stream list) \<Rightarrow> bool" where
  "all_factories_calm n fs \<longleftrightarrow> (\<forall>k < n. \<forall>g \<in> set (fs k). first_calm (shd g) \<and> calm_factory (stl g))"

definition thread_calm :: "wthread \<Rightarrow> bool" where
  "thread_calm th \<longleftrightarrow> (case th_phase th of
      Creating made futs \<Rightarrow> factories_calm (th_factories th) made \<and> (\<forall>f \<in> set futs. first_calm f)
    | Serving w \<Rightarrow> calm w
    | Gone \<Rightarrow> True)"

lemma create_loop_calm:
  assumes "factories_calm rest made" "\<forall>f \<in> set futs. first_calm f" "create_loop made futs = (r, m, fs)"
  shows "(r = Pending \<longrightarrow> factories_calm rest m \<and> (\<forall>f \<in> set fs. first_calm f)) \<and> (\<forall>m'. r = Ready (Ok m') \<longrightarrow> factories_calm rest m')"
  using assms
proof (induction futs arbitrary: made)
  case (Cons fut futs)
  have stl: "first_calm (stl fut)" using Cons.prems(2) by (auto simp: first_calm_def dest: sset_stl)
  show ?case
  proof (cases "shd fut")
    case Pending
    with Cons.prems stl show ?thesis by (auto simp: ask_def)
  next
    case (Ready q)
    show ?thesis
    proof (cases q)
      case (Ok p)
      obtain t s where p: "p = (t, s)" by force
      have "Ready (Ok (t, s)) \<in> sset fut" using Ready Ok p shd_sset [of fut] by simp
      then have "factories_calm rest (made @ [(length made, t, s)])"
        using Cons.prems(1,2) by (auto simp: factories_calm_def first_calm_def)
      from Cons.IH [OF this] Cons.prems(2,3) show ?thesis by (simp add: Ready Ok p ask_def)
    next
      case (Err u)
      with Cons.prems(3) show ?thesis by (auto simp: Ready ask_def)
    qed
  qed
qed auto

lemma calm_stop_rx [simp]: "calm (w\<lparr>stop_rx := q\<rparr>) = calm w"
  by (simp add: calm_def)

lemma thread_poll_calm:
  assumes p: "thread_poll cfg lst sf conv now th = Some (th', reps)" and c: "thread_calm th"
  shows "thread_calm th'"
proof (cases "th_phase th")
  case (Creating made futs)
  obtain r m fs where r: "create_loop made futs = (r, m, fs)" by (cases "create_loop made futs")
  have c': "factories_calm (th_factories th) made" "\<forall>f \<in> set futs. first_calm f"
    using c Creating by (simp_all add: thread_calm_def)
  note k = create_loop_calm [OF c' r, THEN conjunct1, rule_format] create_loop_calm [OF c' r, THEN conjunct2, rule_format]
  have created: "thread_calm (fst (thread_created cfg lst m' th))" if "r = Ready (Ok m')" for m'
    using spawn_worker_calm [OF _ k(2) [OF that]]
    by (auto simp: thread_created_def thread_calm_def thread_end_def split: result.split)
  have gone: "thread_calm (thread_end cfg t)" for t by (simp add: thread_calm_def thread_end_def)
  have "create_poll sf (th_stops th) made futs = StillCreating m fs \<and> r = Pending
      \<or> (\<exists>tx. create_poll sf (th_stops th) made futs = Cancelled tx)
      \<or> (\<exists>q. create_poll sf (th_stops th) made futs = Created q \<and> r = Ready q)"
    by (auto simp: create_poll_def r split: list.split poll.split)
  then show ?thesis
  proof (elim disjE exE conjE)
    assume "create_poll sf (th_stops th) made futs = StillCreating m fs" "r = Pending"
    with p k(1) show ?thesis by (auto simp: thread_poll_def Creating thread_calm_def)
  next
    fix tx assume "create_poll sf (th_stops th) made futs = Cancelled tx"
    with p gone show ?thesis by (auto simp: thread_poll_def Creating)
  next
    fix q assume q: "create_poll sf (th_stops th) made futs = Created q" "r = Ready q"
    show ?thesis
    proof (cases q)
      case (Ok m')
      with p q have "thread_created cfg lst m' th = (th', reps)" by (simp add: thread_poll_def Creating)
      with created [of m'] q Ok show ?thesis by simp
    next
      case (Err i)
      with p q gone show ?thesis by (auto simp: thread_poll_def Creating)
    qed
  qed
next
  case (Serving w)
  with p c calm_poll_calm [of conv now w] show ?thesis
    by (auto simp: thread_poll_def thread_calm_def thread_end_def split: option.splits result.splits if_splits)
next
  case Gone
  with p c show ?thesis by (simp add: thread_poll_def)
qed

lemma thread_stop_calm: "thread_calm th \<Longrightarrow> thread_calm (thread_stop g tx th)"
  by (auto simp: thread_stop_def thread_calm_def split: phase.split)

lemma stop_threads_calm: "\<forall>th \<in> set ths. thread_calm th \<Longrightarrow> \<forall>th \<in> set (stop_threads p ths). thread_calm th"
  using thread_stop_calm by (auto simp: stop_threads_def)

lemma idle_calm_poll:
  assumes "idle l k w" "calm w"
  obtains w' where "worker_poll conv now w = Some (Ok (False, w'))"
  using running_poll_settles(2) [of w l True conv now] assms by (auto simp: idle_def)

text \<open>A calm thread that serves and was not asked to stop goes on serving.\<close>

lemma calm_serves:
  assumes "thread_ok l th" "unasked th" "thread_calm th" "is_serving th"
  shows "\<exists>th' w. thread_poll cfg lst sf conv now th = Some (th', []) \<and> th_phase th' = Serving w"
proof -
  obtain w where w: "th_phase th = Serving w" using assms(4) by (auto simp: is_serving_def split: phase.splits)
  with assms have "idle l (th_idx th) w" "calm w" by (simp_all add: thread_ok_def unasked_def thread_calm_def)
  then obtain w' where "worker_poll conv now w = Some (Ok (False, w'))" by (rule idle_calm_poll)
  with w show ?thesis by (simp add: thread_poll_def)
qed

text \<open>With calm threads every report of a success that was received, or is in the channel, is that of a thread
  that serves.\<close>

definition startup_calm :: "nat \<Rightarrow> startup \<Rightarrow> bool" where
  "startup_calm n y \<longleftrightarrow> (\<forall>th \<in> set (su_threads y). thread_calm th)
     \<and> (case su_main y of
          Awaiting k \<Rightarrow> count is_serving (su_threads y) + k = n + count good (su_reports y)
        | HandshakeFailed e \<Rightarrow> True
        | _ \<Rightarrow> \<forall>th \<in> set (su_threads y). is_serving th)"

lemma all_serving:
  assumes "startup_inv cfg n ls y" "startup_calm n y" "su_main y = Awaiting 0"
  shows "\<forall>th \<in> set (su_threads y). is_serving th"
proof -
  have "count is_serving (su_threads y) = n + count good (su_reports y)" using assms by (simp add: startup_calm_def)
  moreover have "count is_serving (su_threads y) \<le> length (su_threads y)" by (rule length_filter_le)
  ultimately have "count is_serving (su_threads y) = length (su_threads y)" using startup_invD(2) [OF assms(1)] by simp
  with count_all [of is_serving "su_threads y"] show ?thesis by blast
qed

lemma calm_poll_inv:
  assumes inv: "startup_inv cfg n ls y" "startup_calm n y" and i: "i < length (su_threads y)"
    and p: "thread_poll cfg (listening y) sf conv now (su_threads y ! i) = Some (th, reps)" and l: "0 < unat (conn_limit cfg)"
  shows "startup_calm n (y\<lparr>su_threads := (su_threads y)[i := th], su_reports := su_reports y @ reps\<rparr>)"
proof -
  let ?old = "su_threads y ! i"
  have old: "?old \<in> set (su_threads y)" using i by simp
  note ok = startup_invD(3) [OF inv(1) old]
  have c: "thread_calm ?old" using inv(2) old by (simp add: startup_calm_def)
  have "\<forall>t \<in> set ((su_threads y)[i := th]). thread_calm t"
    using inv(2) thread_poll_calm [OF p c] by (auto simp: startup_calm_def dest: in_update)
  moreover have s: "is_serving th" if "unasked ?old" "is_serving ?old"
    using calm_serves [OF ok that(1) c that(2), of cfg "listening y" sf conv now] p by (auto simp: is_serving_def)
  moreover have "count is_serving ((su_threads y)[i := th]) + k = n + count good (su_reports y @ reps)" if m: "su_main y = Awaiting k" for k
  proof -
    have u: "unasked ?old" "listening y" using inv(1) old m by (auto simp: startup_inv_def listening_def)
    from unasked_advances [OF ok u(1) p _ l] u have "advanced ?old th reps" by blast
    with s [OF u(1)] phase_kinds [of ?old] phase_kinds [of th] have
      "(if is_serving th then 1 else 0) = (if is_serving ?old then 1 else 0) + count good reps"
      by (auto simp: advanced_def)
    with count_update [OF i, of is_serving th] inv(2) m show ?thesis by (simp add: startup_calm_def)
  qed
  moreover have "unasked t" if "su_main y = RegisterFailed e \<or> su_main y = Running a" "t \<in> set (su_threads y)" for e a t
    using inv(1) that by (auto simp: startup_inv_def)
  ultimately show ?thesis using inv(2) old
    by (auto simp: startup_calm_def split: outcome.splits dest: in_update)
qed

lemma calm_step:
  assumes "startup_step cfg conv ls y y'" "startup_inv cfg n ls y" "startup_calm n y" "0 < unat (conn_limit cfg)"
  shows "startup_calm n y'"
  using assms(1)
proof cases
  case (su_poll i sf now th reps)
  with calm_poll_inv [OF assms(2,3)] assms(4) show ?thesis by simp
next
  case (su_die i)
  let ?th = "(su_threads y ! i)\<lparr>th_phase := Gone\<rparr>"
  have "\<not> is_serving (su_threads y ! i)" using su_die(3) phase_kinds(2) by blast
  moreover have "\<not> is_serving ?th" "thread_calm ?th" by (simp_all add: is_serving_def thread_calm_def)
  moreover have "su_threads y ! i \<in> set (su_threads y)" using su_die(2) by simp
  ultimately show ?thesis using assms(3) su_die(1) count_update [OF su_die(2), of is_serving ?th]
    by (auto simp: startup_calm_def split: outcome.splits dest: in_update)
next
  case (su_receive k r y1 m p)
  have th: "su_threads y1 = su_threads y" using su_receive(3) by (auto simp: startup_recv_def split: list.splits if_splits)
  with stop_threads_calm [of "su_threads y" p] assms(3) have c: "\<forall>th \<in> set (stop_threads p (su_threads y1)). thread_calm th"
    by (simp add: startup_calm_def)
  consider "\<exists>e. m = HandshakeFailed e" | i u where "r = Some (i, Ok u)" "m = Awaiting k" "p = (\<lambda>j. False)"
    using su_receive(4) by (cases r; cases "snd (the r)") auto
  then show ?thesis
  proof cases
    case 1
    with su_receive(1) c show ?thesis by (auto simp: startup_calm_def)
  next
    case (2 i u)
    from su_receive(3) 2(1) have "su_reports y = (i, Ok u) # su_reports y1" by (auto simp: startup_recv_def split: list.splits if_splits)
    with su_receive(1,2) 2 c th assms(3) show ?thesis by (simp add: startup_calm_def)
  qed
next
  case (su_registered s)
  with all_serving [OF assms(2,3)] assms(3) show ?thesis by (auto simp: startup_calm_def)
next
  case (su_not_registered e)
  with all_serving [OF assms(2,3)] assms(3) show ?thesis by (auto simp: startup_calm_def)
qed

lemma startup_run_calm:
  assumes "startup_run cfg conv ls y0 y" "startup_inv cfg n ls y0" "startup_calm n y0" "0 < unat (conn_limit cfg)"
  shows "startup_calm n y"
  using assms(1)
proof induction
  case run_start
  show ?case by (rule assms(3))
next
  case (run_step y y')
  from startup_run_inv [OF run_step(1) assms(2,4)] run_step calm_step assms(4) show ?case by blast
qed

lemma accept_start_calm:
  assumes "all_factories_calm n fs"
  shows "startup_calm n (accept_start n fs)"
proof -
  have "thread_calm (thread_new k (fs k))" if "k < n" for k
    using assms that by (auto simp: all_factories_calm_def thread_calm_def thread_new_def factories_calm_def)
  moreover have "count is_serving (map (\<lambda>k. thread_new k (fs k)) [0..<n]) = 0"
    by (simp add: thread_new_def is_serving_def)
  ultimately show ?thesis by (auto simp: startup_calm_def accept_start_def)
qed

section \<open>The server after its start\<close>

text \<open>The workers of threads that serve, and the running server that a successful start leaves.\<close>

fun workers_of :: "wthread list \<Rightarrow> worker list" where
  "workers_of [] = []"
| "workers_of (th # ths) = (case th_phase th of Serving w \<Rightarrow> w # workers_of ths | _ \<Rightarrow> workers_of ths)"

definition started :: "startup \<Rightarrow> acc \<Rightarrow> server_sys" where
  "started y s = \<lparr>sys_acc = s, sys_workers = workers_of (su_threads y), taken = []\<rparr>"

lemma workers_of_serving:
  assumes "\<forall>th \<in> set ths. is_serving th \<and> unasked th \<and> thread_ok l th"
  shows "(\<forall>w \<in> set (workers_of ths). \<exists>k. idle l k w)
    \<and> map handle_of (workers_of ths) = map (\<lambda>th. fresh_handle (th_idx th) l) ths \<and> length (workers_of ths) = length ths"
  using assms
proof (induction ths)
  case (Cons th ths)
  then obtain w where w: "th_phase th = Serving w" by (auto simp: is_serving_def split: phase.splits)
  with Cons.prems have i: "idle l (th_idx th) w" by (simp add: unasked_def thread_ok_def)
  with Cons idle_handle [OF i] show ?case by (auto simp: w)
qed simp

lemma started_inv:
  assumes inv: "startup_inv cfg n ls y" and m: "su_main y = Running s" and n: "n \<le> MAX_WORKERS"
    and ls: "ls \<noteq> []" "map fst ls = [0..<length ls]" and up: "\<forall>th \<in> set (su_threads y). th_phase th \<noteq> Gone"
  shows "sys_inv (conn_limit cfg) (started y s)" "length (sys_workers (started y s)) = n"
proof -
  let ?ths = "su_threads y" and ?l = "conn_limit cfg"
  have "\<forall>th \<in> set ?ths. is_serving th \<and> unasked th \<and> thread_ok ?l th"
    using inv m up phase_kinds(1) by (auto simp: startup_inv_def)
  from workers_of_serving [OF this] have w: "\<forall>w \<in> set (workers_of ?ths). \<exists>k. idle ?l k w"
    "map handle_of (workers_of ?ths) = map (\<lambda>th. fresh_handle (th_idx th) ?l) ?ths" "length (workers_of ?ths) = length ?ths"
    by blast+
  have new: "new_with_sockets ls (map handle_of (workers_of ?ths)) = Ok s"
    using inv m by (simp add: startup_inv_def w(2))
  have "map h_idx (map handle_of (workers_of ?ths)) = map th_idx ?ths" by (simp add: w(2) comp_def)
  then have idx: "map h_idx (map handle_of (workers_of ?ths)) = [0..<n]" using startup_invD(1) [OF inv] by simp
  have "h_idx h < MAX_WORKERS \<and> h_open h" if "h \<in> set (map handle_of (workers_of ?ths))" for h
  proof -
    have "h_idx h \<in> set (map h_idx (map handle_of (workers_of ?ths)))" using that by (metis imageI set_map)
    with idx n that show ?thesis by (auto simp: handle_of_def)
  qed
  with idx ls have st: "start_ok ls (map handle_of (workers_of ?ths))" by (simp add: start_ok_def del: map_map)
  from sys_start_inv [OF w(1) st new] show "sys_inv (conn_limit cfg) (started y s)" by (simp add: started_def)
  show "length (sys_workers (started y s)) = n" using w(3) startup_invD(2) [OF inv] by (simp add: started_def)
qed

lemma started_calm: "startup_calm n y \<Longrightarrow> sys_calm (started y s)"
proof -
  assume "startup_calm n y"
  then have "\<forall>th \<in> set (su_threads y). thread_calm th" by (simp add: startup_calm_def)
  moreover have "\<forall>th \<in> set ths. thread_calm th \<Longrightarrow> \<forall>w \<in> set (workers_of ths). calm w" for ths
    by (induction ths) (auto simp: thread_calm_def split: phase.splits)
  ultimately show ?thesis by (simp add: sys_calm_def started_def)
qed

section \<open>Properties\<close>

text \<open>
  C1. The server from its start on, whatever its services and factories answer, as long as a factory returns the
  token it was registered with, which \<open>StreamNewService::create\<close> does.  When the start-up has
  succeeded, in whatever order the workers created their services, and no worker has ended, then in every
  interleaving of dispatches, notifications, worker polls and ends of handlers: no worker holds more connections than its limit; a
  worker has room exactly when it is flagged available or its notification is on the way; each
  accepted connection was given to exactly one worker and is in its queue or was handed to a service,
  and each worker serves its connections in the order of their acceptance; a dispatch returns without
  a panic whenever a worker is flagged; and a poll of a worker that returns does not end the worker, unless
  by the panic of a restart whose factory failed, and it returns unless some service turns the worker away without
  end.  With calm services and factories - finitely many answers other than \<open>Pending\<close>, and
  no failing restart - every worker serves when the start-up has succeeded, and every poll returns without a panic.\<close>

theorem server_runs_safely:
  assumes "all_factories_ok n fs" and "n \<le> MAX_WORKERS" and "0 < unat (conn_limit cfg)" and "unat (conn_limit cfg) + 1 < 2 ^ 64"
    and "ls \<noteq> []" and "map fst ls = [0..<length ls]"
    and "startup_run cfg conv ls (accept_start n fs) x" and "su_main x = Running s"
    and "all_factories_calm n fs \<or> (\<forall>th \<in> set (su_threads x). th_phase th \<noteq> Gone)" and "(sys_step conv)\<^sup>*\<^sup>* (started x s) y"
  shows "length (sys_workers y) = n
    \<and> (\<forall>w \<in> set (sys_workers y). length (conn_rx w) + length (worker.live w) \<le> unat (conn_limit cfg)
         \<and> (length (conn_rx w) + length (worker.live w) < unat (conn_limit cfg) \<longleftrightarrow> flag_of y w \<or> notices w \<noteq> [])
         \<and> subseq (map snd (calls w) @ conn_rx w) (taken y)
         \<and> (case worker_poll conv now w of
              Some (Ok (b, w')) \<Rightarrow> \<not> b
            | Some (Err p) \<Rightarrow> p = ExplicitPanic \<and> restart_fails conv now w
            | None \<Rightarrow> restless conv now w)
         \<and> (all_factories_calm n fs \<longrightarrow> (\<exists>w'. worker_poll conv now w = Some (Ok (False, w')))))
    \<and> mset (taken y) = (\<Sum>w \<leftarrow> sys_workers y. mset (map snd (calls w) @ conn_rx w))
    \<and> (available (avail (sys_acc y)) \<longrightarrow> (\<exists>s. accept_one c (sys_acc y) = Some (Ok s)))"
proof -
  note inv = startup_run_inv [OF assms(7) accept_start_inv [OF assms(1)] assms(3)]
  have calm: "startup_calm n x" if "all_factories_calm n fs"
    by (rule startup_run_calm [OF assms(7) accept_start_inv [OF assms(1)] accept_start_calm [OF that] assms(3)])
  have up: "\<forall>th \<in> set (su_threads x). th_phase th \<noteq> Gone"
    using assms(9) calm phase_kinds(4) assms(8) by (auto simp: startup_calm_def)
  from assms(10) have y: "sys_inv (conn_limit cfg) y \<and> length (sys_workers y) = n \<and> (all_factories_calm n fs \<longrightarrow> sys_calm y)"
  proof induction
    case base
    with started_inv [OF inv assms(8,2,5,6) up] started_calm [OF calm] show ?case by blast
  next
    case (step y z)
    with sys_step_inv [OF step(2) assms(4)] sys_step_workers [OF step(2)] sys_step_calm [OF step(2)] show ?case by metis
  qed
  then show ?thesis using sys_inv_safe [of "conn_limit cfg" y conv now c] unfolding poll_settles_def sys_calm_def by blast
qed

text \<open>One worker with one service and room for one connection: it starts and takes a connection.\<close>

abbreviation one_factory :: "nat \<Rightarrow> create_fut stream list" where
  "one_factory k \<equiv> [script [Ready (Ok (0, script []))] ## spent]"

lemma one_factory_ok: "all_factories_ok 1 one_factory" "all_factories_calm 1 one_factory"
  by (simp_all add: all_factories_ok_def factory_ok_def fut_ok_def all_factories_calm_def first_calm_def)

lemma one_worker_starts:
  fixes l :: usize
  assumes "0 < unat l"
  obtains w where "startup_run (start_config.make False l 30000) conv ls (accept_start 1 one_factory)
      \<lparr>su_threads = [(thread_new 0 (one_factory 0))\<lparr>th_phase := Serving w\<rparr>], su_reports = [], su_main = Awaiting 0\<rparr>"
    "length (services w) = 1"
proof -
  let ?cfg = "start_config.make False l 30000"
  let ?th = "thread_new 0 (one_factory 0)"
  obtain w where w: "spawn_worker 0 l 30000 [spent] [(0, 0, script [])] = Ok w" "length (services w) = 1" "stop_rx w = []"
    by (simp add: spawn_worker_def wrap_worker_services_def)
  then have e: "w\<lparr>stop_rx := []\<rparr> = w" by simp
  let ?th1 = "?th\<lparr>th_phase := Serving w\<rparr>"
  have "thread_poll ?cfg True False conv 0 ?th = Some (?th1, [(0, Ok ())])"
    using w(1) e by (simp add: thread_poll_def thread_new_def create_poll_def ask_def thread_created_def start_config.defs)
  with run_step [OF run_start [of ?cfg conv ls "accept_start 1 one_factory"] su_poll [of 0 _ ?cfg False conv 0 ?th1 "[(0, Ok ())]"]]
  have r1: "startup_run ?cfg conv ls (accept_start 1 one_factory) \<lparr>su_threads = [?th1], su_reports = [(0, Ok ())], su_main = Awaiting 1\<rparr>"
    by (simp add: accept_start_def listening_def)
  have r2: "startup_run ?cfg conv ls (accept_start 1 one_factory) \<lparr>su_threads = [?th1], su_reports = [], su_main = Awaiting 0\<rparr>"
    using run_step [OF r1 su_receive [of _ 0 "Some (0, Ok ())" "\<lparr>su_threads = [?th1], su_reports = [], su_main = Awaiting 1\<rparr>"]]
    by (simp add: startup_recv_def)
  from r2 w(2) that show thesis by blast
qed

theorem server_runs_safely_witness:
  "\<exists>cfg ls x s y. startup_run cfg (\<lambda>io. True) ls (accept_start 1 one_factory) x \<and> su_main x = Running s
     \<and> (sys_step (\<lambda>io. True))\<^sup>*\<^sup>* (started x s) y \<and> taken y = [\<lparr>c_io = 7, c_token = 0\<rparr>]
     \<and> length (sys_workers y) = 1 \<and> (\<forall>w \<in> set (sys_workers y). length (conn_rx w) + length (worker.live w) \<le> 1
         \<and> (\<exists>w'. worker_poll (\<lambda>io. True) 0 w = Some (Ok (False, w'))))"
proof -
  let ?cfg = "start_config.make False 1 30000"
  let ?ls = "[(0, [])] :: (nat \<times> (nat, io_error) result list) list" and ?c = "\<lparr>c_io = 7, c_token = 0\<rparr>"
  note f = one_factory_ok
  obtain w where w: "startup_run ?cfg (\<lambda>io. True) ?ls (accept_start 1 one_factory)
      \<lparr>su_threads = [(thread_new 0 (one_factory 0))\<lparr>th_phase := Serving w\<rparr>], su_reports = [], su_main = Awaiting 0\<rparr>"
    "length (services w) = 1" by (rule one_worker_starts [of 1]) simp
  let ?y0 = "\<lparr>su_threads = [(thread_new 0 (one_factory 0))\<lparr>th_phase := Serving w\<rparr>], su_reports = [], su_main = Awaiting 0\<rparr>"
  obtain s where s: "new_with_sockets ?ls [fresh_handle 0 1] = Ok s"
    by (rule new_with_sockets_ok [of ?ls "[fresh_handle 0 1]"]) (simp_all add: start_ok_def MAX_WORKERS_def)
  let ?x = "?y0\<lparr>su_main := Running s\<rparr>"
  have x: "startup_run ?cfg (\<lambda>io. True) ?ls (accept_start 1 one_factory) ?x"
    using run_step [OF w(1) su_registered [of ?y0 ?ls ?cfg s]] s by (simp add: thread_new_def start_config.defs)
  have c: "0 < unat (conn_limit ?cfg)" "unat (conn_limit ?cfg) + 1 < 2 ^ 64" "(1 :: nat) \<le> MAX_WORKERS"
    by (simp_all add: start_config.defs MAX_WORKERS_def)
  have m: "su_main ?x = Running s" by simp
  have up: "\<forall>th \<in> set (su_threads ?x). th_phase th \<noteq> Gone" by simp
  note safe = server_runs_safely [OF f(1) c(3,1,2) _ _ x m, where c = ?c and now = 0]
  let ?z = "started ?x s"
  have z: "sys_workers ?z = [w]" "taken ?z = []" by (simp_all add: started_def thread_new_def)
  have st: "(sys_step (\<lambda>io. True))\<^sup>*\<^sup>* ?z ?z" by simp
  note xinv = startup_run_inv [OF x accept_start_inv [OF f(1)] c(1)]
  have "sys_inv (conn_limit ?cfg) ?z" by (rule started_inv [OF xinv m c(3) _ _ up]) simp_all
  then have sz: "acc_wf s" "flag_of ?z w \<longrightarrow> avail_bit (avail s) (widx w)" by (simp_all add: sys_inv_def started_def flag_of_def)
  have "idle 1 0 w"
    using startup_invD(3) [OF xinv] xinv by (simp add: startup_inv_def thread_ok_def unasked_def thread_new_def start_config.defs)
  then have i: "length (conn_rx w) + length (worker.live w) < 1" "notices w = []" by (simp_all add: idle_def room_def)
  with safe [OF _ _ _ st] z f(2) have "flag_of ?z w" by (simp add: start_config.defs)
  with sz have "available (avail (sys_acc ?z))" using available_iff by (auto simp: started_def acc_wf_def)
  moreover from this safe [OF _ _ _ st] f(2) obtain s1 where s1: "accept_one ?c (sys_acc ?z) = Some (Ok s1)" by auto
  ultimately have step: "sys_step (\<lambda>io. True) ?z (?z\<lparr>sys_acc := s1, sys_workers := map2 sync_worker [w] (handles s1), taken := [?c]\<rparr>)"
    using sys_dispatch [of ?z ?c s1 "\<lambda>io. True"] w(2) z by (cases "services w") simp_all
  let ?y = "?z\<lparr>sys_acc := s1, sys_workers := map2 sync_worker [w] (handles s1), taken := [?c]\<rparr>"
  have run: "(sys_step (\<lambda>io. True))\<^sup>*\<^sup>* ?z ?y" using step by simp
  from safe [OF _ _ _ run] f(2) have "length (sys_workers ?y) = 1 \<and> (\<forall>w \<in> set (sys_workers ?y). length (conn_rx w) + length (worker.live w) \<le> 1
      \<and> (\<exists>w'. worker_poll (\<lambda>io. True) 0 w = Some (Ok (False, w'))))"
    by (simp add: start_config.defs)
  with x m run show ?thesis by (intro exI conjI) (assumption | simp)+
qed

text \<open>
  C17. A start-up that fails.  When \<open>start\<close> returns the error of a worker, or the error for a worker that
  died, no other worker is left behind: each one either has ended, or ends in its next poll, whether it
  is still creating its services, has just created them, or serves already; and in an actix system it
  stops its arbiter.\<close>

theorem failed_start_stops_workers:
  assumes "all_factories_ok n fs" and "0 < unat (conn_limit cfg)"
    and "startup_run cfg conv ls (accept_start n fs) y" and "su_main y = HandshakeFailed e" and "th \<in> set (su_threads y)"
  shows "\<exists>th'. thread_poll cfg (listening y) stop_first conv now th = Some (th', []) \<and> th_phase th' = Gone
    \<and> (th_phase th \<noteq> Gone \<longrightarrow> arbiter_stopped th' = in_system cfg)"
proof -
  note inv = startup_run_inv [OF assms(3) accept_start_inv [OF assms(1)] assms(2)]
  then have "asked th" "thread_ok (conn_limit cfg) th" using assms(4,5) by (auto simp: startup_inv_def)
  moreover have "\<not> listening y" using assms(4) by (simp add: listening_def)
  ultimately show ?thesis using asked_ends [of "conn_limit cfg" th cfg stop_first conv now] by auto
qed

text \<open>Of two workers one fails while the other is still creating its service.\<close>

theorem failed_start_stops_workers_witness:
  "\<exists>cfg y th th'. startup_run cfg (\<lambda>io. True) [] (accept_start 2 (\<lambda>k. [script (if k = 0 then [Ready (Err ())] else []) ## spent])) y
     \<and> su_main y = HandshakeFailed (OtherKind 0) \<and> th \<in> set (su_threads y) \<and> th_phase th = Creating [] [script []]
     \<and> thread_poll cfg (listening y) False (\<lambda>io. True) 0 th = Some (th', []) \<and> th_phase th' = Gone \<and> arbiter_stopped th'"
proof -
  let ?cfg = "start_config.make True 1 30000"
  let ?fs = "\<lambda>k :: nat. [script (if k = 0 then [Ready (Err ())] else []) ## spent] :: create_fut stream list"
  let ?th = "thread_new 1 (?fs 1)" and ?g = "(thread_new 0 (?fs 0))\<lparr>th_phase := Gone, arbiter_stopped := True\<rparr>"
  have p: "thread_poll ?cfg True False (\<lambda>io. True) 0 (thread_new 0 (?fs 0)) = Some (?g, [(0, Err (OtherKind 0))])"
    by (simp add: thread_poll_def thread_new_def create_poll_def ask_def thread_end_def start_config.defs)
  let ?y1 = "\<lparr>su_threads = [?g, ?th], su_reports = [(0, Err (OtherKind 0))], su_main = Awaiting 2\<rparr>"
  let ?y2 = "\<lparr>su_threads = [?g, thread_stop False 0 ?th], su_reports = [], su_main = HandshakeFailed (OtherKind 0)\<rparr>"
  have s0: "accept_start 2 ?fs = \<lparr>su_threads = [thread_new 0 (?fs 0), ?th], su_reports = [], su_main = Awaiting 2\<rparr>"
    by (simp add: accept_start_def upt_rec)
  have "startup_step ?cfg (\<lambda>io. True) [] (accept_start 2 ?fs) ?y1"
    using su_poll [of 0 "accept_start 2 ?fs" ?cfg False "\<lambda>io. True" 0 ?g "[(0, Err (OtherKind 0))]" "[]"] p
    unfolding s0 by (simp add: listening_def)
  moreover have "startup_step ?cfg (\<lambda>io. True) [] ?y1 ?y2"
    using su_receive [of ?y1 1 "Some (0, Err (OtherKind 0))" "?y1\<lparr>su_reports := []\<rparr>" "HandshakeFailed (OtherKind 0)" "\<lambda>j. j \<noteq> 0" ?cfg "\<lambda>io. True" "[]"]
    by (simp add: startup_recv_def stop_threads_def thread_new_def)
  ultimately have r: "startup_run ?cfg (\<lambda>io. True) [] (accept_start 2 ?fs) ?y2" using run_start run_step by blast
  have "all_factories_ok 2 ?fs" by (auto simp: all_factories_ok_def factory_ok_def fut_ok_def)
  from failed_start_stops_workers [OF this _ r, of "OtherKind 0" "thread_stop False 0 ?th" False 0]
  obtain th' where "thread_poll ?cfg (listening ?y2) False (\<lambda>io. True) 0 (thread_stop False 0 ?th) = Some (th', [])"
    "th_phase th' = Gone" "arbiter_stopped th'"
    by (auto simp: start_config.defs thread_stop_def thread_new_def)
  with r show ?thesis
    by (intro exI [of _ ?cfg] exI [of _ ?y2] exI [of _ "thread_stop False 0 ?th"] exI [of _ th'])
      (simp add: thread_stop_def thread_new_def)
qed

text \<open>
  C21. A start-up that fails later.  When a listener cannot be registered or the accept thread cannot be
  spawned, \<open>start\<close> returns the error without stopping the workers, which all serve by then: in every
  continuation all of them are still there, and no poll ends one, for calm services and factories - without
  them a worker can only end by itself, when a restart fails.  Nobody holds their stop channels any
  more.\<close>

theorem failed_registration_leaks_workers:
  assumes "all_factories_ok n fs" and "all_factories_calm n fs" and "0 < unat (conn_limit cfg)"
    and "startup_run cfg conv ls (accept_start n fs) y" and "su_main y = RegisterFailed e"
    and "startup_run cfg conv ls y y'"
  shows "length (su_threads y') = n \<and> su_main y' = RegisterFailed e
    \<and> (\<forall>th \<in> set (su_threads y'). \<forall>now. \<exists>th' w. thread_poll cfg lst stop_first conv now th = Some (th', [])
         \<and> th_phase th' = Serving w)"
proof -
  note start = accept_start_inv [OF assms(1)] accept_start_calm [OF assms(2)]
  note inv0 = startup_run_inv [OF assms(4) start(1) assms(3)] and calm0 = startup_run_calm [OF assms(4) start assms(3)]
  note inv = startup_run_inv [OF assms(6) inv0 assms(3)] and calm = startup_run_calm [OF assms(6) inv0 calm0 assms(3)]
  have m: "su_main y' = RegisterFailed e"
    using assms(6,5) by induction (auto elim: startup_step.cases)
  have "\<exists>th' w. thread_poll cfg lst stop_first conv now th = Some (th', []) \<and> th_phase th' = Serving w"
    if "th \<in> set (su_threads y')" for th now
    using that inv calm m by (intro calm_serves [of "conn_limit cfg"]) (auto simp: startup_inv_def startup_calm_def)
  with m startup_invD(2) [OF inv] show ?thesis by blast
qed

theorem failed_registration_leaks_workers_witness:
  "\<exists>cfg y th th' w. startup_run cfg (\<lambda>io. True) [(0, [])] (accept_start 1 one_factory) y
     \<and> su_main y = RegisterFailed (OtherKind 1) \<and> th \<in> set (su_threads y)
     \<and> thread_poll cfg False False (\<lambda>io. True) 0 th = Some (th', []) \<and> th_phase th' = Serving w"
proof -
  let ?cfg = "start_config.make False 1 30000"
  obtain w where w: "startup_run ?cfg (\<lambda>io. True) [(0, [])] (accept_start 1 one_factory)
      \<lparr>su_threads = [(thread_new 0 (one_factory 0))\<lparr>th_phase := Serving w\<rparr>], su_reports = [], su_main = Awaiting 0\<rparr>"
    by (rule one_worker_starts [of 1]) simp
  let ?y = "\<lparr>su_threads = [(thread_new 0 (one_factory 0))\<lparr>th_phase := Serving w\<rparr>], su_reports = [], su_main = RegisterFailed (OtherKind 1)\<rparr>"
  have y: "startup_run ?cfg (\<lambda>io. True) [(0, [])] (accept_start 1 one_factory) ?y"
    using run_step [OF w su_not_registered] by simp
  have "0 < unat (conn_limit ?cfg)" by (simp add: start_config.defs)
  from failed_registration_leaks_workers [OF one_factory_ok this y _ run_start, where lst = False and stop_first = False and e = "OtherKind 1"] have
    "\<exists>th' w'. thread_poll ?cfg False False (\<lambda>io. True) 0 ((thread_new 0 (one_factory 0))\<lparr>th_phase := Serving w\<rparr>) = Some (th', [])
       \<and> th_phase th' = Serving w'" by simp
  with y show ?thesis by (intro exI [of _ ?cfg] exI [of _ ?y]) auto
qed

end
