(* ===== verification/Test_Server.thy ===== *)
theory Test_Server
  imports Server_Start Server_Handle
begin

text \<open>
  Launching a server: \<open>ServerInner::run_sync\<close> and the result of \<open>run\<close> (\<open>server.rs\<close>), and the test server
  (\<open>test_server.rs\<close>), which builds a server on a thread of its own, gives out its handle before the
  server has started, and stops it when it is dropped.  Logging is not modelled; what the operating system
  answers is a parameter.
\<close>

section \<open>Launching\<close>

text \<open>What \<open>Accept::start\<close> gives: the stop channels of the workers, or an error.\<close>

definition start_result :: "nat list \<Rightarrow> startup \<Rightarrow> (nat list, io_error) result option" where
  "start_result chans y =
     (case su_main y of
        Awaiting n \<Rightarrow> None
      | HandshakeFailed e \<Rightarrow> Some (Err e)
      | RegisterFailed e \<Rightarrow> Some (Err e)
      | Running s \<Rightarrow> Some (Ok chans))"

text \<open>\<open>OsSignals::new\<close>: the signals that could be registered, in order of their priority.\<close>

definition os_signals_new :: "(signal_kind \<Rightarrow> bool) \<Rightarrow> signal_kind list" where
  "os_signals_new registered = filter registered [OsInt, OsTerm, OsQuit]"

text \<open>\<open>cmds\<close> is what handles have sent before.\<close>

definition run_sync ::
  "bool \<Rightarrow> bool \<Rightarrow> command list \<Rightarrow> builder \<Rightarrow> (nat list, io_error) result \<Rightarrow> ((server \<times> mux, io_error) result, panic) result" where
  "run_sync is_actix is_tokio cmds b accepting =
     (if \<not> is_actix \<and> \<not> is_tokio then Err ExplicitPanic
      else Ok (map_result
        (\<lambda>chans. (server_start b chans, \<lparr>cmd_rx = cmds, cmd_closed = False, signal_fut = choose_signal b\<rparr>)) accepting))"

text \<open>The result of the server future, whose multiplexer yields the commands \<open>cs\<close>.\<close>

definition server_result ::
  "bool \<Rightarrow> bool \<Rightarrow> bool \<Rightarrow> (command \<times> (handle \<times> nat, unit) result) list \<Rightarrow> builder \<Rightarrow> (nat list, io_error) result
     \<Rightarrow> ((unit, io_error) result, panic) result" where
  "server_result is_actix is_tokio accept_ok cs b accepting =
     (case run_sync is_actix is_tokio [] b accepting of
        Err p \<Rightarrow> Err p
      | Ok (Err e) \<Rightarrow> Ok (Err e)
      | Ok (Ok (srv, mux)) \<Rightarrow> map_result (\<lambda>r. Ok ()) (server_run accept_ok cs srv))"

section \<open>The test server\<close>

text \<open>\<open>Result::unwrap\<close>.\<close>

definition unwrap_ok :: "('a, 'e) result \<Rightarrow> ('a, panic) result" where
  "unwrap_ok r = map_err_result (\<lambda>e. UnwrapNone) r"

text \<open>The thread up to the send of the handle: the server that it builds and the address.  \<open>bound\<close> is the
  listener on a free port.\<close>

definition test_thread :: "os \<Rightarrow> nat \<Rightarrow> (nat, io_error) result \<Rightarrow> builder \<Rightarrow> (builder \<times> nat, panic) result" where
  "test_thread sys name bound b =
     bind_result (unwrap_ok bound) (\<lambda>lst.
     bind_result (unwrap_ok (os_local_addr sys lst)) (\<lambda>addr.
     bind_result (unwrap_ok (listen sys name lst b)) (\<lambda>b1.
     bind_result (workers 1 b1) (\<lambda>b2.
     map_result (\<lambda>server. (server, addr)) (builder_run (disable_signals b2))))))"

text \<open>Without a send the channel is closed, and \<open>recv\<close> gives an error.\<close>

definition start_with_builder :: "os \<Rightarrow> nat \<Rightarrow> (nat, io_error) result \<Rightarrow> builder \<Rightarrow> (builder \<times> nat, panic) result" where
  "start_with_builder sys name bound b =
     (case test_thread sys name bound b of Ok r \<Rightarrow> Ok r | Err p \<Rightarrow> Err UnwrapNone)"

definition test_server_start :: "os \<Rightarrow> nat \<Rightarrow> nat \<Rightarrow> (nat, io_error) result \<Rightarrow> (builder \<times> nat, panic) result" where
  "test_server_start sys parallelism name bound = start_with_builder sys name bound (builder_new parallelism)"

text \<open>\<open>stop\<close> sends the command, forgets its future, and joins the thread; \<open>cs\<close> is what the server has been
  sent before, by its accept thread.  The thread runs the server in a system of its own.\<close>

definition test_server_stop ::
  "bool \<Rightarrow> bool \<Rightarrow> nat \<Rightarrow> (command \<times> (handle \<times> nat, unit) result) list \<Rightarrow> builder \<Rightarrow> (nat list, io_error) result
     \<Rightarrow> (unit, panic) result" where
  "test_server_stop is_tokio accept_ok tx cs server accepting =
     bind_result (unwrap_ok (server_result True is_tokio accept_ok (cs @ [(handle_stop_cmd False tx, Err ())]) server accepting))
       unwrap_ok"

text \<open>\<open>unused_listener\<close>: each call of the operating system must succeed.\<close>

definition unused_listener :: "os \<Rightarrow> nat \<Rightarrow> (nat \<times> nat, panic) result" where
  "unused_listener sys addr =
     bind_result (unwrap_ok (os_socket sys addr ProtoTcp)) (\<lambda>s.
     bind_result (unwrap_ok (os_reuse_address sys s)) (\<lambda>u.
     bind_result (unwrap_ok (os_nonblocking sys s)) (\<lambda>u.
     bind_result (unwrap_ok (os_bind sys s addr)) (\<lambda>u.
     bind_result (unwrap_ok (os_listen sys s 1024)) (\<lambda>u.
     map_result (\<lambda>a. (s, a)) (unwrap_ok (os_local_addr sys s)))))))"

definition unused_addr :: "os \<Rightarrow> nat \<Rightarrow> (nat, panic) result" where
  "unused_addr sys addr = map_result snd (unused_listener sys addr)"

section \<open>Lemmas\<close>

lemma unwrap_ok_iff [simp]: "unwrap_ok r = Ok x \<longleftrightarrow> r = Ok x"
  by (cases r) (simp_all add: unwrap_ok_def)

text \<open>The server of a test server: one worker, no signals of the operating system, its listener last.\<close>

lemma test_server_built:
  assumes "builder_built b" "start_with_builder sys name bound b = Ok (server, addr)"
  shows "builder_built server \<and> builder_run server = Ok server \<and> threads server = 1 \<and> choose_signal server \<noteq> Some SigOs
    \<and> (\<exists>lst. bound = Ok lst \<and> os_local_addr sys lst = Ok addr \<and> b_sockets server = b_sockets b @ [(next_tok b, TcpListener lst)])"
proof -
  from assms(2) obtain lst b1 b2 where l: "bound = Ok lst" "os_local_addr sys lst = Ok addr" "listen sys name lst b = Ok b1"
    "workers 1 b1 = Ok b2" "builder_run (disable_signals b2) = Ok server"
    by (auto simp: start_with_builder_def test_thread_def bind_result_Ok_iff split: result.splits
        elim!: map_result.elims)
  have s: "server = disable_signals b2" using l(5) by (simp add: builder_run_def split: if_splits)
  moreover have "builder_built server"
    unfolding s by (rule bb_nosig [OF bb_workers [OF bb_listen [OF assms(1) l(3)] l(4)]])
  moreover have "threads b2 = 1" "b_sockets b2 = b_sockets b1" using l(4) by (auto simp: workers_def split: if_splits)
  moreover have "b_sockets b1 = b_sockets b @ [(next_tok b, TcpListener lst)]"
    using l(3) by (auto simp: listen_def push_listener_def next_token_def bind_result_Ok_iff)
  ultimately show ?thesis using l by (auto simp: disable_signals_def choose_signal_def)
qed

text \<open>A signal that has arrived is seen unless one of higher priority has arrived too; one that could not be
  registered never is.\<close>

lemma os_signals_priority:
  "os_signals_poll (map (\<lambda>sig. (sig, arrived sig)) (os_signals_new registered)) =
     (let up = (\<lambda>sig. registered sig \<and> arrived sig) in
      if up OsInt then Ready OsInt else if up OsTerm then Ready OsTerm else if up OsQuit then Ready OsQuit else Pending)"
  by (simp add: os_signals_new_def)

text \<open>What the server future gives for the commands of a test server: reports of its only worker, then a
  stop.\<close>

lemma server_result_stopped:
  assumes cs: "\<forall>(c, st) \<in> set cs. c = WorkerFaulted 0" and w: "threads b = 1" "length chans = 1"
  shows "server_result True is_tokio True (cs @ [(handle_stop_cmd False tx, st)]) b (Ok chans) = Ok (Ok ())"
proof -
  obtain ch where "chans = [ch]" using w(2) by (cases chans) auto
  then have h: "worker_handles (server_start b chans) = [(0, ch)]" using w(1) by (simp add: server_start_def)
  have k: "faults_known (server_start b chans) (cs @ [(handle_stop_cmd False tx, st)])"
    using cs h by (auto simp: faults_known_def handle_stop_cmd_def)
  have "accept_running (server_start b chans)" "\<not> stopping (server_start b chans)" by (simp_all add: server_start_def)
  from server_run_cases [OF this k]
  obtain r where "server_run True (cs @ [(handle_stop_cmd False tx, st)]) (server_start b chans) = Ok r" by blast
  then show ?thesis by (simp add: server_result_def run_sync_def)
qed

section \<open>Properties\<close>

text \<open>
  A test server.  Starting one gives a handle exactly if its listener could be bound, has an address and
  could be made non-blocking, whether or not the server then starts; the server has one worker and does not
  listen to signals of the operating system, keeps the invariant of the builder, and its last listener is
  the one at the address in the handle.  Dropping the handle returns if the server could start, and panics
  if it could not or if the accept thread panicked.
\<close>

theorem test_server_lifecycle:
  assumes "builder_built b" and "\<forall>(c, st) \<in> set cs. c = WorkerFaulted 0"
  shows "(\<exists>r. start_with_builder sys name bound b = Ok r)
      \<longleftrightarrow> (\<exists>lst a. bound = Ok lst \<and> os_nonblocking sys lst = Ok () \<and> os_local_addr sys lst = Ok a)"
    and "start_with_builder sys name bound b = Ok (server, addr) \<Longrightarrow> length chans = 1 \<Longrightarrow>
      builder_built server \<and> builder_run server = Ok server \<and> threads server = 1 \<and> choose_signal server \<noteq> Some SigOs
      \<and> (\<exists>lst. bound = Ok lst \<and> os_local_addr sys lst = Ok addr \<and> b_sockets server = b_sockets b @ [(next_tok b, TcpListener lst)])
      \<and> test_server_stop is_tokio True tx cs server (Ok chans) = Ok ()
      \<and> test_server_stop is_tokio ok tx cs server (Err e) = Err UnwrapNone
      \<and> (cs = [] \<longrightarrow> test_server_stop is_tokio False tx cs server (Ok chans) = Err UnwrapNone)"
proof -
  have b: "threads b \<le> MAX_WORKERS" using builder_built_ok [OF assms(1)] by (simp add: builder_ok_def)
  show "(\<exists>r. start_with_builder sys name bound b = Ok r)
      \<longleftrightarrow> (\<exists>lst a. bound = Ok lst \<and> os_nonblocking sys lst = Ok () \<and> os_local_addr sys lst = Ok a)"
    by (cases bound; cases "os_local_addr sys (case bound of Ok l \<Rightarrow> l)"; cases "os_nonblocking sys (case bound of Ok l \<Rightarrow> l)")
      (simp_all add: start_with_builder_def test_thread_def unwrap_ok_def listen_def push_listener_def next_token_def
        workers_def MAX_WORKERS_def builder_run_def disable_signals_def)
  assume s: "start_with_builder sys name bound b = Ok (server, addr)" and c: "length chans = 1"
  note built = test_server_built [OF assms(1) s]
  have "test_server_stop is_tokio True tx cs server (Ok chans) = Ok ()"
    using server_result_stopped [OF assms(2) _ c, of server is_tokio tx "Err ()"] built
    by (simp add: test_server_stop_def unwrap_ok_def)
  moreover have "test_server_stop is_tokio ok tx cs server (Err e) = Err UnwrapNone"
    by (simp add: test_server_stop_def server_result_def run_sync_def unwrap_ok_def)
  moreover have "cs = [] \<longrightarrow> test_server_stop is_tokio False tx cs server (Ok chans) = Err UnwrapNone"
    by (simp add: test_server_stop_def server_result_def run_sync_def unwrap_ok_def handle_stop_cmd_def stop_begin_def
        stop_end_def server_start_def)
  ultimately show "builder_built server \<and> builder_run server = Ok server \<and> threads server = 1 \<and> choose_signal server \<noteq> Some SigOs
      \<and> (\<exists>lst. bound = Ok lst \<and> os_local_addr sys lst = Ok addr \<and> b_sockets server = b_sockets b @ [(next_tok b, TcpListener lst)])
      \<and> test_server_stop is_tokio True tx cs server (Ok chans) = Ok ()
      \<and> test_server_stop is_tokio ok tx cs server (Err e) = Err UnwrapNone
      \<and> (cs = [] \<longrightarrow> test_server_stop is_tokio False tx cs server (Ok chans) = Err UnwrapNone)"
    using built by blast
qed

end
