(* ===== verification/Rt_System.thy ===== *)
theory Rt_System
  imports Prelude "HOL-Library.AList"
begin

text \<open>
  \<open>actix-rt/src/arbiter.rs\<close> and \<open>system.rs\<close>: arbiters, the system controller and the stop watch.  An
  arbiter is its command channel and the tasks it has spawned, named by numbers; \<open>arb_alive\<close> is
  whether its runner still owns the receiver.  The controller's table maps arbiter ids to arbiters,
  which live in a store because every handle refers to the same channel.  The threads of the arbiters,
  with their thread locals and ids, are in \<open>Rt_Threads\<close>; the Tokio runtime is not modelled.
\<close>

section \<open>Arbiters\<close>

datatype arb_cmd = ArbStop | ArbExecute nat

record arbiter =
  arb_rx :: "arb_cmd list"
  arb_alive :: bool
  arb_spawned :: "nat list"

definition arb_new :: arbiter where
  "arb_new = \<lparr>arb_rx = [], arb_alive = True, arb_spawned = []\<rparr>"

definition arb_send :: "arb_cmd \<Rightarrow> arbiter \<Rightarrow> bool \<times> arbiter" where
  "arb_send c a = (if arb_alive a then (True, a\<lparr>arb_rx := arb_rx a @ [c]\<rparr>) else (False, a))"

definition arb_stop :: "arbiter \<Rightarrow> bool \<times> arbiter" where
  "arb_stop a = arb_send ArbStop a"

definition arb_spawn :: "nat \<Rightarrow> arbiter \<Rightarrow> bool \<times> arbiter" where
  "arb_spawn task a = arb_send (ArbExecute task) a"

text \<open>\<open>ArbiterRunner::poll\<close>; \<open>closed\<close> is whether every sender is gone.\<close>

fun runner_loop :: "bool \<Rightarrow> arb_cmd list \<Rightarrow> nat list \<Rightarrow> unit poll \<times> arb_cmd list \<times> nat list" where
  "runner_loop closed [] spawned = (if closed then Ready () else Pending, [], spawned)"
| "runner_loop closed (ArbStop # q) spawned = (Ready (), q, spawned)"
| "runner_loop closed (ArbExecute task # q) spawned = runner_loop closed q (spawned @ [task])"

definition runner_poll :: "bool \<Rightarrow> arbiter \<Rightarrow> unit poll \<times> arbiter" where
  "runner_poll closed a =
     (case runner_loop closed (arb_rx a) (arb_spawned a) of
        (r, q, sp) \<Rightarrow> (r, a\<lparr>arb_rx := q, arb_spawned := sp\<rparr>))"

section \<open>The controller\<close>

datatype sys_cmd = SysExit int | RegisterArbiter nat nat | DeregisterArbiter nat

text \<open>The watch channel: its value, the version of the last send, and whether the sender lives.  \<open>ctl_done\<close>
  is whether the controller's task has completed.\<close>

record watch =
  w_value :: "int option"
  w_version :: nat
  w_open :: bool

record system =
  cmd_rx :: "sys_cmd list"
  stop_tx :: bool
  stop_watch :: watch
  arbiters :: "(nat \<times> nat) list"
  arbs :: "nat \<Rightarrow> arbiter"
  ctl_done :: bool

definition watch_send :: "int \<Rightarrow> watch \<Rightarrow> watch" where
  "watch_send code w = w\<lparr>w_value := Some code, w_version := w_version w + 1\<rparr>"

fun stop_all :: "(nat \<times> nat) list \<Rightarrow> (nat \<Rightarrow> arbiter) \<Rightarrow> nat \<Rightarrow> arbiter" where
  "stop_all [] st = st"
| "stop_all ((i, a) # as) st = stop_all as (st(a := snd (arb_stop (st a))))"

text \<open>Taking \<open>stop_tx\<close> and dropping it after the send closes the watch.\<close>

fun ctl_step :: "sys_cmd \<Rightarrow> system \<Rightarrow> system" where
  "ctl_step (SysExit code) s =
     (let s1 = s\<lparr>arbs := stop_all (arbiters s) (arbs s)\<rparr> in
      if stop_tx s1 then
        s1\<lparr>stop_tx := False, stop_watch := (watch_send code (stop_watch s1))\<lparr>w_open := False\<rparr>\<rparr>
      else s1)"
| "ctl_step (RegisterArbiter i a) s = s\<lparr>arbiters := AList.update i a (arbiters s)\<rparr>"
| "ctl_step (DeregisterArbiter i) s = s\<lparr>arbiters := AList.delete i (arbiters s)\<rparr>"

fun ctl_loop :: "sys_cmd list \<Rightarrow> system \<Rightarrow> system" where
  "ctl_loop [] s = s"
| "ctl_loop (c # cs) s = ctl_loop cs (ctl_step c s)"

definition ctl_poll :: "bool \<Rightarrow> system \<Rightarrow> unit poll \<times> system" where
  "ctl_poll closed s =
     (if closed then Ready () else Pending, ctl_loop (cmd_rx s) (s\<lparr>cmd_rx := []\<rparr>))"

text \<open>A task that completes is dropped, here with the sender of the watch if the controller still has it.\<close>

definition ctl_end :: "system \<Rightarrow> system" where
  "ctl_end s = s\<lparr>ctl_done := True, stop_tx := False, stop_watch := (stop_watch s)\<lparr>w_open := False\<rparr>\<rparr>"

section \<open>Waiting for the stop\<close>

text \<open>\<open>wait_for_stop\<close> polled with the receiver's last seen version; the second component is the version
  it has then seen.  After one change has been marked as seen the loop checks the value once more.\<close>

definition wait_again :: "watch \<Rightarrow> (int, unit) result poll \<times> nat" where
  "wait_again w =
     (case w_value w of
        Some code \<Rightarrow> (Ready (Ok code), w_version w)
      | None \<Rightarrow> (if w_open w then (Pending, w_version w) else (Ready (Err ()), w_version w)))"

definition wait_poll :: "nat \<Rightarrow> watch \<Rightarrow> (int, unit) result poll \<times> nat" where
  "wait_poll seen w =
     (case w_value w of
        Some code \<Rightarrow> (Ready (Ok code), seen)
      | None \<Rightarrow>
          (if seen \<noteq> w_version w then wait_again w
           else if w_open w then (Pending, seen) else (Ready (Err ()), seen)))"

text \<open>\<open>SystemRunner::run\<close> maps the exit code.\<close>

definition run_result :: "(int, unit) result \<Rightarrow> (unit, io_error) result" where
  "run_result r =
     (case r of
        Err u \<Rightarrow> Err (OtherKind 0)
      | Ok code \<Rightarrow> (if code = 0 then Ok () else Err (OtherKind 0)))"

section \<open>Runs\<close>

text \<open>A system with its arbiters' threads: new arbiters register, handles spawn and stop, runners poll
  and deregister when they end, the system is asked to stop, and the controller polls.  \<open>exits\<close> is the
  list of exit codes requested so far.  The controller's channel is closed when no handle of the system is
  left; its poll then is its last, and as a send needs a handle none follows.\<close>

text \<open>The arbiter of the system itself is the first of the store, registered with the id \<open>usize::MAX\<close>.\<close>

definition system_arbiter_id :: nat where "system_arbiter_id = unat usize_max"

definition system_stop :: "int \<Rightarrow> system \<Rightarrow> system" where
  "system_stop code s = s\<lparr>cmd_rx := cmd_rx s @ [SysExit code]\<rparr>"

definition system_new :: system where
  "system_new = \<lparr>cmd_rx = [RegisterArbiter system_arbiter_id 0], stop_tx = True,
     stop_watch = \<lparr>w_value = None, w_version = 0, w_open = True\<rparr>, arbiters = [],
     arbs = (\<lambda>a. arb_new), ctl_done = False\<rparr>"

inductive sys_step :: "system \<Rightarrow> int list \<Rightarrow> system \<Rightarrow> int list \<Rightarrow> bool" where
  ss_register: "\<not> ctl_done s \<Longrightarrow> sys_step s es (s\<lparr>cmd_rx := cmd_rx s @ [RegisterArbiter i a]\<rparr>) es"
| ss_spawn: "sys_step s es (s\<lparr>arbs := (arbs s)(a := snd (arb_spawn t (arbs s a)))\<rparr>) es"
| ss_stop_arbiter: "sys_step s es (s\<lparr>arbs := (arbs s)(a := snd (arb_stop (arbs s a)))\<rparr>) es"
| ss_runner: "runner_poll closed (arbs s a) = (r, a') \<Longrightarrow>
     sys_step s es (s\<lparr>arbs := (arbs s)(a := if is_ready r then a'\<lparr>arb_alive := False\<rparr> else a')\<rparr>) es"
| ss_deregister: "\<not> ctl_done s \<Longrightarrow> sys_step s es (s\<lparr>cmd_rx := cmd_rx s @ [DeregisterArbiter i]\<rparr>) es"
| ss_stop: "\<not> ctl_done s \<Longrightarrow> sys_step s es (system_stop code s) (es @ [code])"
| ss_ctl: "\<not> ctl_done s \<Longrightarrow> ctl_poll closed s = (r, s1) \<Longrightarrow>
     sys_step s es (if is_ready r then ctl_end s1 else s1) es"

inductive sys_run :: "system \<Rightarrow> int list \<Rightarrow> bool" where
  run_new: "sys_run system_new []"
| run_step: "sys_run s es \<Longrightarrow> sys_step s es s' es' \<Longrightarrow> sys_run s' es'"

lemmas run_register = run_step [OF _ ss_register]
lemmas run_spawn = run_step [OF _ ss_spawn]
lemmas run_stop_arbiter = run_step [OF _ ss_stop_arbiter]
lemmas run_runner = run_step [OF _ ss_runner]
lemmas run_deregister = run_step [OF _ ss_deregister]
lemmas run_stop = run_step [OF _ ss_stop]
lemmas run_ctl = run_step [OF _ ss_ctl]

section \<open>Lemmas\<close>

fun exit_codes :: "sys_cmd list \<Rightarrow> int list" where
  "exit_codes [] = []"
| "exit_codes (SysExit c # cs) = c # exit_codes cs"
| "exit_codes (RegisterArbiter i a # cs) = exit_codes cs"
| "exit_codes (DeregisterArbiter i # cs) = exit_codes cs"

lemma exit_codes_append: "exit_codes (xs @ ys) = exit_codes xs @ exit_codes ys"
  by (induction xs rule: exit_codes.induct) simp_all

text \<open>The stop watch holds the first code, once the controller has seen one; it is closed without a code
  only by a controller that has completed without having seen one.\<close>

definition exit_inv :: "system \<Rightarrow> int list \<Rightarrow> bool" where
  "exit_inv s es \<longleftrightarrow>
     (if stop_tx s then w_value (stop_watch s) = None \<and> w_open (stop_watch s) \<and> exit_codes (cmd_rx s) = es \<and> \<not> ctl_done s
      else (case w_value (stop_watch s) of
              None \<Rightarrow> es = [] \<and> ctl_done s
            | Some c \<Rightarrow> \<exists>rest. es = c # rest))
     \<and> (ctl_done s \<longrightarrow> \<not> w_open (stop_watch s))"

lemma ctl_step_exit:
  "stop_tx (ctl_step c s) = (stop_tx s \<and> exit_codes [c] = [])
   \<and> w_value (stop_watch (ctl_step c s)) =
       (if stop_tx s then (case exit_codes [c] of [] \<Rightarrow> w_value (stop_watch s) | k # ks \<Rightarrow> Some k)
        else w_value (stop_watch s))
   \<and> (stop_tx s \<and> exit_codes [c] = [] \<longrightarrow> w_open (stop_watch (ctl_step c s)) = w_open (stop_watch s))"
  by (cases c) (simp_all add: Let_def watch_send_def)

lemma ctl_loop_exit:
  "stop_tx (ctl_loop cs s) = (stop_tx s \<and> exit_codes cs = [])
   \<and> w_value (stop_watch (ctl_loop cs s)) =
       (if stop_tx s then (case exit_codes cs of [] \<Rightarrow> w_value (stop_watch s) | k # ks \<Rightarrow> Some k)
        else w_value (stop_watch s))
   \<and> (stop_tx s \<and> exit_codes cs = [] \<longrightarrow> w_open (stop_watch (ctl_loop cs s)) = w_open (stop_watch s))"
proof (induction cs arbitrary: s)
  case (Cons c cs)
  have "exit_codes (c # cs) = exit_codes [c] @ exit_codes cs" using exit_codes_append [of "[c]" cs] by simp
  with Cons.IH [of "ctl_step c s"] ctl_step_exit [of c s] show ?case
    by (cases "exit_codes [c]"; cases "exit_codes cs") auto
qed simp

lemma ctl_loop_cmd_rx: "cmd_rx (ctl_loop cs s) = cmd_rx s \<and> ctl_done (ctl_loop cs s) = ctl_done s"
proof (induction cs arbitrary: s)
  case (Cons c cs)
  have "cmd_rx (ctl_step c s) = cmd_rx s \<and> ctl_done (ctl_step c s) = ctl_done s" by (cases c) (simp_all add: Let_def)
  with Cons show ?case by simp
qed simp

lemma ctl_poll_exit:
  assumes "exit_inv s es" "\<not> ctl_done s" "ctl_poll closed s = (r, s1)"
  shows "exit_inv s1 es" "\<not> ctl_done s1" "cmd_rx s1 = []" "r = (if closed then Ready () else Pending)"
  using assms ctl_loop_exit [of "cmd_rx s" "s\<lparr>cmd_rx := []\<rparr>"] ctl_loop_cmd_rx [of "cmd_rx s" "s\<lparr>cmd_rx := []\<rparr>"]
  by (cases "stop_tx s"; cases es; auto simp: exit_inv_def ctl_poll_def split: option.splits)+

lemma ctl_end_exit: "exit_inv s es \<Longrightarrow> cmd_rx s = [] \<Longrightarrow> exit_inv (ctl_end s) es"
  by (auto simp: exit_inv_def ctl_end_def split: if_splits option.splits)

lemma sys_step_exit: "sys_step s es s' es' \<Longrightarrow> exit_inv s es \<Longrightarrow> exit_inv s' es'"
proof (induction rule: sys_step.induct)
  case (ss_ctl s closed r s1 es)
  then show ?case using ctl_poll_exit [of s es closed r s1] ctl_end_exit [of s1 es] by auto
qed (auto simp: exit_inv_def exit_codes_append system_stop_def split: option.splits if_splits)

lemma sys_run_exit: "sys_run s es \<Longrightarrow> exit_inv s es"
proof (induction rule: sys_run.induct)
  case run_new
  then show ?case by (simp add: exit_inv_def system_new_def)
next
  case (run_step s es s' es')
  then show ?case by (blast intro: sys_step_exit)
qed

text \<open>Stops and spawns only add to a channel; a stop in the channel ends the runner.\<close>

lemma runner_loop_stop:
  "ArbStop \<in> set q \<Longrightarrow> fst (runner_loop closed q sp) = Ready ()
    \<and> snd (snd (runner_loop closed q sp)) =
        sp @ map (\<lambda>c. case c of ArbExecute t \<Rightarrow> t | ArbStop \<Rightarrow> 0) (takeWhile (\<lambda>c. c \<noteq> ArbStop) q)"
  by (induction closed q sp rule: runner_loop.induct) simp_all

lemma arb_stop_grows:
  "\<exists>n. arb_rx (snd (arb_stop x)) = arb_rx x @ replicate n ArbStop \<and> arb_alive (snd (arb_stop x)) = arb_alive x
     \<and> arb_spawned (snd (arb_stop x)) = arb_spawned x"
  by (cases "arb_alive x") (auto simp: arb_stop_def arb_send_def intro: exI [of _ 0] exI [of _ 1])

lemma stop_all_mono:
  "\<exists>n. arb_rx (stop_all as st a) = arb_rx (st a) @ replicate n ArbStop \<and> arb_alive (stop_all as st a) = arb_alive (st a)
     \<and> arb_spawned (stop_all as st a) = arb_spawned (st a)"
proof (induction "as" arbitrary: st)
  case (Cons p ps)
  obtain i b where p: "p = (i, b)" by force
  define st1 where "st1 = st(b := snd (arb_stop (st b)))"
  obtain n where n: "arb_rx (st1 a) = arb_rx (st a) @ replicate n ArbStop" "arb_alive (st1 a) = arb_alive (st a)"
    "arb_spawned (st1 a) = arb_spawned (st a)"
  proof (cases "a = b")
    case True
    with arb_stop_grows [of "st b"] that show thesis by (auto simp: st1_def)
  next
    case False
    with that [of 0] show thesis by (simp add: st1_def)
  qed
  obtain m where m: "arb_rx (stop_all ps st1 a) = arb_rx (st1 a) @ replicate m ArbStop"
    "arb_alive (stop_all ps st1 a) = arb_alive (st1 a)" "arb_spawned (stop_all ps st1 a) = arb_spawned (st1 a)"
    using Cons.IH by blast
  have "stop_all (p # ps) st = stop_all ps st1" by (simp add: p st1_def)
  with n m show ?case by (intro exI [of _ "n + m"]) (simp add: replicate_add)
qed (simp add: exI [of _ 0])

lemma stop_all_stops:
  "a \<in> snd ` set as \<Longrightarrow> arb_alive (st a) \<Longrightarrow> ArbStop \<in> set (arb_rx (stop_all as st a))"
proof (induction "as" arbitrary: st)
  case (Cons p ps)
  obtain i b where p: "p = (i, b)" by force
  define st1 where "st1 = st(b := snd (arb_stop (st b)))"
  have e: "stop_all (p # ps) st = stop_all ps st1" by (simp add: p st1_def)
  show ?case
  proof (cases "a = b")
    case True
    obtain n where "arb_rx (stop_all ps st1 a) = arb_rx (st1 a) @ replicate n ArbStop"
      using stop_all_mono by blast
    moreover have "ArbStop \<in> set (arb_rx (st1 a))"
      using True Cons.prems(2) by (simp add: st1_def arb_stop_def arb_send_def)
    ultimately show ?thesis by (simp add: e)
  next
    case False
    then have "a \<in> snd ` set ps" "arb_alive (st1 a)" using Cons.prems by (auto simp: p st1_def)
    with Cons.IH show ?thesis by (simp add: e)
  qed
qed simp

lemma ctl_step_mono:
  "\<exists>n. arb_rx (arbs (ctl_step c s) a) = arb_rx (arbs s a) @ replicate n ArbStop
     \<and> arb_alive (arbs (ctl_step c s) a) = arb_alive (arbs s a)
     \<and> arb_spawned (arbs (ctl_step c s) a) = arb_spawned (arbs s a)"
  using stop_all_mono [of "arbiters s" "arbs s" a]
  by (cases c) (auto simp: Let_def intro: exI [of _ 0])

lemma ctl_loop_mono:
  "\<exists>n. arb_rx (arbs (ctl_loop cs s) a) = arb_rx (arbs s a) @ replicate n ArbStop
     \<and> arb_alive (arbs (ctl_loop cs s) a) = arb_alive (arbs s a)
     \<and> arb_spawned (arbs (ctl_loop cs s) a) = arb_spawned (arbs s a)"
proof (induction cs arbitrary: s)
  case (Cons c cs)
  obtain n m where "arb_rx (arbs (ctl_step c s) a) = arb_rx (arbs s a) @ replicate n ArbStop"
    "arb_alive (arbs (ctl_step c s) a) = arb_alive (arbs s a)"
    "arb_spawned (arbs (ctl_step c s) a) = arb_spawned (arbs s a)"
    "arb_rx (arbs (ctl_loop cs (ctl_step c s)) a) = arb_rx (arbs (ctl_step c s) a) @ replicate m ArbStop"
    "arb_alive (arbs (ctl_loop cs (ctl_step c s)) a) = arb_alive (arbs (ctl_step c s) a)"
    "arb_spawned (arbs (ctl_loop cs (ctl_step c s)) a) = arb_spawned (arbs (ctl_step c s) a)"
    using ctl_step_mono [of c s a] Cons.IH [of "ctl_step c s"] by metis
  then show ?case by (intro exI [of _ "n + m"]) (simp add: replicate_add)
qed (simp add: exI [of _ 0])

lemma ctl_loop_append: "ctl_loop (xs @ ys) s = ctl_loop ys (ctl_loop xs s)"
  by (induction xs arbitrary: s) simp_all

section \<open>Properties\<close>

text \<open>
  A system stop reaches every registered arbiter: when the controller processes an exit command,
  each live arbiter that is in its table at that point ends at its next poll, after it has spawned
  exactly the tasks that were sent to it before its first stop command.
\<close>

theorem exit_stops_arbiters:
  assumes "cmd_rx s = cs1 @ SysExit code # cs2"
    and "a \<in> snd ` set (arbiters (ctl_loop cs1 (s\<lparr>cmd_rx := []\<rparr>)))" and "arb_alive (arbs s a)"
  shows "\<exists>sp. runner_poll closed (arbs (snd (ctl_poll c s)) a) = (Ready (), sp)
    \<and> arb_spawned sp = arb_spawned (arbs s a)
        @ map (\<lambda>c. case c of ArbExecute t \<Rightarrow> t | ArbStop \<Rightarrow> 0) (takeWhile (\<lambda>c. c \<noteq> ArbStop) (arb_rx (arbs s a)))"
proof -
  let ?s1 = "ctl_loop cs1 (s\<lparr>cmd_rx := []\<rparr>)" and ?s' = "snd (ctl_poll c s)"
  have s': "?s' = ctl_loop cs2 (ctl_step (SysExit code) ?s1)"
    using assms(1) by (simp add: ctl_poll_def ctl_loop_append)
  obtain k where k: "arb_rx (arbs ?s1 a) = arb_rx (arbs s a) @ replicate k ArbStop"
    "arb_alive (arbs ?s1 a) = arb_alive (arbs s a)" "arb_spawned (arbs ?s1 a) = arb_spawned (arbs s a)"
    using ctl_loop_mono [of cs1 "s\<lparr>cmd_rx := []\<rparr>" a] by auto
  have "arbs (ctl_step (SysExit code) ?s1) = stop_all (arbiters ?s1) (arbs ?s1)" by (simp add: Let_def)
  then have st: "ArbStop \<in> set (arb_rx (arbs (ctl_step (SysExit code) ?s1) a))"
    using stop_all_stops [OF assms(2)] k(2) assms(3) by simp
  obtain n where n: "arb_rx (arbs (ctl_step (SysExit code) ?s1) a) = arb_rx (arbs ?s1 a) @ replicate n ArbStop"
    "arb_spawned (arbs (ctl_step (SysExit code) ?s1) a) = arb_spawned (arbs ?s1 a)"
    using ctl_step_mono by blast
  obtain m where m: "arb_rx (arbs ?s' a) = arb_rx (arbs (ctl_step (SysExit code) ?s1) a) @ replicate m ArbStop"
    "arb_spawned (arbs ?s' a) = arb_spawned (arbs (ctl_step (SysExit code) ?s1) a)"
    using ctl_loop_mono [of cs2 "ctl_step (SysExit code) ?s1" a] s' by auto
  have q: "arb_rx (arbs ?s' a) = arb_rx (arbs s a) @ replicate (k + n + m) ArbStop"
    using k(1) n(1) m(1) by (simp add: replicate_add)
  have "ArbStop \<in> set (arb_rx (arbs ?s' a))" using st m(1) by simp
  from runner_loop_stop [OF this, of closed "arb_spawned (arbs ?s' a)"]
  have r: "fst (runner_loop closed (arb_rx (arbs ?s' a)) (arb_spawned (arbs ?s' a))) = Ready ()"
    "snd (snd (runner_loop closed (arb_rx (arbs ?s' a)) (arb_spawned (arbs ?s' a)))) = arb_spawned (arbs ?s' a)
      @ map (\<lambda>c. case c of ArbExecute t \<Rightarrow> t | ArbStop \<Rightarrow> 0) (takeWhile (\<lambda>c. c \<noteq> ArbStop) (arb_rx (arbs ?s' a)))"
    by simp_all
  have "takeWhile (\<lambda>c. c \<noteq> ArbStop) (xs @ replicate j ArbStop) = takeWhile (\<lambda>c. c \<noteq> ArbStop) xs" for xs j
    by (induction xs) (cases j, auto)
  then have "takeWhile (\<lambda>c. c \<noteq> ArbStop) (arb_rx (arbs ?s' a)) = takeWhile (\<lambda>c. c \<noteq> ArbStop) (arb_rx (arbs s a))"
    by (simp only: q)
  with r k(3) n(2) m(2) show ?thesis
    by (auto simp: runner_poll_def split: prod.splits)
qed

theorem exit_stops_arbiters_witness:
  "\<exists>sp. runner_poll False (arbs (snd (ctl_poll False (system_new\<lparr>cmd_rx := [RegisterArbiter system_arbiter_id 0, SysExit 3],
      arbs := (\<lambda>a. arb_new\<lparr>arb_rx := [ArbExecute 5]\<rparr>)\<rparr>))) 0) = (Ready (), sp) \<and> arb_spawned sp = [5]"
  using exit_stops_arbiters [of "system_new\<lparr>cmd_rx := [RegisterArbiter system_arbiter_id 0, SysExit 3],
      arbs := (\<lambda>a. arb_new\<lparr>arb_rx := [ArbExecute 5]\<rparr>)\<rparr>" "[RegisterArbiter system_arbiter_id 0]" 3 "[]" 0 False False]
  by (simp add: system_new_def arb_new_def)

end
