(* ===== verification/Rt_Threads.thy ===== *)
theory Rt_Threads
  imports Rt_System
begin

text \<open>
  The threads of \<open>actix-rt\<close>: the thread locals that hold the current system and arbiter, the construction
  of a system, and \<open>Arbiter::try_with_tokio_rt\<close> with the thread it starts, as the list of what this thread
  still has to do.  A run is one system with the arbiters created in it, in every interleaving of their
  threads, of sends through their handles, of stop requests and of the polls of the controller; arbiters
  of other systems only advance the counter of ids.  The thread of the system keeps the handle in its thread
  local, so that the controller's channel stays open and each poll leaves the controller running.  Whether
  a runtime can be built and a thread be spawned are parameters.
\<close>

section \<open>Thread locals\<close>

record sys_handle =
  sys_id :: usize
  sys_arbiter :: nat

record tls =
  current_sys :: "sys_handle option"
  arb_handle :: "nat option"

definition tls_new :: tls where
  "tls_new = \<lparr>current_sys = None, arb_handle = None\<rparr>"

definition set_current :: "sys_handle \<Rightarrow> tls \<Rightarrow> tls" where
  "set_current s t = t\<lparr>current_sys := Some s\<rparr>"

definition system_current :: "tls \<Rightarrow> (sys_handle, panic) result" where
  "system_current t = (case current_sys t of Some s \<Rightarrow> Ok s | None \<Rightarrow> Err ExplicitPanic)"

definition system_try_current :: "tls \<Rightarrow> sys_handle option" where
  "system_try_current t = current_sys t"

definition is_registered :: "tls \<Rightarrow> bool" where
  "is_registered t \<longleftrightarrow> current_sys t \<noteq> None"

definition arbiter_current :: "tls \<Rightarrow> (nat, panic) result" where
  "arbiter_current t = (case arb_handle t of Some h \<Rightarrow> Ok h | None \<Rightarrow> Err ExplicitPanic)"

definition arbiter_try_current :: "tls \<Rightarrow> nat option" where
  "arbiter_try_current t = arb_handle t"

text \<open>\<open>System::construct\<close>, with the counter of systems.\<close>

definition construct :: "usize \<Rightarrow> nat \<Rightarrow> tls \<Rightarrow> sys_handle \<times> usize \<times> tls" where
  "construct system_count arb t =
     (let s = \<lparr>sys_id = system_count, sys_arbiter = arb\<rparr> in (s, system_count + 1, set_current s t))"

text \<open>\<open>Arbiter::in_new_system\<close> on the thread of the system: the runner is spawned there.\<close>

definition in_new_system :: "nat \<Rightarrow> tls \<Rightarrow> tls" where
  "in_new_system h t = t\<lparr>arb_handle := Some h\<rparr>"

section \<open>Arbiter threads\<close>

datatype thread_event = ToSystem sys_cmd | Announce "(unit, io_error) result" | RunLoop

record arb_thread =
  a_id :: nat
  a_tls :: tls
  a_events :: "thread_event list"
  a_result :: "(unit, io_error) result option"

text \<open>The closure of the thread; \<open>factory\<close> is what the runtime factory gives, \<^term>\<open>None\<close> if it panics.\<close>

definition arbiter_thread ::
  "sys_handle \<Rightarrow> nat \<Rightarrow> nat \<Rightarrow> (unit, io_error) result option \<Rightarrow> thread_event list \<times> tls" where
  "arbiter_thread sys arb_id hnd factory =
     (case factory of
        None \<Rightarrow> ([], tls_new)
      | Some (Err e) \<Rightarrow> ([Announce (Err e)], tls_new)
      | Some (Ok u) \<Rightarrow>
          ([ToSystem (RegisterArbiter arb_id hnd), Announce (Ok ()), RunLoop, ToSystem (DeregisterArbiter arb_id)],
           (set_current sys tls_new)\<lparr>arb_handle := Some hnd\<rparr>))"

text \<open>The state: \<open>COUNT\<close> as the number of its increments, read at its width; the threads of this system,
  each at the position of its arbiter in the store, the system's own arbiter first.\<close>

record rt =
  r_sys :: system
  r_count :: nat
  r_threads :: "arb_thread list"

definition next_arb_id :: "rt \<Rightarrow> nat" where
  "next_arb_id y = unat (of_nat (r_count y) :: usize)"

definition with_tokio_rt :: "usize \<Rightarrow> nat \<Rightarrow> tls \<Rightarrow> rt \<times> sys_handle \<times> usize \<times> tls" where
  "with_tokio_rt system_count count t =
     (case construct system_count 0 (in_new_system 0 t) of
        (s, n, t1) \<Rightarrow>
          (\<lparr>r_sys = system_new, r_count = count,
            r_threads = [\<lparr>a_id = system_arbiter_id, a_tls = t1, a_events = [RunLoop], a_result = Some (Ok ())\<rparr>]\<rparr>, s, n, t1))"

text \<open>\<open>try_with_tokio_rt\<close> up to the wait for the ready signal, on a thread with the locals \<open>t\<close>; \<open>spawned\<close> is
  the result of spawning the thread.  It gives the arbiter.\<close>

definition try_with_tokio_rt ::
  "tls \<Rightarrow> (unit, io_error) result \<Rightarrow> (unit, io_error) result option \<Rightarrow> rt \<Rightarrow> (rt \<times> (nat, io_error) result, panic) result" where
  "try_with_tokio_rt t spawned factory y =
     (case system_current t of
        Err p \<Rightarrow> Err p
      | Ok sys \<Rightarrow>
          (let arb_id = next_arb_id y; hnd = length (r_threads y); y1 = y\<lparr>r_count := r_count y + 1\<rparr> in
           case spawned of
             Err e \<Rightarrow> Ok (y1, Err e)
           | Ok u \<Rightarrow>
               (case arbiter_thread sys arb_id hnd factory of
                  (es, t1) \<Rightarrow>
                    Ok (y1\<lparr>r_threads := r_threads y @ [\<lparr>a_id = arb_id, a_tls = t1, a_events = es, a_result = None\<rparr>]\<rparr>,
                        Ok hnd))))"

text \<open>The wait: what it gives once the thread has signalled, or has died without a signal.\<close>

definition ready_recv :: "arb_thread \<Rightarrow> (unit, io_error) result option" where
  "ready_recv th =
     (case a_result th of
        Some r \<Rightarrow> Some r
      | None \<Rightarrow> (if a_events th = [] then Some (Err (OtherKind 0)) else None))"

section \<open>Runs\<close>

text \<open>The next event of the thread of arbiter \<open>k\<close>.\<close>

definition thread_step :: "nat \<Rightarrow> thread_event \<Rightarrow> thread_event list \<Rightarrow> rt \<Rightarrow> rt" where
  "thread_step k e es y =
     (let th = (r_threads y ! k)\<lparr>a_events := es\<rparr> in
      case e of
        ToSystem c \<Rightarrow> y\<lparr>r_sys := (r_sys y)\<lparr>cmd_rx := cmd_rx (r_sys y) @ [c]\<rparr>, r_threads := (r_threads y)[k := th]\<rparr>
      | Announce r \<Rightarrow> y\<lparr>r_threads := (r_threads y)[k := th\<lparr>a_result := Some r\<rparr>]\<rparr>
      | RunLoop \<Rightarrow> y)"

definition set_arb :: "nat \<Rightarrow> arbiter \<Rightarrow> rt \<Rightarrow> rt" where
  "set_arb k a y = y\<lparr>r_sys := (r_sys y)\<lparr>arbs := (arbs (r_sys y))(k := a)\<rparr>\<rparr>"

inductive rt_step :: "usize \<Rightarrow> rt \<Rightarrow> rt \<Rightarrow> bool" for sid where
  rt_create: "system_current t = Ok sys \<Longrightarrow> sys_id sys = sid \<Longrightarrow> try_with_tokio_rt t spawned factory y = Ok (y', r) \<Longrightarrow>
     rt_step sid y y'"
| rt_other: "rt_step sid y (y\<lparr>r_count := r_count y + 1\<rparr>)"
| rt_event: "k < length (r_threads y) \<Longrightarrow> a_events (r_threads y ! k) = e # es \<Longrightarrow> e \<noteq> RunLoop \<Longrightarrow>
     rt_step sid y (thread_step k e es y)"
| rt_run: "k < length (r_threads y) \<Longrightarrow> a_events (r_threads y ! k) = RunLoop # es \<Longrightarrow>
     runner_poll closed (arbs (r_sys y) k) = (Pending, a) \<Longrightarrow> rt_step sid y (set_arb k a y)"
| rt_loop_ends: "k < length (r_threads y) \<Longrightarrow> a_events (r_threads y ! k) = RunLoop # es \<Longrightarrow>
     runner_poll closed (arbs (r_sys y) k) = (Ready u, a) \<Longrightarrow>
     rt_step sid y ((set_arb k (a\<lparr>arb_alive := False\<rparr>) y)\<lparr>r_threads := (r_threads y)[k := (r_threads y ! k)\<lparr>a_events := es\<rparr>]\<rparr>)"
| rt_spawn: "rt_step sid y (set_arb k (snd (arb_spawn task (arbs (r_sys y) k))) y)"
| rt_arb_stop: "rt_step sid y (set_arb k (snd (arb_stop (arbs (r_sys y) k))) y)"
| rt_stop: "rt_step sid y (y\<lparr>r_sys := system_stop code (r_sys y)\<rparr>)"
| rt_ctl: "rt_step sid y (y\<lparr>r_sys := snd (ctl_poll closed (r_sys y))\<rparr>)"

inductive rt_run_from :: "usize \<Rightarrow> rt \<Rightarrow> rt \<Rightarrow> bool" for sid y0 where
  rt_here: "rt_run_from sid y0 y0"
| rt_more: "rt_run_from sid y0 y \<Longrightarrow> rt_step sid y y' \<Longrightarrow> rt_run_from sid y0 y'"

section \<open>Lemmas: arbiters and the controller's table\<close>

lemma arb_send_alive [simp]: "arb_alive (snd (arb_send c a)) = arb_alive a"
  by (simp add: arb_send_def)

lemma arb_spawn_alive [simp]: "arb_alive (snd (arb_spawn t a)) = arb_alive a"
  by (simp add: arb_spawn_def)

lemma arb_stop_alive [simp]: "arb_alive (snd (arb_stop a)) = arb_alive a"
  by (simp add: arb_stop_def)

lemma arb_send_keeps_stop: "ArbStop \<in> set (arb_rx a) \<Longrightarrow> ArbStop \<in> set (arb_rx (snd (arb_send c a)))"
  by (simp add: arb_send_def)

lemma runner_poll_alive: "runner_poll closed a = (r, a') \<Longrightarrow> arb_alive a' = arb_alive a"
  by (auto simp: runner_poll_def split: prod.splits)

lemma runner_poll_stop: "ArbStop \<in> set (arb_rx a) \<Longrightarrow> fst (runner_poll closed a) = Ready ()"
  using runner_loop_stop [of "arb_rx a" closed "arb_spawned a"] by (auto simp: runner_poll_def split: prod.splits)

lemma ctl_loop_table:
  "map_of (arbiters (ctl_loop cs s)) i = Some a \<Longrightarrow> map_of (arbiters s) i = Some a \<or> RegisterArbiter i a \<in> set cs"
proof (induction cs arbitrary: s)
  case (Cons c cs)
  then have "map_of (arbiters (ctl_step c s)) i = Some a \<or> RegisterArbiter i a \<in> set cs" by simp
  then show ?case
    by (cases c) (auto simp: Let_def update_conv' delete_conv' split: if_splits)
qed simp

lemma ctl_loop_entry:
  assumes "map_of (arbiters s) i = Some a \<or> RegisterArbiter i a \<in> set cs"
    and "DeregisterArbiter i \<notin> set cs" and "\<And>b. RegisterArbiter i b \<in> set cs \<Longrightarrow> b = a"
  shows "map_of (arbiters (ctl_loop cs s)) i = Some a"
  using assms
proof (induction cs arbitrary: s)
  case (Cons c cs)
  have "map_of (arbiters (ctl_step c s)) i = Some a \<or> RegisterArbiter i a \<in> set cs"
    using Cons.prems by (cases c) (auto simp: Let_def update_conv' delete_conv')
  with Cons.IH [of "ctl_step c s"] Cons.prems(2,3) show ?case by simp
qed simp

lemma ctl_loop_alive: "arb_alive (arbs (ctl_loop cs s) k) = arb_alive (arbs s k)"
  using ctl_loop_mono [of cs s k] by auto

lemma ctl_loop_keeps_stop: "ArbStop \<in> set (arb_rx (arbs s k)) \<Longrightarrow> ArbStop \<in> set (arb_rx (arbs (ctl_loop cs s) k))"
  using ctl_loop_mono [of cs s k] by auto

text \<open>An exit command that finds an arbiter in the table stops it.\<close>

lemma ctl_loop_exit_stops:
  assumes "map_of (arbiters (ctl_loop cs1 s)) i = Some k" "arb_alive (arbs s k)"
  shows "ArbStop \<in> set (arb_rx (arbs (ctl_loop (cs1 @ SysExit c # cs2) s) k))"
proof -
  let ?s1 = "ctl_loop cs1 s"
  have "k \<in> snd ` set (arbiters ?s1)" using map_of_SomeD [OF assms(1)] by force
  moreover have "arbs (ctl_step (SysExit c) ?s1) = stop_all (arbiters ?s1) (arbs ?s1)" by (simp add: Let_def)
  ultimately have "ArbStop \<in> set (arb_rx (arbs (ctl_step (SysExit c) ?s1) k))"
    using stop_all_stops assms(2) ctl_loop_alive by simp
  from ctl_loop_keeps_stop [OF this] show ?thesis by (simp add: ctl_loop_append del: ctl_step.simps)
qed

section \<open>The invariant\<close>

text \<open>The controller knows the arbiter, or is about to.\<close>

definition known :: "system \<Rightarrow> nat \<Rightarrow> nat \<Rightarrow> bool" where
  "known s i k \<longleftrightarrow> map_of (arbiters s) i = Some k \<or> RegisterArbiter i k \<in> set (cmd_rx s)"

text \<open>What a thread still has to do, and what holds of its arbiter then.\<close>

definition thread_ok :: "system \<Rightarrow> nat \<Rightarrow> arb_thread \<Rightarrow> bool" where
  "thread_ok s k th \<longleftrightarrow>
     (let i = a_id th; es = a_events th; r = a_result th; alive = arb_alive (arbs s k);
          rest = [Announce (Ok ()), RunLoop, ToSystem (DeregisterArbiter i)] in
      es = ToSystem (RegisterArbiter i k) # rest \<and> r = None \<and> alive
      \<or> es = rest \<and> r = None \<and> alive \<and> known s i k
      \<or> (es = tl rest \<or> es = [RunLoop]) \<and> r = Some (Ok ()) \<and> alive \<and> known s i k
      \<or> (es = tl (tl rest) \<or> es = []) \<and> r = Some (Ok ()) \<and> \<not> alive
      \<or> (\<exists>e. es = [Announce (Err e)]) \<and> r = None
      \<or> es = [] \<and> (r = None \<or> (\<exists>e. r = Some (Err e))))"

definition rt_ok :: "rt \<Rightarrow> bool" where
  "rt_ok y \<longleftrightarrow> r_threads y \<noteq> [] \<and> distinct (map a_id (r_threads y)) \<and> a_id (r_threads y ! 0) = system_arbiter_id
     \<and> (\<forall>k < length (r_threads y). 0 < k \<longrightarrow> a_id (r_threads y ! k) < r_count y)
     \<and> (\<forall>k < length (r_threads y). thread_ok (r_sys y) k (r_threads y ! k))
     \<and> (\<forall>k \<ge> length (r_threads y). arb_alive (arbs (r_sys y) k))
     \<and> (\<forall>i k. known (r_sys y) i k \<longrightarrow> k < length (r_threads y) \<and> i = a_id (r_threads y ! k))
     \<and> (\<forall>i. DeregisterArbiter i \<in> set (cmd_rx (r_sys y)) \<longrightarrow>
          (\<exists>k < length (r_threads y). i = a_id (r_threads y ! k) \<and> \<not> arb_alive (arbs (r_sys y) k)))"

lemma rt_okD:
  assumes "rt_ok y"
  shows "k < length (r_threads y) \<Longrightarrow> thread_ok (r_sys y) k (r_threads y ! k)"
    "known (r_sys y) i k \<Longrightarrow> k < length (r_threads y) \<and> i = a_id (r_threads y ! k)"
    "k < length (r_threads y) \<Longrightarrow> j < length (r_threads y) \<Longrightarrow> a_id (r_threads y ! k) = a_id (r_threads y ! j) \<Longrightarrow> k = j"
    "length (r_threads y) \<le> k \<Longrightarrow> arb_alive (arbs (r_sys y) k)"
    "DeregisterArbiter i \<in> set (cmd_rx (r_sys y)) \<Longrightarrow>
       \<exists>k < length (r_threads y). i = a_id (r_threads y ! k) \<and> \<not> arb_alive (arbs (r_sys y) k)"
    "distinct (map a_id (r_threads y))"
proof -
  from assms show d: "distinct (map a_id (r_threads y))" unfolding rt_ok_def by blast
  show "k < length (r_threads y) \<Longrightarrow> thread_ok (r_sys y) k (r_threads y ! k)"
    "known (r_sys y) i k \<Longrightarrow> k < length (r_threads y) \<and> i = a_id (r_threads y ! k)"
    "length (r_threads y) \<le> k \<Longrightarrow> arb_alive (arbs (r_sys y) k)"
    "DeregisterArbiter i \<in> set (cmd_rx (r_sys y)) \<Longrightarrow>
       \<exists>k < length (r_threads y). i = a_id (r_threads y ! k) \<and> \<not> arb_alive (arbs (r_sys y) k)"
    using assms unfolding rt_ok_def by blast+
  show "k < length (r_threads y) \<Longrightarrow> j < length (r_threads y) \<Longrightarrow> a_id (r_threads y ! k) = a_id (r_threads y ! j) \<Longrightarrow> k = j"
    using nth_eq_iff_index_eq [OF d, of k j] by simp
qed

text \<open>No deregistration of a live arbiter is on its way.\<close>

lemma rt_ok_no_deregister:
  assumes "rt_ok y" "k < length (r_threads y)" "arb_alive (arbs (r_sys y) k)"
  shows "DeregisterArbiter (a_id (r_threads y ! k)) \<notin> set (cmd_rx (r_sys y))"
  using rt_okD(5) [OF assms(1)] rt_okD(3) [OF assms(1,2)] assms(3) by blast

lemma thread_ok_mono:
  assumes "thread_ok s k th" "arb_alive (arbs s' k) = arb_alive (arbs s k)"
    "known s (a_id th) k \<Longrightarrow> arb_alive (arbs s k) \<Longrightarrow> known s' (a_id th) k"
  shows "thread_ok s' k th"
  using assms unfolding thread_ok_def Let_def by blast

text \<open>A change of the system's state that keeps what the threads rely on.\<close>

lemma rt_ok_sys:
  assumes ok: "rt_ok y" and alive: "\<And>k. arb_alive (arbs s' k) = arb_alive (arbs (r_sys y) k)"
    and new: "\<And>i k. known s' i k \<Longrightarrow> known (r_sys y) i k"
    and old: "\<And>i k. known (r_sys y) i k \<Longrightarrow> arb_alive (arbs (r_sys y) k) \<Longrightarrow> known s' i k"
    and der: "\<And>i. DeregisterArbiter i \<in> set (cmd_rx s') \<Longrightarrow> DeregisterArbiter i \<in> set (cmd_rx (r_sys y))"
  shows "rt_ok (y\<lparr>r_sys := s'\<rparr>)"
proof -
  have "thread_ok s' k (r_threads y ! k)" if "k < length (r_threads y)" for k
    by (rule thread_ok_mono [OF rt_okD(1) [OF ok that] alive old])
  moreover have "\<exists>k < length (r_threads y). i = a_id (r_threads y ! k) \<and> \<not> arb_alive (arbs s' k)"
    if "DeregisterArbiter i \<in> set (cmd_rx s')" for i
    using rt_okD(5) [OF ok der [OF that]] alive by simp
  moreover have "known s' i k \<Longrightarrow> k < length (r_threads y) \<and> i = a_id (r_threads y ! k)" for i k
    using rt_okD(2) [OF ok new] .
  ultimately show ?thesis using ok alive unfolding rt_ok_def by simp
qed

text \<open>A step of one thread.\<close>

lemma rt_ok_thread:
  assumes ok: "rt_ok y" and k: "k < length (r_threads y)" and i: "a_id th = a_id (r_threads y ! k)" and th: "thread_ok s' k th"
    and alive: "\<And>j. j \<noteq> k \<Longrightarrow> arb_alive (arbs s' j) = arb_alive (arbs (r_sys y) j)"
      "arb_alive (arbs s' k) \<Longrightarrow> arb_alive (arbs (r_sys y) k)"
    and new: "\<And>i j. known s' i j \<Longrightarrow> known (r_sys y) i j \<or> j = k \<and> i = a_id th"
    and old: "\<And>i j. known (r_sys y) i j \<Longrightarrow> known s' i j"
    and der: "\<And>i. DeregisterArbiter i \<in> set (cmd_rx s') \<Longrightarrow>
        DeregisterArbiter i \<in> set (cmd_rx (r_sys y)) \<or> i = a_id th \<and> \<not> arb_alive (arbs s' k)"
  shows "rt_ok (y\<lparr>r_sys := s', r_threads := (r_threads y)[k := th]\<rparr>)"
proof -
  let ?ths = "(r_threads y)[k := th]"
  have ids: "map a_id ?ths = map a_id (r_threads y)" using k i by (simp add: map_update list_update_same_conv)
  then have id: "a_id (?ths ! j) = a_id (r_threads y ! j)" if "j < length (r_threads y)" for j
    using that k i by (simp add: nth_list_update)
  have t: "thread_ok s' j (?ths ! j)" if j: "j < length (r_threads y)" for j
  proof (cases "j = k")
    case True
    with th k show ?thesis by simp
  next
    case False
    with thread_ok_mono [OF rt_okD(1) [OF ok j] alive(1) old] show ?thesis by simp
  qed
  have d: "\<exists>j < length (r_threads y). i = a_id (?ths ! j) \<and> \<not> arb_alive (arbs s' j)"
    if di: "DeregisterArbiter i \<in> set (cmd_rx s')" for i
  proof (cases "DeregisterArbiter i \<in> set (cmd_rx (r_sys y))")
    case True
    then obtain j where j: "j < length (r_threads y)" "i = a_id (r_threads y ! j)" "\<not> arb_alive (arbs (r_sys y) j)"
      using rt_okD(5) [OF ok] by blast
    then have "\<not> arb_alive (arbs s' j)" using alive by (cases "j = k") auto
    with j id show ?thesis by (intro exI [of _ j]) simp
  next
    case False
    with der [OF di] k show ?thesis by (auto intro: exI [of _ k])
  qed
  have n: "j < length (r_threads y) \<and> i = a_id (?ths ! j)" if kn: "known s' i j" for i j
    using new [OF kn] rt_okD(2) [OF ok, of i j] id k by (auto simp: i)
  have z: "r_threads y \<noteq> []" "a_id (?ths ! 0) = system_arbiter_id"
    "\<And>j. j < length (r_threads y) \<Longrightarrow> 0 < j \<Longrightarrow> a_id (?ths ! j) < r_count y"
    using ok id k unfolding rt_ok_def by auto
  have l: "arb_alive (arbs s' j)" if "length (r_threads y) \<le> j" for j
    using rt_okD(4) [OF ok that] alive(1) [of j] that k by simp
  show ?thesis using z t d n l rt_okD(6) [OF ok] ids unfolding rt_ok_def by simp
qed

lemma ctl_rt_ok:
  assumes "rt_ok y"
  shows "rt_ok (y\<lparr>r_sys := snd (ctl_poll closed (r_sys y))\<rparr>)"
proof -
  let ?s = "r_sys y" and ?emp = "(r_sys y)\<lparr>cmd_rx := []\<rparr>"
  let ?s' = "ctl_loop (cmd_rx ?s) ?emp"
  have p: "snd (ctl_poll closed ?s) = ?s'" by (simp add: ctl_poll_def)
  have c: "cmd_rx ?s' = []" by (simp add: ctl_loop_cmd_rx)
  have 1: "arb_alive (arbs ?s' k) = arb_alive (arbs ?s k)" for k by (simp add: ctl_loop_alive)
  have 2: "known ?s i k" if "known ?s' i k" for i k
    using that ctl_loop_table [of "cmd_rx ?s" ?emp i k] by (auto simp: known_def c)
  have 3: "known ?s' i k" if k: "known ?s i k" and a: "arb_alive (arbs ?s k)" for i k
  proof -
    have i: "k < length (r_threads y)" "i = a_id (r_threads y ! k)" using rt_okD(2) [OF assms k] by simp_all
    have "b = k" if "RegisterArbiter i b \<in> set (cmd_rx ?s)" for b
    proof -
      have "known ?s i b" using that by (simp add: known_def)
      from rt_okD(2) [OF assms this] have b: "b < length (r_threads y)" "i = a_id (r_threads y ! b)" by blast+
      from b(2) i(2) have "a_id (r_threads y ! b) = a_id (r_threads y ! k)" by (metis (no_types))
      with rt_okD(3) [OF assms b(1) i(1)] show ?thesis .
    qed
    then have "map_of (arbiters ?s') i = Some k"
      using ctl_loop_entry [of ?emp i k "cmd_rx ?s"] rt_ok_no_deregister [OF assms i(1) a] i(2) k by (simp add: known_def)
    then show ?thesis by (simp add: known_def)
  qed
  have 4: "DeregisterArbiter i \<in> set (cmd_rx ?s') \<Longrightarrow> DeregisterArbiter i \<in> set (cmd_rx ?s)" for i by (simp add: c)
  from rt_ok_sys [OF assms 1 2 3 4] show ?thesis by (simp only: p)
qed

lemma set_arb_rt_ok:
  assumes "rt_ok y" "arb_alive a = arb_alive (arbs (r_sys y) k)"
  shows "rt_ok (set_arb k a y)"
  unfolding set_arb_def by (rule rt_ok_sys [OF assms(1)]) (simp_all add: assms(2) known_def)

lemma stop_rt_ok: "rt_ok y \<Longrightarrow> rt_ok (y\<lparr>r_sys := system_stop code (r_sys y)\<rparr>)"
  by (rule rt_ok_sys) (simp_all add: system_stop_def known_def)

lemma loop_ends_rt_ok:
  assumes ok: "rt_ok y" and k: "k < length (r_threads y)" and e: "a_events (r_threads y ! k) = RunLoop # es"
  shows "rt_ok ((set_arb k (a\<lparr>arb_alive := False\<rparr>) y)\<lparr>r_threads := (r_threads y)[k := (r_threads y ! k)\<lparr>a_events := es\<rparr>]\<rparr>)"
proof -
  let ?s' = "(r_sys y)\<lparr>arbs := (arbs (r_sys y))(k := a\<lparr>arb_alive := False\<rparr>)\<rparr>"
  have "arb_alive (arbs (r_sys y) k)" using rt_okD(1) [OF ok k] e by (auto simp: thread_ok_def Let_def)
  moreover have "thread_ok ?s' k ((r_threads y ! k)\<lparr>a_events := es\<rparr>)"
    using rt_okD(1) [OF ok k] e by (auto simp: thread_ok_def Let_def)
  ultimately have "rt_ok (y\<lparr>r_sys := ?s', r_threads := (r_threads y)[k := (r_threads y ! k)\<lparr>a_events := es\<rparr>]\<rparr>)"
    by (intro rt_ok_thread [OF ok k]) (auto simp: known_def)
  then show ?thesis by (simp add: set_arb_def)
qed

lemma event_rt_ok:
  assumes ok: "rt_ok y" and k: "k < length (r_threads y)" and e: "a_events (r_threads y ! k) = ev # es" "ev \<noteq> RunLoop"
  shows "rt_ok (thread_step k ev es y)"
proof -
  let ?th = "r_threads y ! k" and ?s = "r_sys y"
  note t = rt_okD(1) [OF ok k]
  show ?thesis
  proof (cases ev)
    case (ToSystem c)
    let ?s' = "?s\<lparr>cmd_rx := cmd_rx ?s @ [c]\<rparr>"
    have "c = RegisterArbiter (a_id ?th) k \<or> c = DeregisterArbiter (a_id ?th) \<and> \<not> arb_alive (arbs ?s k)"
      using t e ToSystem by (auto simp: thread_ok_def Let_def)
    moreover have "thread_ok ?s' k (?th\<lparr>a_events := es\<rparr>)"
      using t e ToSystem by (auto simp: thread_ok_def Let_def known_def)
    ultimately have "rt_ok (y\<lparr>r_sys := ?s', r_threads := (r_threads y)[k := ?th\<lparr>a_events := es\<rparr>]\<rparr>)"
      by (intro rt_ok_thread [OF ok k]) (auto simp: known_def)
    then show ?thesis by (simp add: thread_step_def ToSystem Let_def)
  next
    case (Announce r)
    have "thread_ok ?s k (?th\<lparr>a_events := es, a_result := Some r\<rparr>)"
      using t e Announce by (auto simp: thread_ok_def Let_def)
    then have "rt_ok (y\<lparr>r_sys := ?s, r_threads := (r_threads y)[k := ?th\<lparr>a_events := es, a_result := Some r\<rparr>]\<rparr>)"
      by (intro rt_ok_thread [OF ok k]) auto
    then show ?thesis by (simp add: thread_step_def Announce Let_def)
  qed (use e in simp)
qed

lemma create_rt_ok:
  assumes ok: "rt_ok y" and c: "try_with_tokio_rt t spawned factory y = Ok (y', r)" and bound: "r_count y < 2 ^ 64 - 1"
  shows "rt_ok y'"
proof -
  let ?n = "length (r_threads y)"
  have other: "rt_ok (y\<lparr>r_count := r_count y + 1\<rparr>)" using ok unfolding rt_ok_def by fastforce
  from c obtain sys where sys: "system_current t = Ok sys" by (auto simp: try_with_tokio_rt_def split: result.splits)
  show ?thesis
  proof (cases spawned)
    case (Err e)
    with c sys other show ?thesis by (simp add: try_with_tokio_rt_def Let_def)
  next
    case (Ok u)
    obtain es t1 where es: "arbiter_thread sys (next_arb_id y) ?n factory = (es, t1)" by force
    let ?th = "\<lparr>a_id = next_arb_id y, a_tls = t1, a_events = es, a_result = None\<rparr>"
    have y': "y' = y\<lparr>r_count := r_count y + 1, r_threads := r_threads y @ [?th]\<rparr>"
      using c sys Ok es by (simp add: try_with_tokio_rt_def Let_def)
    have id: "next_arb_id y = r_count y" using bound by (simp add: next_arb_id_def unsigned_of_nat take_bit_nat_eq_self)
    have alive: "arb_alive (arbs (r_sys y) ?n)" using rt_okD(4) [OF ok] by simp
    then have th: "thread_ok (r_sys y) ?n ?th"
      using es by (auto simp: arbiter_thread_def thread_ok_def Let_def split: option.splits result.splits)
    have "a_id (r_threads y ! j) \<noteq> r_count y" if "j < ?n" for j
      using ok that bound unfolding rt_ok_def by (cases "j = 0") (force simp: system_arbiter_id_def unat_usize_max)+
    then have "r_count y \<notin> a_id ` set (r_threads y)" by (metis imageE in_set_conv_nth)
    then have d: "distinct (map a_id (r_threads y @ [?th]))" using rt_okD(6) [OF ok] id by simp
    have n: "(r_threads y @ [?th]) ! j = r_threads y ! j" if "j < ?n" for j using that by (simp add: nth_append)
    have "thread_ok (r_sys y) j ((r_threads y @ [?th]) ! j)" if "j < ?n + 1" for j
      using that th rt_okD(1) [OF ok, of j] by (cases "j = ?n") (auto simp: nth_append less_Suc_eq)
    moreover have "a_id ((r_threads y @ [?th]) ! j) < r_count y + 1" if "j < ?n + 1" "0 < j" for j
      using that id ok unfolding rt_ok_def by (cases "j = ?n") (auto simp: nth_append less_Suc_eq)
    moreover have "k < ?n + 1 \<and> i = a_id ((r_threads y @ [?th]) ! k)" if "known (r_sys y) i k" for i k
      using rt_okD(2) [OF ok that] by (simp add: nth_append)
    moreover have "\<exists>k < ?n + 1. i = a_id ((r_threads y @ [?th]) ! k) \<and> \<not> arb_alive (arbs (r_sys y) k)"
      if "DeregisterArbiter i \<in> set (cmd_rx (r_sys y))" for i
      using rt_okD(5) [OF ok that] n by (metis less_Suc_eq Suc_eq_plus1)
    moreover have "a_id ((r_threads y @ [?th]) ! 0) = system_arbiter_id" "arb_alive (arbs (r_sys y) k)" if "?n + 1 \<le> k" for k
      using ok rt_okD(4) [OF ok, of k] that unfolding rt_ok_def by (simp_all add: nth_append)
    moreover have "a_id ((r_threads y @ [?th]) ! 0) = system_arbiter_id" using ok unfolding rt_ok_def by (simp add: nth_append)
    ultimately show ?thesis using d rt_okD(4) [OF ok] unfolding rt_ok_def y' by simp
  qed
qed

lemma rt_step_count: "rt_step sid y y' \<Longrightarrow> r_count y' = r_count y \<or> r_count y' = r_count y + 1"
  by (induction rule: rt_step.induct)
    (auto simp: try_with_tokio_rt_def thread_step_def set_arb_def Let_def split: result.splits prod.splits thread_event.splits)

lemma rt_step_ok:
  assumes "rt_step sid y y'" "rt_ok y" "r_count y' < 2 ^ 64"
  shows "rt_ok y'"
  using assms
proof cases
  case (rt_create t sys spawned factory r)
  have "r_count y' = r_count y + 1"
    using rt_create(3) by (auto simp: try_with_tokio_rt_def Let_def split: result.splits prod.splits)
  with create_rt_ok [OF assms(2) rt_create(3)] assms(3) show ?thesis by simp
next
  case rt_other
  with assms(2) show ?thesis unfolding rt_ok_def by fastforce
next
  case (rt_event k e es)
  with event_rt_ok [OF assms(2)] show ?thesis by simp
next
  case (rt_run k es closed a)
  with set_arb_rt_ok [OF assms(2)] runner_poll_alive show ?thesis by simp
next
  case (rt_loop_ends k es closed u a)
  with loop_ends_rt_ok [OF assms(2)] show ?thesis by simp
next
  case (rt_spawn k task)
  with set_arb_rt_ok [OF assms(2)] show ?thesis by simp
next
  case (rt_arb_stop k)
  with set_arb_rt_ok [OF assms(2)] show ?thesis by simp
next
  case (rt_stop code)
  with stop_rt_ok [OF assms(2)] show ?thesis by simp
next
  case (rt_ctl closed)
  with ctl_rt_ok [OF assms(2)] show ?thesis by simp
qed

lemma rt_run_ok:
  assumes "rt_run_from sid y0 y" "rt_ok y0" "r_count y < 2 ^ 64"
  shows "rt_ok y"
  using assms
proof (induction rule: rt_run_from.induct)
  case (rt_more y y')
  have "r_count y < 2 ^ 64" using rt_step_count [OF rt_more(2)] rt_more(5) by auto
  with rt_step_ok [OF rt_more(2)] rt_more show ?case by blast
qed

lemma with_tokio_rt_ok: "rt_ok (fst (with_tokio_rt sc c t))"
proof -
  let ?y = "fst (with_tokio_rt sc c t)"
  have "r_sys ?y = system_new" "length (r_threads ?y) = 1" "a_id (r_threads ?y ! 0) = system_arbiter_id"
    "a_events (r_threads ?y ! 0) = [RunLoop]" "a_result (r_threads ?y ! 0) = Some (Ok ())"
    by (simp_all add: with_tokio_rt_def construct_def Let_def)
  moreover have "known system_new i k \<longleftrightarrow> i = system_arbiter_id \<and> k = 0" for i k
    by (auto simp: known_def system_new_def)
  moreover have "arb_alive (arbs system_new k)" "DeregisterArbiter i \<notin> set (cmd_rx system_new)" for k i
    by (simp_all add: system_new_def arb_new_def)
  ultimately show ?thesis
    unfolding rt_ok_def thread_ok_def Let_def by (cases "r_threads ?y") auto
qed

section \<open>A stop on its way\<close>

text \<open>The arbiter has ended, or its stop is in its channel, or an exit is queued that will find it.\<close>

definition stop_coming :: "system \<Rightarrow> nat \<Rightarrow> nat \<Rightarrow> bool" where
  "stop_coming s i k \<longleftrightarrow> \<not> arb_alive (arbs s k) \<or> ArbStop \<in> set (arb_rx (arbs s k))
     \<or> (\<exists>cs1 c cs2. cmd_rx s = cs1 @ SysExit c # cs2 \<and> (map_of (arbiters s) i = Some k \<or> RegisterArbiter i k \<in> set cs1))"

lemma stop_coming_keep:
  assumes "stop_coming s i k" "arb_alive (arbs s' k) \<Longrightarrow> arb_alive (arbs s k)"
    "ArbStop \<in> set (arb_rx (arbs s k)) \<Longrightarrow> ArbStop \<in> set (arb_rx (arbs s' k)) \<or> \<not> arb_alive (arbs s' k)"
    "arbiters s' = arbiters s" "cmd_rx s' = cmd_rx s @ cs"
  shows "stop_coming s' i k"
  using assms unfolding stop_coming_def by fastforce

lemma system_stop_coming:
  assumes "known s i k"
  shows "stop_coming (system_stop code s) i k"
  using assms by (auto simp: stop_coming_def system_stop_def known_def intro!: exI [of _ "cmd_rx s"])

text \<open>A poll of the controller turns an exit that is queued into a stop of the arbiter.\<close>

lemma ctl_poll_stops:
  assumes ok: "rt_ok y" and k: "k < length (r_threads y)" and s: "stop_coming (r_sys y) (a_id (r_threads y ! k)) k"
    and p: "ctl_poll closed (r_sys y) = (r, s')"
  shows "\<not> arb_alive (arbs s' k) \<or> ArbStop \<in> set (arb_rx (arbs s' k))"
proof -
  let ?s = "r_sys y" and ?i = "a_id (r_threads y ! k)"
  define emp where "emp = (r_sys y)\<lparr>cmd_rx := []\<rparr>"
  have s': "s' = ctl_loop (cmd_rx ?s) emp" using p by (simp add: ctl_poll_def emp_def)
  have e: "arbs emp = arbs ?s" "arbiters emp = arbiters ?s" by (simp_all add: emp_def)
  have al: "arb_alive (arbs s' k) = arb_alive (arbs ?s k)" by (simp add: s' ctl_loop_alive e)
  consider "\<not> arb_alive (arbs ?s k)" | "ArbStop \<in> set (arb_rx (arbs ?s k))"
    | cs1 c cs2 where "arb_alive (arbs ?s k)" "cmd_rx ?s = cs1 @ SysExit c # cs2"
        "map_of (arbiters ?s) ?i = Some k \<or> RegisterArbiter ?i k \<in> set cs1"
    using s unfolding stop_coming_def by blast
  then show ?thesis
  proof cases
    case 1
    with al show ?thesis by simp
  next
    case 2
    then show ?thesis using ctl_loop_keeps_stop e by (simp add: s')
  next
    case 3
    have "b = k" if "RegisterArbiter ?i b \<in> set cs1" for b
    proof -
      have "known ?s ?i b" using that 3(2) by (simp add: known_def)
      from rt_okD(2) [OF ok this] rt_okD(3) [OF ok k] show ?thesis by metis
    qed
    moreover have "DeregisterArbiter ?i \<notin> set cs1" using rt_ok_no_deregister [OF ok k 3(1)] 3(2) by simp
    ultimately have "map_of (arbiters (ctl_loop cs1 emp)) ?i = Some k"
      using ctl_loop_entry [of emp ?i k cs1] 3(3) e by simp
    from ctl_loop_exit_stops [OF this] 3(1,2) e show ?thesis by (simp add: s')
  qed
qed

lemma stop_coming_step:
  assumes st: "rt_step sid y y'" and ok: "rt_ok y" and k: "k < length (r_threads y)"
    and s: "stop_coming (r_sys y) (a_id (r_threads y ! k)) k"
  shows "k < length (r_threads y') \<and> a_id (r_threads y' ! k) = a_id (r_threads y ! k)
    \<and> stop_coming (r_sys y') (a_id (r_threads y ! k)) k"
  using st
proof cases
  case (rt_create t sys spawned factory r)
  then show ?thesis using k s
    by (auto simp: try_with_tokio_rt_def Let_def nth_append split: result.splits prod.splits)
next
  case rt_other
  with k s show ?thesis by simp
next
  case (rt_event j e es)
  have "stop_coming (r_sys (thread_step j e es y)) (a_id (r_threads y ! k)) k"
    by (rule stop_coming_keep [OF s, of _ "case e of ToSystem c \<Rightarrow> [c] | _ \<Rightarrow> []"]; cases e)
      (simp_all add: thread_step_def Let_def)
  with rt_event k show ?thesis by (cases e) (auto simp: thread_step_def Let_def nth_list_update)
next
  case (rt_run j es closed a)
  have "ArbStop \<notin> set (arb_rx (arbs (r_sys y) j))" using runner_poll_stop [of "arbs (r_sys y) j" closed] rt_run(4) by auto
  moreover have "arb_alive a = arb_alive (arbs (r_sys y) j)" using runner_poll_alive [OF rt_run(4)] .
  ultimately have "stop_coming (r_sys y') (a_id (r_threads y ! k)) k"
    using rt_run(1) by (intro stop_coming_keep [OF s, of _ "[]"]) (auto simp: set_arb_def split: if_splits)
  with rt_run(1) k show ?thesis by (simp add: set_arb_def)
next
  case (rt_loop_ends j es closed u a)
  have "stop_coming (r_sys y') (a_id (r_threads y ! k)) k"
    using rt_loop_ends(1) by (intro stop_coming_keep [OF s, of _ "[]"]) (auto simp: set_arb_def split: if_splits)
  with rt_loop_ends(1) k show ?thesis by (cases "j = k") (simp_all add: set_arb_def)
next
  case (rt_spawn j task)
  have "stop_coming (r_sys y') (a_id (r_threads y ! k)) k"
    using rt_spawn by (intro stop_coming_keep [OF s, of _ "[]"]) (auto simp: set_arb_def arb_spawn_def arb_send_def split: if_splits)
  with rt_spawn k show ?thesis by (simp add: set_arb_def)
next
  case (rt_arb_stop j)
  have "stop_coming (r_sys y') (a_id (r_threads y ! k)) k"
    using rt_arb_stop by (intro stop_coming_keep [OF s, of _ "[]"]) (auto simp: set_arb_def arb_stop_def arb_send_def split: if_splits)
  with rt_arb_stop k show ?thesis by (simp add: set_arb_def)
next
  case (rt_stop code)
  have "stop_coming (r_sys y') (a_id (r_threads y ! k)) k"
    using rt_stop by (intro stop_coming_keep [OF s, of _ "[SysExit code]"]) (auto simp: system_stop_def)
  with rt_stop k show ?thesis by simp
next
  case (rt_ctl closed)
  have "stop_coming (r_sys y') (a_id (r_threads y ! k)) k"
    using ctl_poll_stops [OF ok k s, of closed "fst (ctl_poll closed (r_sys y))" "r_sys y'"] rt_ctl
    by (auto simp: stop_coming_def)
  with rt_ctl k show ?thesis by simp
qed

lemma stop_coming_run:
  assumes "rt_run_from sid y0 y" "rt_ok y0" "r_count y < 2 ^ 64" "k < length (r_threads y0)"
    and "stop_coming (r_sys y0) (a_id (r_threads y0 ! k)) k"
  shows "k < length (r_threads y) \<and> stop_coming (r_sys y) (a_id (r_threads y ! k)) k"
  using assms
proof (induction rule: rt_run_from.induct)
  case (rt_more y y')
  have c: "r_count y < 2 ^ 64" using rt_step_count [OF rt_more(2)] rt_more(5) by auto
  with rt_more have "k < length (r_threads y)" "stop_coming (r_sys y) (a_id (r_threads y ! k)) k" by blast+
  with stop_coming_step [OF rt_more(2) rt_run_ok [OF rt_more(1,4) c]] show ?case by simp
qed simp

text \<open>The runs are runs of \<open>Rt_System\<close>, with the exit codes requested.  The thread of the system holds a
  handle, so that the controller's channel is not closed and every poll of it leaves it running.\<close>

lemma ctl_poll_closed: "snd (ctl_poll closed s) = snd (ctl_poll False s)" "ctl_done (snd (ctl_poll closed s)) = ctl_done s"
  by (simp_all add: ctl_poll_def ctl_loop_cmd_rx)

lemma run_ctl_open:
  assumes "sys_run s es" "\<not> ctl_done s"
  shows "sys_run (snd (ctl_poll closed s)) es"
  using run_ctl [OF assms(1,2), of False "fst (ctl_poll False s)" "snd (ctl_poll False s)"] ctl_poll_closed(1) [of closed s]
  by (simp add: ctl_poll_def)

lemma rt_step_sys_run:
  assumes "rt_step sid y y'" "sys_run (r_sys y) es" "\<not> ctl_done (r_sys y)"
  shows "\<not> ctl_done (r_sys y') \<and> (\<exists>es'. sys_run (r_sys y') (es @ es'))"
  using assms(1)
proof cases
  case (rt_create t sys spawned factory r)
  then have "r_sys y' = r_sys y"
    by (auto simp: try_with_tokio_rt_def Let_def split: result.splits prod.splits)
  with assms(2,3) show ?thesis by (metis append_Nil2)
next
  case rt_other
  with assms(2,3) show ?thesis by (metis append_Nil2 rt.select_convs(1) rt.surjective rt.update_convs(2))
next
  case (rt_event k e evs)
  show ?thesis
  proof (cases e)
    case (ToSystem c)
    then have y': "r_sys y' = (r_sys y)\<lparr>cmd_rx := cmd_rx (r_sys y) @ [c]\<rparr>" using rt_event by (simp add: thread_step_def Let_def)
    show ?thesis
    proof (cases c)
      case (SysExit code)
      with y' run_stop [OF assms(2,3), of code] assms(3) show ?thesis by (auto simp: system_stop_def)
    next
      case (RegisterArbiter i a)
      with y' run_register [OF assms(2,3), of i a] assms(3) show ?thesis by (auto intro: exI [of _ "[]"])
    next
      case (DeregisterArbiter i)
      with y' run_deregister [OF assms(2,3), of i] assms(3) show ?thesis by (auto intro: exI [of _ "[]"])
    qed
  qed (use rt_event assms(2,3) in \<open>auto simp: thread_step_def Let_def intro: exI [of _ "[]"]\<close>)
next
  case (rt_run k evs closed a)
  with run_runner [OF assms(2) rt_run(4)] assms(3) show ?thesis by (auto simp: set_arb_def intro: exI [of _ "[]"])
next
  case (rt_loop_ends k evs closed u a)
  with run_runner [OF assms(2) rt_loop_ends(4)] assms(3) show ?thesis by (auto simp: set_arb_def intro: exI [of _ "[]"])
next
  case (rt_spawn k task)
  with Rt_System.run_spawn [OF assms(2), of k task] assms(3) show ?thesis by (auto simp: set_arb_def intro: exI [of _ "[]"])
next
  case (rt_arb_stop k)
  with run_stop_arbiter [OF assms(2), of k] assms(3) show ?thesis by (auto simp: set_arb_def intro: exI [of _ "[]"])
next
  case (rt_stop code)
  with run_stop [OF assms(2,3), of code] assms(3) show ?thesis by (auto simp: system_stop_def)
next
  case (rt_ctl closed)
  with run_ctl_open [OF assms(2,3), of closed] ctl_poll_closed(2) [of closed "r_sys y"] assms(3) show ?thesis by (auto intro: exI [of _ "[]"])
qed

lemma rt_run_sys_run:
  assumes "rt_run_from sid y0 y" "sys_run (r_sys y0) es" "\<not> ctl_done (r_sys y0)"
  shows "\<not> ctl_done (r_sys y) \<and> (\<exists>es'. sys_run (r_sys y) (es @ es'))"
  using assms
proof (induction rule: rt_run_from.induct)
  case rt_here
  then show ?case by (auto intro: exI [of _ "[]"])
next
  case (rt_more y y')
  then obtain es' where e: "sys_run (r_sys y) (es @ es')" "\<not> ctl_done (r_sys y)" by blast
  from rt_step_sys_run [OF rt_more(2) e] show ?case by auto
qed

lemma created_known:
  assumes "rt_ok y" "k < length (r_threads y)" "ready_recv (r_threads y ! k) = Some (Ok ())"
  shows "known (r_sys y) (a_id (r_threads y ! k)) k \<or> \<not> arb_alive (arbs (r_sys y) k)"
proof -
  have "a_result (r_threads y ! k) = Some (Ok ())"
    using assms(3) by (auto simp: ready_recv_def split: option.splits if_splits)
  with rt_okD(1) [OF assms(1,2)] show ?thesis unfolding thread_ok_def Let_def by auto
qed

text \<open>On the thread of an arbiter the thread locals are its system and the arbiter itself.\<close>

lemma arbiter_thread_locals:
  assumes "arbiter_thread sys i k (Some (Ok ())) = (es, t)"
  shows "system_current t = Ok sys" "is_registered t" "arbiter_current t = Ok k"
  using assms by (auto simp: arbiter_thread_def system_current_def is_registered_def arbiter_current_def set_current_def)

section \<open>Properties\<close>

text \<open>
  C20. A stop of the system reaches every arbiter.  If an arbiter's constructor has returned when a stop is
  requested, then in every interleaving that follows, of the threads of all arbiters, new ones and those
  that end, with stops, spawns and polls, the next poll of the controller leaves the arbiter ended, or
  ending in the next poll of its runner; and whoever waits for the system gets an exit code.  Ids of
  arbiters are taken from a counter that has not wrapped round.\<close>

theorem stop_reaches_arbiters:
  assumes "rt_run_from sid (fst (with_tokio_rt sc c t)) y"
    and "k < length (r_threads y)" and "ready_recv (r_threads y ! k) = Some (Ok ())"
    and "rt_run_from sid (y\<lparr>r_sys := system_stop code (r_sys y)\<rparr>) y'" and "r_count y' < 2 ^ 64"
    and "ctl_poll closed (r_sys y') = (p, s)"
  shows "(\<not> arb_alive (arbs s k) \<or> fst (runner_poll cl (arbs s k)) = Ready ())
    \<and> (\<exists>n. fst (wait_poll seen (stop_watch s)) = Ready (Ok n))"
proof -
  let ?y1 = "y\<lparr>r_sys := system_stop code (r_sys y)\<rparr>"
  have "r_count a \<le> r_count b" if "rt_run_from sid a b" for a b
    using that by induction (auto dest: rt_step_count)
  from this [OF assms(4)] have "r_count y < 2 ^ 64" using assms(5) by simp
  note ok = rt_run_ok [OF assms(1) with_tokio_rt_ok this]
  have "stop_coming (r_sys ?y1) (a_id (r_threads ?y1 ! k)) k"
    using created_known [OF ok assms(2,3)] system_stop_coming
    by (auto simp: stop_coming_def system_stop_def)
  with stop_coming_run [OF assms(4) stop_rt_ok [OF ok] assms(5)] assms(2)
  have k: "k < length (r_threads y')" "stop_coming (r_sys y') (a_id (r_threads y' ! k)) k" by simp_all
  have "\<not> arb_alive (arbs s k) \<or> ArbStop \<in> set (arb_rx (arbs s k))"
    by (rule ctl_poll_stops [OF rt_run_ok [OF assms(4) stop_rt_ok [OF ok] assms(5)] k assms(6)])
  then have stopped: "\<not> arb_alive (arbs s k) \<or> fst (runner_poll cl (arbs s k)) = Ready ()"
    using runner_poll_stop by blast
  have "r_sys (fst (with_tokio_rt sc c t)) = system_new" by (simp add: with_tokio_rt_def construct_def Let_def)
  then obtain es where e: "sys_run (r_sys y) es" "\<not> ctl_done (r_sys y)"
    using rt_run_sys_run [OF assms(1), of "[]"] run_new by (auto simp: system_new_def)
  from run_stop [OF e] have "sys_run (r_sys ?y1) (es @ [code])" by simp
  from rt_run_sys_run [OF assms(4) this] e(2) obtain es' where e': "sys_run (r_sys y') ((es @ [code]) @ es')" "\<not> ctl_done (r_sys y')"
    by (auto simp: system_stop_def)
  from ctl_poll_exit [OF sys_run_exit [OF e'(1)] e'(2) assms(6)] have "exit_inv s ((es @ [code]) @ es')" "system.cmd_rx s = []"
    by simp_all
  then have "\<exists>n. w_value (stop_watch s) = Some n"
    by (auto simp: exit_inv_def split: if_splits option.splits)
  then have "\<exists>n. fst (wait_poll seen (stop_watch s)) = Ready (Ok n)" by (auto simp: wait_poll_def)
  with stopped show ?thesis by blast
qed

text \<open>An arbiter is created on the thread of its system, and stopped with it.\<close>

theorem stop_reaches_arbiters_witness:
  "\<exists>y s. rt_run_from 7 (fst (with_tokio_rt 7 0 tls_new)) y \<and> length (r_threads y) = 2
    \<and> ready_recv (r_threads y ! 1) = Some (Ok ()) \<and> ctl_poll False (system_stop 3 (r_sys y)) = (Pending, s)
    \<and> (\<not> arb_alive (arbs s 1) \<or> fst (runner_poll False (arbs s 1)) = Ready ())"
proof -
  obtain y0 h n t where w: "with_tokio_rt 7 0 tls_new = (y0, h, n, t)" by (cases "with_tokio_rt 7 0 tls_new")
  then have t: "system_current t = Ok h" "sys_id h = 7" and y0: "r_count y0 = 0" "length (r_threads y0) = 1"
    by (auto simp: with_tokio_rt_def construct_def Let_def system_current_def set_current_def)
  let ?es = "[ToSystem (RegisterArbiter 0 1), Announce (Ok ()), RunLoop, ToSystem (DeregisterArbiter 0)]"
  obtain t1 y1 where y1: "try_with_tokio_rt t (Ok ()) (Some (Ok ())) y0 = Ok (y1, Ok 1)"
    "r_threads y1 = r_threads y0 @ [\<lparr>a_id = 0, a_tls = t1, a_events = ?es, a_result = None\<rparr>]" "r_count y1 = 1"
    using t y0 by (auto simp: try_with_tokio_rt_def arbiter_thread_def next_arb_id_def Let_def)
  have n: "r_threads y1 ! 1 = \<lparr>a_id = 0, a_tls = t1, a_events = ?es, a_result = None\<rparr>" "length (r_threads y1) = 2"
    using y1(2) y0(2) by (simp_all add: nth_append)
  let ?y2 = "thread_step 1 (ToSystem (RegisterArbiter 0 1)) (tl ?es) y1"
  let ?y3 = "thread_step 1 (Announce (Ok ())) (tl (tl ?es)) ?y2"
  note n' = n [unfolded One_nat_def]
  have r1: "rt_run_from 7 y0 y1" by (rule rt_more [OF rt_here rt_create [OF t(1,2) y1(1)]])
  have r2: "rt_run_from 7 y0 ?y2" by (rule rt_more [OF r1 rt_event]) (simp_all add: n')
  have r3: "rt_run_from 7 y0 ?y3" by (rule rt_more [OF r2 rt_event]) (simp_all add: n' thread_step_def Let_def)
  have th: "ready_recv (r_threads ?y3 ! 1) = Some (Ok ())" "length (r_threads ?y3) = 2" "r_count ?y3 = 1"
    using n' y1(3) by (simp_all add: thread_step_def ready_recv_def Let_def)
  obtain s where s: "ctl_poll False (system_stop 3 (r_sys ?y3)) = (Pending, s)" by (simp add: ctl_poll_def)
  have "rt_run_from 7 (fst (with_tokio_rt 7 0 tls_new)) ?y3" using r3 w by simp
  from stop_reaches_arbiters [OF this _ th(1) rt_here, of 3 False Pending s False 0] th s
  have "\<not> arb_alive (arbs s 1) \<or> fst (runner_poll False (arbs s 1)) = Ready ()" by simp
  with r3 w th s show ?thesis by (intro exI [of _ ?y3] exI [of _ s]) simp
qed

end
