(* ===== verification/Rt_Runner.thy ===== *)
theory Rt_Runner
  imports Rt_Threads
begin

text \<open>
  What \<open>actix-rt\<close> offers around a system: \<open>runtime.rs\<close>, the runner of a system with the futures that
  resolve when it stops (\<open>SystemRunner\<close> and \<open>SystemStop\<close> of \<open>system.rs\<close>), and the constructors and the
  handle of an arbiter (\<open>arbiter.rs\<close>).  A Tokio runtime is a parameter.  A future that waits for the stop
  is the version of the watch channel that it has seen, and what it gave once it is done.
\<close>

section \<open>Runtimes\<close>

datatype 'r runtime_inner = Owned 'r | Shared 'r | Static 'r

record 'r runtime =
  rt_local :: "nat list"
  rt_inner :: "'r runtime_inner"

definition runtime_from :: "'r runtime_inner \<Rightarrow> 'r runtime" where
  "runtime_from r = \<lparr>rt_local = [], rt_inner = r\<rparr>"

text \<open>\<open>built\<close> is what the Tokio builder gives.\<close>

definition runtime_new :: "('r, io_error) result \<Rightarrow> ('r runtime, io_error) result" where
  "runtime_new built = map_result (\<lambda>r. runtime_from (Owned r)) built"

fun tokio_runtime_ref :: "'r runtime \<Rightarrow> 'r" where
  "tokio_runtime_ref \<lparr>rt_local = l, rt_inner = Owned r\<rparr> = r"
| "tokio_runtime_ref \<lparr>rt_local = l, rt_inner = Shared r\<rparr> = r"
| "tokio_runtime_ref \<lparr>rt_local = l, rt_inner = Static r\<rparr> = r"

text \<open>Tasks run on the local set, never on the Tokio runtime itself.\<close>

definition runtime_spawn :: "nat \<Rightarrow> 'r runtime \<Rightarrow> 'r runtime" where
  "runtime_spawn task rt = rt\<lparr>rt_local := rt_local rt @ [task]\<rparr>"

section \<open>Futures that wait for the stop\<close>

record stop_fut =
  sf_seen :: nat
  sf_out :: "(int, unit) result option"

definition stop_fut_new :: "nat \<Rightarrow> stop_fut" where
  "stop_fut_new seen = \<lparr>sf_seen = seen, sf_out = None\<rparr>"

text \<open>Polling an async function that has returned panics.\<close>

definition stop_fut_poll :: "watch \<Rightarrow> stop_fut \<Rightarrow> ((int, unit) result poll, panic) result \<times> stop_fut" where
  "stop_fut_poll w f =
     (case sf_out f of
        Some r \<Rightarrow> (Err ExplicitPanic, f)
      | None \<Rightarrow>
          (case wait_poll (sf_seen f) w of
             (Ready r, seen) \<Rightarrow> (Ok (Ready r), \<lparr>sf_seen = seen, sf_out = Some r\<rparr>)
           | (Pending, seen) \<Rightarrow> (Ok Pending, \<lparr>sf_seen = seen, sf_out = None\<rparr>)))"

section \<open>Runners\<close>

text \<open>A runner has the runtime and the version that its receiver has seen.\<close>

record 'r runner =
  rn_rt :: "'r runtime"
  rn_seen :: nat

definition runner_new :: "'r runtime_inner \<Rightarrow> nat \<Rightarrow> 'r runner" where
  "runner_new r ctrl = \<lparr>rn_rt = runtime_spawn ctrl (runtime_from r), rn_seen = 0\<rparr>"

text \<open>\<open>System::new\<close>: the default runtime must be there.\<close>

definition system_runner :: "('r, io_error) result \<Rightarrow> nat \<Rightarrow> ('r runner, panic) result" where
  "system_runner built ctrl =
     (case built of Err e \<Rightarrow> Err ExplicitPanic | Ok r \<Rightarrow> Ok (runner_new (Owned r) ctrl))"

definition stop_future :: "'r runner \<Rightarrow> stop_fut" where
  "stop_future r = stop_fut_new (rn_seen r)"

definition into_parts :: "'r runner \<Rightarrow> 'r runtime \<times> stop_fut" where
  "into_parts r = (rn_rt r, stop_fut_new (rn_seen r))"

text \<open>\<open>block_on\<close> polls its future whenever it is woken; the list has the states of the watch at these
  polls.  The result is \<^term>\<open>None\<close> while the future has not completed.\<close>

fun block_on_stop :: "watch list \<Rightarrow> stop_fut \<Rightarrow> ((int, unit) result, panic) result option" where
  "block_on_stop [] f = None"
| "block_on_stop (w # ws) f =
     (case stop_fut_poll w f of
        (Err p, g) \<Rightarrow> Some (Err p)
      | (Ok (Ready r), g) \<Rightarrow> Some (Ok r)
      | (Ok Pending, g) \<Rightarrow> block_on_stop ws g)"

definition run_with_code :: "watch list \<Rightarrow> 'r runner \<Rightarrow> ((int, unit) result, panic) result option" where
  "run_with_code ws r = block_on_stop ws (stop_fut_new (rn_seen r))"

definition runner_run :: "watch list \<Rightarrow> 'r runner \<Rightarrow> ((unit, io_error) result, panic) result option" where
  "runner_run ws r = map_option (map_result run_result) (run_with_code ws r)"

section \<open>Arbiters\<close>

text \<open>The constructors that expect an arbiter, from what the thread has signalled.\<close>

definition arbiter_expect :: "nat \<Rightarrow> (unit, io_error) result \<Rightarrow> (nat, panic) result" where
  "arbiter_expect k ready = (case ready of Err e \<Rightarrow> Err ExplicitPanic | Ok u \<Rightarrow> Ok k)"

definition arbiter_handle_alive :: "arbiter \<Rightarrow> bool" where
  "arbiter_handle_alive a = arb_alive a"

text \<open>\<open>join\<close> returns when the thread has nothing left to do; it has panicked if it never signalled.\<close>

definition arbiter_join :: "arb_thread \<Rightarrow> (unit, panic) result option" where
  "arbiter_join th =
     (if a_events th = [] then Some (if a_result th = None then Err ExplicitPanic else Ok ()) else None)"

section \<open>Runs\<close>

text \<open>A system, the futures that wait for its stop, each with the states of the watch at its polls, and
  whether its runtime lives: dropping it drops the controller with the sender of the watch.\<close>

record stop_sys =
  st_sys :: system
  st_exits :: "int list"
  st_futs :: "(watch list \<times> stop_fut) list"
  st_up :: bool

definition stop_start :: stop_sys where
  "stop_start = \<lparr>st_sys = system_new, st_exits = [], st_futs = [], st_up = True\<rparr>"

definition drop_runtime :: "stop_sys \<Rightarrow> stop_sys" where
  "drop_runtime x = x\<lparr>st_sys := (st_sys x)\<lparr>stop_watch := (stop_watch (st_sys x))\<lparr>w_open := False\<rparr>\<rparr>, st_up := False\<rparr>"

inductive stop_step :: "'r runner \<Rightarrow> stop_sys \<Rightarrow> stop_sys \<Rightarrow> bool" for r where
  sp_sys: "st_up x \<Longrightarrow> sys_step (st_sys x) (st_exits x) s es \<Longrightarrow> stop_step r x (x\<lparr>st_sys := s, st_exits := es\<rparr>)"
| sp_future: "stop_step r x (x\<lparr>st_futs := st_futs x @ [([], stop_future r)]\<rparr>)"
| sp_poll: "k < length (st_futs x) \<Longrightarrow> st_futs x ! k = (ws, f) \<Longrightarrow> sf_out f = None \<Longrightarrow>
     stop_fut_poll (stop_watch (st_sys x)) f = (p, g) \<Longrightarrow>
     stop_step r x (x\<lparr>st_futs := (st_futs x)[k := (ws @ [stop_watch (st_sys x)], g)]\<rparr>)"
| sp_drop: "stop_step r x (drop_runtime x)"

section \<open>The invariant\<close>

lemma stop_fut_poll_cases:
  assumes "sf_out f = None" "stop_fut_poll w f = (p, g)"
  shows "(p = Ok Pending \<and> sf_out g = None \<and> w_value w = None \<and> w_open w)
    \<or> (\<exists>c. p = Ok (Ready (Ok c)) \<and> sf_out g = Some (Ok c) \<and> w_value w = Some c)
    \<or> (p = Ok (Ready (Err ())) \<and> sf_out g = Some (Err ()) \<and> w_value w = None \<and> \<not> w_open w)"
  using assms by (auto simp: stop_fut_poll_def wait_poll_def wait_again_def split: option.splits if_splits)

text \<open>The polls of one future so far.\<close>

definition polled :: "watch list \<Rightarrow> stop_fut \<Rightarrow> stop_fut" where
  "polled ws f = fold (\<lambda>w g. snd (stop_fut_poll w g)) ws f"

lemma block_on_append:
  "block_on_stop ws f = None \<Longrightarrow> block_on_stop (ws @ vs) f = block_on_stop vs (polled ws f)"
proof (induction ws arbitrary: f)
  case (Cons w ws)
  then show ?case by (cases "stop_fut_poll w f") (auto simp: polled_def split: result.splits poll.splits)
qed (simp add: polled_def)

text \<open>The stop can no longer come: the runtime is gone, or the controller has completed without a request.\<close>

definition unstopped :: "stop_sys \<Rightarrow> bool" where
  "unstopped x \<longleftrightarrow> \<not> st_up x \<or> ctl_done (st_sys x) \<and> st_exits x = []"

definition fut_inv :: "nat \<Rightarrow> stop_sys \<Rightarrow> watch list \<times> stop_fut \<Rightarrow> bool" where
  "fut_inv seen x wsf \<longleftrightarrow> (case wsf of (ws, f) \<Rightarrow>
     f = polled ws (stop_fut_new seen) \<and> block_on_stop ws (stop_fut_new seen) = map_option Ok (sf_out f)
     \<and> (case sf_out f of
          None \<Rightarrow> True
        | Some (Ok c) \<Rightarrow> w_value (stop_watch (st_sys x)) = Some c
        | Some (Err u) \<Rightarrow> unstopped x \<and> w_value (stop_watch (st_sys x)) = None))"

definition stop_inv :: "nat \<Rightarrow> stop_sys \<Rightarrow> bool" where
  "stop_inv seen x \<longleftrightarrow>
     (\<forall>c. w_value (stop_watch (st_sys x)) = Some c \<longrightarrow> (\<exists>rest. st_exits x = c # rest))
     \<and> (if st_up x then exit_inv (st_sys x) (st_exits x) else \<not> w_open (stop_watch (st_sys x)))
     \<and> (\<forall>wsf \<in> set (st_futs x). fut_inv seen x wsf)"

lemma sys_step_keeps_code:
  "sys_step s es s' es' \<Longrightarrow> exit_inv s es \<Longrightarrow> w_value (stop_watch s) = Some c \<Longrightarrow> w_value (stop_watch s') = Some c"
proof (induction rule: sys_step.induct)
  case (ss_ctl s closed r s1 es)
  then show ?case
    using ctl_loop_exit [of "cmd_rx s" "s\<lparr>cmd_rx := []\<rparr>"]
    by (cases "stop_tx s") (auto simp: exit_inv_def ctl_poll_def ctl_end_def)
qed (simp_all add: system_stop_def)

text \<open>A controller that has completed without a request is where it stays: there is no handle left.\<close>

lemma sys_step_done:
  "sys_step s es s' es' \<Longrightarrow> ctl_done s \<Longrightarrow> ctl_done s' \<and> es' = es \<and> stop_watch s' = stop_watch s"
  by (induction rule: sys_step.induct) simp_all

lemma fut_inv_keep:
  "fut_inv seen x wsf \<Longrightarrow> (\<And>c. w_value (stop_watch (st_sys x)) = Some c \<Longrightarrow> w_value (stop_watch (st_sys y)) = Some c)
     \<Longrightarrow> (unstopped x \<Longrightarrow> unstopped y \<and> w_value (stop_watch (st_sys y)) = w_value (stop_watch (st_sys x)))
     \<Longrightarrow> fut_inv seen y wsf"
  by (auto simp: fut_inv_def split: prod.splits option.splits result.splits)

lemma exit_inv_code: "exit_inv s es \<Longrightarrow> w_value (stop_watch s) = Some c \<Longrightarrow> \<exists>rest. es = c # rest"
  by (auto simp: exit_inv_def split: if_splits)

lemma exit_inv_open: "exit_inv s es \<Longrightarrow> w_value (stop_watch s) = None \<Longrightarrow> w_open (stop_watch s) \<or> ctl_done s \<and> es = []"
  by (auto simp: exit_inv_def split: if_splits)

text \<open>A poll of one of the futures.\<close>

lemma poll_fut_inv:
  assumes inv: "stop_inv seen x" "fut_inv seen x (ws, f)" and f: "sf_out f = None"
    and g: "stop_fut_poll (stop_watch (st_sys x)) f = (p, g)"
  shows "fut_inv seen x (ws @ [stop_watch (st_sys x)], g)"
proof -
  let ?w = "stop_watch (st_sys x)"
  have h: "f = polled ws (stop_fut_new seen)" "block_on_stop ws (stop_fut_new seen) = None"
    using inv(2) f by (auto simp: fut_inv_def)
  have g': "g = polled (ws @ [?w]) (stop_fut_new seen)"
    unfolding polled_def fold_append comp_def using h(1) g by (simp add: polled_def)
  have b: "block_on_stop (ws @ [?w]) (stop_fut_new seen) = block_on_stop [?w] f"
    using block_on_append [OF h(2)] h(1) by simp
  have "unstopped x" if "w_value ?w = None" "\<not> w_open ?w"
    using that inv(1) exit_inv_open [of "st_sys x" "st_exits x"] by (auto simp: stop_inv_def unstopped_def)
  with stop_fut_poll_cases [OF f g] g g' b show ?thesis by (auto simp: fut_inv_def)
qed

lemma runner_step_inv:
  assumes "stop_step r x y" "stop_inv (rn_seen r) x"
  shows "stop_inv (rn_seen r) y"
  using assms
proof cases
  case (sp_sys s es)
  have e: "exit_inv (st_sys x) (st_exits x)" using assms(2) sp_sys(2) by (simp add: stop_inv_def)
  note e' = sys_step_exit [OF sp_sys(3) e]
  have "fut_inv (rn_seen r) y wsf" if "wsf \<in> set (st_futs x)" for wsf
    by (rule fut_inv_keep [of _ x]) (use that assms(2) sys_step_keeps_code [OF sp_sys(3) e] sys_step_done [OF sp_sys(3)] sp_sys in
        \<open>auto simp: stop_inv_def unstopped_def\<close>)
  with e' exit_inv_code [OF e'] show ?thesis using sp_sys by (auto simp: stop_inv_def)
next
  case sp_future
  have "fut_inv (rn_seen r) y ([], stop_future r)"
    by (simp add: fut_inv_def stop_future_def polled_def stop_fut_new_def)
  moreover have "fut_inv (rn_seen r) y wsf" if "wsf \<in> set (st_futs x)" for wsf
    by (rule fut_inv_keep [of _ x]) (use that assms(2) sp_future in \<open>auto simp: stop_inv_def unstopped_def\<close>)
  ultimately show ?thesis using assms(2) sp_future by (auto simp: stop_inv_def)
next
  case (sp_poll k ws f p g)
  have keep: "fut_inv (rn_seen r) y wsf" if "fut_inv (rn_seen r) x wsf" for wsf
    by (rule fut_inv_keep [OF that]) (simp_all add: sp_poll(1) unstopped_def)
  have "(ws, f) \<in> set (st_futs x)" using sp_poll(2,3) nth_mem [of k "st_futs x"] by simp
  with assms(2) have "fut_inv (rn_seen r) x (ws, f)" by (auto simp: stop_inv_def)
  from keep [OF poll_fut_inv [OF assms(2) this sp_poll(4,5)]] keep assms(2) show ?thesis
    unfolding stop_inv_def sp_poll(1) by (auto dest!: set_update_subset_insert [THEN subsetD])
next
  case sp_drop
  have "fut_inv (rn_seen r) y wsf" if "wsf \<in> set (st_futs x)" for wsf
    by (rule fut_inv_keep [of _ x]) (use that assms(2) sp_drop in \<open>auto simp: stop_inv_def drop_runtime_def unstopped_def\<close>)
  with assms(2) sp_drop show ?thesis by (auto simp: stop_inv_def drop_runtime_def)
qed

lemma runner_inv: "(stop_step r)\<^sup>*\<^sup>* stop_start x \<Longrightarrow> stop_inv (rn_seen r) x"
proof (induction rule: rtranclp_induct)
  case base
  show ?case by (simp add: stop_inv_def stop_start_def exit_inv_def system_new_def)
qed (rule runner_step_inv)

section \<open>Properties\<close>

text \<open>
  C37. Waiting for the stop of a system, in every interleaving of stop requests, arbiters, the controller
  and the polls of any number of waiting futures, with the runtime dropped at any time: what
  \<open>run_with_code\<close> returns over the same polls is what a stop future gave; a code is the first one that
  was requested, so that \<open>run\<close> succeeds exactly if that is 0; the error that the channel is closed is
  given only after the runtime was dropped, or after the controller has completed without a request
  because no handle of the system was left.  A future that still waits can be polled without a panic; it is
  ready with the first code once the controller has taken a request, and ready once the runtime is gone
  or the controller has completed.
\<close>

theorem stop_futures_agree:
  assumes "(stop_step r)\<^sup>*\<^sup>* stop_start x" and "(ws, f) \<in> set (st_futs x)"
  shows "run_with_code ws r = map_option Ok (sf_out f)
    \<and> (runner_run ws r = Some (Ok (Ok ())) \<longleftrightarrow> sf_out f = Some (Ok 0))
    \<and> (\<forall>c. sf_out f = Some (Ok c) \<longrightarrow> (\<exists>rest. st_exits x = c # rest))
    \<and> (sf_out f = Some (Err ()) \<longrightarrow> \<not> st_up x \<or> ctl_done (st_sys x) \<and> st_exits x = [])
    \<and> (sf_out f = None \<longrightarrow> (\<exists>p g. stop_fut_poll (stop_watch (st_sys x)) f = (Ok p, g)
         \<and> (st_up x \<and> st_exits x \<noteq> [] \<and> exit_codes (system.cmd_rx (st_sys x)) = [] \<longrightarrow> p = Ready (Ok (hd (st_exits x))))
         \<and> (\<not> st_up x \<or> ctl_done (st_sys x) \<longrightarrow> p \<noteq> Pending)
         \<and> (p = Ready (Err ()) \<longrightarrow> \<not> st_up x \<or> ctl_done (st_sys x) \<and> st_exits x = [])))"
proof -
  let ?w = "stop_watch (st_sys x)"
  have inv: "stop_inv (rn_seen r) x" by (rule runner_inv [OF assms(1)])
  with assms(2) have fi: "fut_inv (rn_seen r) x (ws, f)" by (auto simp: stop_inv_def)
  have code: "run_with_code ws r = map_option Ok (sf_out f)" using fi by (simp add: fut_inv_def run_with_code_def)
  then have run: "runner_run ws r = Some (Ok (Ok ())) \<longleftrightarrow> sf_out f = Some (Ok 0)"
    by (cases "sf_out f") (auto simp: runner_run_def run_result_def split: result.splits)
  have first: "\<forall>c. sf_out f = Some (Ok c) \<longrightarrow> (\<exists>rest. st_exits x = c # rest)"
    and err: "sf_out f = Some (Err ()) \<longrightarrow> \<not> st_up x \<or> ctl_done (st_sys x) \<and> st_exits x = []"
    using fi inv by (auto simp: fut_inv_def stop_inv_def unstopped_def)
  have taken: "w_value ?w = Some (hd (st_exits x))"
    if "st_up x" "st_exits x \<noteq> []" "exit_codes (system.cmd_rx (st_sys x)) = []"
    using that inv by (auto simp: stop_inv_def exit_inv_def split: if_splits option.splits)
  have gone: "\<not> st_up x \<or> ctl_done (st_sys x) \<and> st_exits x = []" if "w_value ?w = None" "\<not> w_open ?w"
    using that inv exit_inv_open [of "st_sys x" "st_exits x"] by (auto simp: stop_inv_def)
  have closed: "\<not> w_open ?w" if "\<not> st_up x \<or> ctl_done (st_sys x)"
    using that inv by (auto simp: stop_inv_def exit_inv_def split: if_splits)
  have "sf_out f = None \<longrightarrow> (\<exists>p g. stop_fut_poll ?w f = (Ok p, g)
         \<and> (st_up x \<and> st_exits x \<noteq> [] \<and> exit_codes (system.cmd_rx (st_sys x)) = [] \<longrightarrow> p = Ready (Ok (hd (st_exits x))))
         \<and> (\<not> st_up x \<or> ctl_done (st_sys x) \<longrightarrow> p \<noteq> Pending)
         \<and> (p = Ready (Err ()) \<longrightarrow> \<not> st_up x \<or> ctl_done (st_sys x) \<and> st_exits x = []))"
  proof
    assume n: "sf_out f = None"
    obtain q g where q: "stop_fut_poll ?w f = (q, g)" by force
    from stop_fut_poll_cases [OF n q] consider
        "q = Ok Pending" "w_value ?w = None" "w_open ?w"
      | c where "q = Ok (Ready (Ok c))" "w_value ?w = Some c"
      | "q = Ok (Ready (Err ()))" "w_value ?w = None" "\<not> w_open ?w" by auto
    then show "\<exists>p g. stop_fut_poll ?w f = (Ok p, g)
         \<and> (st_up x \<and> st_exits x \<noteq> [] \<and> exit_codes (system.cmd_rx (st_sys x)) = [] \<longrightarrow> p = Ready (Ok (hd (st_exits x))))
         \<and> (\<not> st_up x \<or> ctl_done (st_sys x) \<longrightarrow> p \<noteq> Pending)
         \<and> (p = Ready (Err ()) \<longrightarrow> \<not> st_up x \<or> ctl_done (st_sys x) \<and> st_exits x = [])"
    proof cases
      case 1
      with q taken closed show ?thesis by (intro exI [of _ Pending] exI [of _ g]) auto
    next
      case (2 c)
      with q taken show ?thesis by (intro exI [of _ "Ready (Ok c)"] exI [of _ g]) auto
    next
      case 3
      with q taken gone show ?thesis by (intro exI [of _ "Ready (Err ())"] exI [of _ g]) auto
    qed
  qed
  with code run first err show ?thesis by blast
qed

text \<open>A system that is stopped with code 3, then with 0, and a future that is polled before and after.\<close>

lemma runner_run_sample:
  "\<exists>x w1 w2. (stop_step (runner_new (Owned ()) 0))\<^sup>*\<^sup>* stop_start x
     \<and> st_futs x = [([w1, w2], \<lparr>sf_seen = 0, sf_out = Some (Ok 3)\<rparr>)] \<and> st_exits x = [3, 0]"
proof -
  let ?r = "runner_new (Owned ()) 0"
  let ?s1 = "system_stop 0 (system_stop 3 system_new)"
  let ?s2 = "snd (ctl_poll False ?s1)"
  let ?x = "\<lambda>s es fs. \<lparr>st_sys = s, st_exits = es, st_futs = fs, st_up = True\<rparr>"
  let ?f = "\<lparr>sf_seen = 0, sf_out = None\<rparr>"
  let ?w1 = "stop_watch system_new" and ?w2 = "stop_watch ?s2"
  have 1: "stop_step ?r stop_start (?x system_new [] [([], ?f)])"
    using sp_future [of ?r stop_start] by (simp add: stop_start_def stop_future_def stop_fut_new_def runner_new_def)
  have "stop_fut_poll ?w1 ?f = (Ok Pending, ?f)"
    by (simp add: stop_fut_poll_def wait_poll_def system_new_def)
  then have 2: "stop_step ?r (?x system_new [] [([], ?f)]) (?x system_new [] [([?w1], ?f)])"
    using sp_poll [of 0 "?x system_new [] [([], ?f)]" "[]" ?f "Ok Pending" ?f ?r] by simp
  have 3: "stop_step ?r (?x system_new [] [([?w1], ?f)]) (?x (system_stop 3 system_new) [3] [([?w1], ?f)])"
    using sp_sys [of "?x system_new [] [([?w1], ?f)]" _ _ ?r, OF _ ss_stop [of _ _ 3]] by (simp add: system_new_def)
  have 4: "stop_step ?r (?x (system_stop 3 system_new) [3] [([?w1], ?f)]) (?x ?s1 [3, 0] [([?w1], ?f)])"
    using sp_sys [of "?x (system_stop 3 system_new) [3] [([?w1], ?f)]" _ _ ?r, OF _ ss_stop [of _ _ 0]] by (simp add: system_new_def system_stop_def)
  have 5: "stop_step ?r (?x ?s1 [3, 0] [([?w1], ?f)]) (?x ?s2 [3, 0] [([?w1], ?f)])"
    using sp_sys [of "?x ?s1 [3, 0] [([?w1], ?f)]" _ _ ?r, OF _ ss_ctl [of _ False Pending ?s2]]
    by (simp add: system_new_def system_stop_def ctl_poll_def)
  have v: "w_value ?w2 = Some 3" by (simp add: ctl_poll_def system_new_def system_stop_def Let_def watch_send_def)
  then have "stop_fut_poll ?w2 ?f = (Ok (Ready (Ok 3)), \<lparr>sf_seen = 0, sf_out = Some (Ok 3)\<rparr>)"
    by (simp add: stop_fut_poll_def wait_poll_def)
  then have 6: "stop_step ?r (?x ?s2 [3, 0] [([?w1], ?f)]) (?x ?s2 [3, 0] [([?w1, ?w2], \<lparr>sf_seen = 0, sf_out = Some (Ok 3)\<rparr>)])"
    using sp_poll [of 0 "?x ?s2 [3, 0] [([?w1], ?f)]" "[?w1]" ?f _ _ ?r] by simp
  let ?last = "?x ?s2 [3, 0] [([?w1, ?w2], \<lparr>sf_seen = 0, sf_out = Some (Ok 3)\<rparr>)]"
  have "(stop_step ?r)\<^sup>*\<^sup>* stop_start ?last"
    by (rule rtranclp_trans [OF rtranclp_trans [OF rtranclp_trans [OF r_into_rtranclp r_into_rtranclp]
          rtranclp_trans [OF r_into_rtranclp r_into_rtranclp]] rtranclp_trans [OF r_into_rtranclp r_into_rtranclp]])
      (rule 1 2 3 4 5 6)+
  moreover have "st_futs ?last = [([?w1, ?w2], \<lparr>sf_seen = 0, sf_out = Some (Ok 3)\<rparr>)]" "st_exits ?last = [3, 0]"
    by (rule stop_sys.select_convs)+
  ultimately show ?thesis by blast
qed

text \<open>Without a handle the first poll of the controller is its last, and a future that waits gets an error
  while the runtime lives: a thread that makes a second system loses its handle of the first.\<close>

lemma unheld_system_errs:
  "\<exists>s. sys_run s [] \<and> ctl_done s \<and> fst (stop_fut_poll (stop_watch s) (stop_fut_new 0)) = Ok (Ready (Err ()))"
proof -
  obtain s1 where s1: "ctl_poll True system_new = (Ready (), s1)" by (simp add: ctl_poll_def)
  then have "sys_run (ctl_end s1) []" using run_ctl [OF run_new _ s1] by (simp add: system_new_def)
  moreover have "fst (stop_fut_poll (stop_watch (ctl_end s1)) (stop_fut_new 0)) = Ok (Ready (Err ()))"
    using s1 by (auto simp: ctl_end_def ctl_poll_def system_new_def stop_fut_poll_def stop_fut_new_def wait_poll_def)
  ultimately show ?thesis by (intro exI [of _ "ctl_end s1"]) (simp add: ctl_end_def)
qed

theorem stop_futures_agree_witness:
  "\<exists>w1 w2. run_with_code [w1, w2] (runner_new (Owned ()) 0) = Some (Ok (Ok 3))
     \<and> runner_run [w1, w2] (runner_new (Owned ()) 0) \<noteq> Some (Ok (Ok ()))"
proof -
  obtain x w1 w2 where x: "(stop_step (runner_new (Owned ()) 0))\<^sup>*\<^sup>* stop_start x"
    "st_futs x = [([w1, w2], \<lparr>sf_seen = 0, sf_out = Some (Ok 3)\<rparr>)]"
    using runner_run_sample by blast
  from stop_futures_agree [OF x(1), of "[w1, w2]" "\<lparr>sf_seen = 0, sf_out = Some (Ok 3)\<rparr>"] x(2)
  show ?thesis by (intro exI [of _ w1] exI [of _ w2]) simp
qed

end
