(* ===== verification/Pipeline.thy ===== *)
theory Pipeline
  imports Service_Factory
begin

text \<open>
  \<open>actix-service/src/pipeline.rs\<close>: a pipeline holds one service, or one factory, and its methods put a
  combinator around it; it is a service or a factory by what it holds.
\<close>

section \<open>Pipelines of services\<close>

record ('s, 'q, 'r, 'e, 'f) pipeline =
  pl_service :: "('s, 'q, 'r, 'e, 'f) service"

definition pipeline_new :: "('s, 'q, 'r, 'e, 'f) service \<Rightarrow> ('s, 'q, 'r, 'e, 'f) pipeline" where
  "pipeline_new svc = \<lparr>pl_service = svc\<rparr>"

definition pl_and_then ::
  "('s, 'q, 'r, 'e, 'f) pipeline \<Rightarrow> ('s, 'r, 'r2, 'e, 'g) service \<Rightarrow> ('s, 'q, 'r2, 'e, ('f, 'g) chain_fut) pipeline" where
  "pl_and_then p svc = \<lparr>pl_service = and_then (pl_service p) svc\<rparr>"

definition pl_then ::
  "('s, 'q, 'r, 'e, 'f) pipeline \<Rightarrow> ('s, ('r, 'e) result, 'r2, 'e, 'g) service \<Rightarrow>
   ('s, 'q, 'r2, 'e, ('f, 'g) chain_fut) pipeline" where
  "pl_then p svc = \<lparr>pl_service = then_service (pl_service p) svc\<rparr>"

definition pl_map :: "('r \<Rightarrow> 'r2) \<Rightarrow> ('s, 'q, 'r, 'e, 'f) pipeline \<Rightarrow> ('s, 'q, 'r2, 'e, 'f) pipeline" where
  "pl_map h p = \<lparr>pl_service = map_service h (pl_service p)\<rparr>"

definition pl_map_err :: "('e \<Rightarrow> 'e2) \<Rightarrow> ('s, 'q, 'r, 'e, 'f) pipeline \<Rightarrow> ('s, 'q, 'r, 'e2, 'f) pipeline" where
  "pl_map_err h p = \<lparr>pl_service = map_err_service h (pl_service p)\<rparr>"

text \<open>\<open>Service for Pipeline\<close>.\<close>

definition pipeline_service :: "('s, 'q, 'r, 'e, 'f) pipeline \<Rightarrow> ('s, 'q, 'r, 'e, 'f) service" where
  "pipeline_service p =
     \<lparr>ready_fn = (\<lambda>s. ready_fn (pl_service p) s), call_fn = (\<lambda>q s. call_fn (pl_service p) q s),
      poll_fn = poll_fn (pl_service p)\<rparr>"

section \<open>Pipelines of factories\<close>

record ('s, 'cfg, 'svc, 'ie, 'f) pipeline_factory =
  pl_factory :: "('s, 'cfg, 'svc, 'ie, 'f) factory"

definition pipeline_factory_new :: "('s, 'cfg, 'svc, 'ie, 'f) factory \<Rightarrow> ('s, 'cfg, 'svc, 'ie, 'f) pipeline_factory" where
  "pipeline_factory_new a = \<lparr>pl_factory = a\<rparr>"

definition plf_and_then ::
  "('s, 'cfg, ('s, 'q, 'r, 'e, 'f) service, 'ie, 'fa) pipeline_factory \<Rightarrow>
   ('s, 'cfg, ('s, 'r, 'r2, 'e, 'g) service, 'ie, 'fb) factory \<Rightarrow>
   ('s, 'cfg, ('s, 'q, 'r2, 'e, ('f, 'g) chain_fut) service, 'ie,
      ('fa, 'fb, ('s, 'q, 'r, 'e, 'f) service, ('s, 'r, 'r2, 'e, 'g) service) pair_fut) pipeline_factory" where
  "plf_and_then p b = \<lparr>pl_factory = and_then_factory (pl_factory p) b\<rparr>"

definition plf_then ::
  "('s, 'cfg, ('s, 'q, 'r, 'e, 'f) service, 'ie, 'fa) pipeline_factory \<Rightarrow>
   ('s, 'cfg, ('s, ('r, 'e) result, 'r2, 'e, 'g) service, 'ie, 'fb) factory \<Rightarrow>
   ('s, 'cfg, ('s, 'q, 'r2, 'e, ('f, 'g) chain_fut) service, 'ie,
      ('fa, 'fb, ('s, 'q, 'r, 'e, 'f) service, ('s, ('r, 'e) result, 'r2, 'e, 'g) service) pair_fut) pipeline_factory" where
  "plf_then p b = \<lparr>pl_factory = then_factory (pl_factory p) b\<rparr>"

definition plf_map ::
  "('r \<Rightarrow> 'r2) \<Rightarrow> ('s, 'cfg, ('s, 'q, 'r, 'e, 'f) service, 'ie, 'ff) pipeline_factory \<Rightarrow>
   ('s, 'cfg, ('s, 'q, 'r2, 'e, 'f) service, 'ie, 'ff \<times> ('r \<Rightarrow> 'r2) option) pipeline_factory" where
  "plf_map h p = \<lparr>pl_factory = map_factory h (pl_factory p)\<rparr>"

definition plf_map_err ::
  "('e \<Rightarrow> 'e2) \<Rightarrow> ('s, 'cfg, ('s, 'q, 'r, 'e, 'f) service, 'ie, 'ff) pipeline_factory \<Rightarrow>
   ('s, 'cfg, ('s, 'q, 'r, 'e2, 'f) service, 'ie, 'ff) pipeline_factory" where
  "plf_map_err h p = \<lparr>pl_factory = map_err_factory h (pl_factory p)\<rparr>"

definition plf_map_init_err ::
  "('ie \<Rightarrow> 'ie2) \<Rightarrow> ('s, 'cfg, 'svc, 'ie, 'f) pipeline_factory \<Rightarrow> ('s, 'cfg, 'svc, 'ie2, 'f) pipeline_factory" where
  "plf_map_init_err h p = \<lparr>pl_factory = map_init_err h (pl_factory p)\<rparr>"

definition pipeline_as_factory :: "('s, 'cfg, 'svc, 'ie, 'f) pipeline_factory \<Rightarrow> ('s, 'cfg, 'svc, 'ie, 'f) factory" where
  "pipeline_as_factory p = \<lparr>new_fn = (\<lambda>cfg s. new_fn (pl_factory p) cfg s), init_fn = init_fn (pl_factory p)\<rparr>"

section \<open>What a pipeline builds and does\<close>

lemma pipeline_service_eq: "pipeline_service p = pl_service p"
  by (simp add: pipeline_service_def)

lemma pipeline_as_factory_eq: "pipeline_as_factory p = pl_factory p"
  by (simp add: pipeline_as_factory_def)

lemmas pipeline_defs = pipeline_service_eq pipeline_as_factory_eq pipeline_new_def pipeline_factory_new_def
  pl_and_then_def pl_then_def pl_map_def pl_map_err_def plf_and_then_def plf_then_def plf_map_def plf_map_err_def
  plf_map_init_err_def

lemma builds_post: "builds a good cfg post \<Longrightarrow> (\<And>r. post r \<Longrightarrow> post' r) \<Longrightarrow> builds a good cfg post'"
  unfolding builds_def by (blast intro: settles_mono)

lemma pair_built:
  assumes "builds a good cfg (\<lambda>r. r = Ok sa)" and "builds b good cfg (\<lambda>r. r = Ok sb)"
  shows "builds \<lparr>new_fn = (\<lambda>cfg s. case new_fn a cfg s of (fa, s1) \<Rightarrow>
                        (case new_fn b cfg s1 of (fb, s2) \<Rightarrow> (pair_new fa fb, s2))),
      init_fn = pair_poll mk (init_fn a) (init_fn b)\<rparr> good cfg (\<lambda>r. r = Ok (mk sa sb))"
proof -
  have "factory_pair a b good cfg (\<lambda>r. r = Ok sa) (\<lambda>r. r = Ok sb)"
    using assms by (simp add: factory_pair_def factory_contract_def)
  from factory_pair.pair_builds [OF this] show ?thesis by (rule builds_post) (auto simp: pair_post_def)
qed

text \<open>A pipeline of factories creates the pipeline of the services, method by method.\<close>

theorem pipeline_factory_builds:
  assumes a: "builds a good cfg (\<lambda>r. r = Ok sa)" and b: "builds b good cfg (\<lambda>r. r = Ok sb)"
    and c: "builds c good cfg (\<lambda>r. r = Ok sc)"
  shows "builds (pipeline_as_factory (plf_map_init_err m (plf_map_err k (plf_map h
        (plf_then (plf_and_then (pipeline_factory_new a) b) c))))) good cfg
      (\<lambda>r. r = Ok (pipeline_service (pl_map_err k (pl_map h (pl_then (pl_and_then (pipeline_new sa) sb) sc)))))"
proof -
  have ab: "builds (and_then_factory a b) good cfg (\<lambda>r. r = Ok (and_then sa sb))"
    unfolding and_then_factory_def by (rule pair_built [OF a b])
  have abc: "builds (then_factory (and_then_factory a b) c) good cfg (\<lambda>r. r = Ok (then_service (and_then sa sb) sc))"
    unfolding then_factory_def then_factory_poll_def by (rule pair_built [OF ab c])
  have f: "builds (map_factory h (then_factory (and_then_factory a b) c)) good cfg
      (\<lambda>r. r = Ok (map_service h (then_service (and_then sa sb) sc)))"
    by (rule builds_post [OF factories_build [OF abc, THEN conjunct1]]) auto
  have g: "builds (map_err_factory k (map_factory h (then_factory (and_then_factory a b) c))) good cfg
      (\<lambda>r. r = Ok (map_err_service k (map_service h (then_service (and_then sa sb) sc))))"
    by (rule builds_post [OF factories_build [OF f, THEN conjunct2, THEN conjunct1]]) auto
  have "builds (map_init_err m (map_err_factory k (map_factory h (then_factory (and_then_factory a b) c)))) good cfg
      (\<lambda>r. r = Ok (map_err_service k (map_service h (then_service (and_then sa sb) sc))))"
    by (rule builds_post [OF factories_build [OF g, THEN conjunct2, THEN conjunct2, THEN conjunct2, THEN conjunct2]]) auto
  then show ?thesis by (simp add: pipeline_defs)
qed

end
