(* ===== verification/Service_Ext.thy ===== *)
theory Service_Ext
  imports Pipeline
begin

text \<open>
  How services are put together by hand: the extension methods of \<open>actix-service/src/ext.rs\<close>, the
  conversions and the implementations for references and shared pointers of \<open>lib.rs\<close>, and the
  constructors of \<open>fn_service.rs\<close>.  A reference or pointer to a service forwards to it.
\<close>

section \<open>References and shared pointers\<close>

definition mut_ref_service :: "('s, 'q, 'r, 'e, 'f) service \<Rightarrow> ('s, 'q, 'r, 'e, 'f) service" where
  "mut_ref_service svc =
     \<lparr>ready_fn = (\<lambda>s. ready_fn svc s), call_fn = (\<lambda>q s. call_fn svc q s), poll_fn = poll_fn svc\<rparr>"

definition ref_service :: "('s, 'q, 'r, 'e, 'f) service \<Rightarrow> ('s, 'q, 'r, 'e, 'f) service" where
  "ref_service svc =
     \<lparr>ready_fn = (\<lambda>s. ready_fn svc s), call_fn = (\<lambda>q s. call_fn svc q s), poll_fn = poll_fn svc\<rparr>"

definition box_service :: "('s, 'q, 'r, 'e, 'f) service \<Rightarrow> ('s, 'q, 'r, 'e, 'f) service" where
  "box_service svc =
     \<lparr>ready_fn = (\<lambda>s. ready_fn svc s), call_fn = (\<lambda>q s. call_fn svc q s), poll_fn = poll_fn svc\<rparr>"

definition rc_service :: "('s, 'q, 'r, 'e, 'f) service \<Rightarrow> ('s, 'q, 'r, 'e, 'f) service" where
  "rc_service svc =
     \<lparr>ready_fn = (\<lambda>s. ready_fn svc s), call_fn = (\<lambda>q s. call_fn svc q s), poll_fn = poll_fn svc\<rparr>"

definition rc_factory :: "('s, 'cfg, 'svc, 'ie, 'f) factory \<Rightarrow> ('s, 'cfg, 'svc, 'ie, 'f) factory" where
  "rc_factory a = \<lparr>new_fn = (\<lambda>cfg s. new_fn a cfg s), init_fn = init_fn a\<rparr>"

definition arc_factory :: "('s, 'cfg, 'svc, 'ie, 'f) factory \<Rightarrow> ('s, 'cfg, 'svc, 'ie, 'f) factory" where
  "arc_factory a = \<lparr>new_fn = (\<lambda>cfg s. new_fn a cfg s), init_fn = init_fn a\<rparr>"

text \<open>A service and a factory convert to themselves.\<close>

definition service_into_service :: "('s, 'q, 'r, 'e, 'f) service \<Rightarrow> ('s, 'q, 'r, 'e, 'f) service" where
  "service_into_service svc = svc"

definition factory_into_factory :: "('s, 'cfg, 'svc, 'ie, 'f) factory \<Rightarrow> ('s, 'cfg, 'svc, 'ie, 'f) factory" where
  "factory_into_factory a = a"

section \<open>Functions\<close>

text \<open>A function, here with the poll of the futures it returns, converts to a service and to a factory
  of services; \<open>FnServiceFactory\<close> is a service too.\<close>

definition fn_into_service ::
  "('q \<Rightarrow> 's \<Rightarrow> 'f \<times> 's) \<Rightarrow> ('s, ('r, 'e) result, 'f) poller \<Rightarrow> ('s, 'q, 'r, 'e, 'f) service" where
  "fn_into_service f p = fn_service f p"

definition fn_factory_service ::
  "('q \<Rightarrow> 's \<Rightarrow> 'f \<times> 's) \<Rightarrow> ('s, ('r, 'e) result, 'f) poller \<Rightarrow> ('s, 'q, 'r, 'e, 'f) service" where
  "fn_factory_service f p = \<lparr>ready_fn = (\<lambda>s. (Ready (Ok ()), s)), call_fn = (\<lambda>q s. f q s), poll_fn = p\<rparr>"

definition fn_into_factory ::
  "('q \<Rightarrow> 's \<Rightarrow> 'f \<times> 's) \<Rightarrow> ('s, ('r, 'e) result, 'f) poller \<Rightarrow>
   ('s, 'cfg, ('s, 'q, 'r, 'e, 'f) service, unit, (('s, 'q, 'r, 'e, 'f) service, unit) result option) factory" where
  "fn_into_factory f p = fn_service_factory f p"

section \<open>Extension methods\<close>

definition ext_map :: "('s, 'q, 'r, 'e, 'f) service \<Rightarrow> ('r \<Rightarrow> 'r2) \<Rightarrow> ('s, 'q, 'r2, 'e, 'f) service" where
  "ext_map self f = map_service f self"

definition ext_map_err :: "('s, 'q, 'r, 'e, 'f) service \<Rightarrow> ('e \<Rightarrow> 'e2) \<Rightarrow> ('s, 'q, 'r, 'e2, 'f) service" where
  "ext_map_err self f = map_err_service f self"

definition ext_and_then ::
  "('s, 'q, 'r, 'e, 'f) service \<Rightarrow> ('s, 'r, 'r2, 'e, 'g) service \<Rightarrow> ('s, 'q, 'r2, 'e, ('f, 'g) chain_fut) service" where
  "ext_and_then self svc = and_then self (service_into_service svc)"

definition extf_map ::
  "('s, 'cfg, ('s, 'q, 'r, 'e, 'f) service, 'ie, 'ff) factory \<Rightarrow> ('r \<Rightarrow> 'r2) \<Rightarrow>
   ('s, 'cfg, ('s, 'q, 'r2, 'e, 'f) service, 'ie, 'ff \<times> ('r \<Rightarrow> 'r2) option) factory" where
  "extf_map self f = map_factory f self"

definition extf_map_err ::
  "('s, 'cfg, ('s, 'q, 'r, 'e, 'f) service, 'ie, 'ff) factory \<Rightarrow> ('e \<Rightarrow> 'e2) \<Rightarrow>
   ('s, 'cfg, ('s, 'q, 'r, 'e2, 'f) service, 'ie, 'ff) factory" where
  "extf_map_err self f = map_err_factory f self"

definition extf_map_init_err ::
  "('s, 'cfg, 'svc, 'ie, 'f) factory \<Rightarrow> ('ie \<Rightarrow> 'ie2) \<Rightarrow> ('s, 'cfg, 'svc, 'ie2, 'f) factory" where
  "extf_map_init_err self f = map_init_err f self"

definition extf_and_then ::
  "('s, 'cfg, ('s, 'q, 'r, 'e, 'f) service, 'ie, 'fa) factory \<Rightarrow>
   ('s, 'cfg, ('s, 'r, 'r2, 'e, 'g) service, 'ie, 'fb) factory \<Rightarrow>
   ('s, 'cfg, ('s, 'q, 'r2, 'e, ('f, 'g) chain_fut) service, 'ie,
      ('fa, 'fb, ('s, 'q, 'r, 'e, 'f) service, ('s, 'r, 'r2, 'e, 'g) service) pair_fut) factory" where
  "extf_and_then self b = and_then_factory self (factory_into_factory b)"

definition extt_map_init_err ::
  "('s, 'a, 'b, 'ie, 'f) transform \<Rightarrow> ('ie \<Rightarrow> 'ie2) \<Rightarrow> ('s, 'a, 'b, 'ie2, 'f) transform" where
  "extt_map_init_err self f = transform_map_init_err f self"

section \<open>A chain built with the methods\<close>

lemmas ext_defs = ext_map_def ext_map_err_def ext_and_then_def extf_map_def extf_map_err_def extf_map_init_err_def
  extf_and_then_def service_into_service_def factory_into_factory_def fn_into_service_def fn_into_factory_def

lemma pointers_forward:
  "mut_ref_service svc = svc" "ref_service svc = svc" "box_service svc = svc" "rc_service svc = svc"
  "rc_factory a = a" "arc_factory a = a"
  by (simp_all add: mut_ref_service_def ref_service_def box_service_def rc_service_def rc_factory_def arc_factory_def)

lemma fn_factory_service_eq: "fn_factory_service f p = fn_service f p"
  by (simp add: fn_factory_service_def fn_service_def)

text \<open>A factory chain written with the extension methods, behind shared pointers, creates what the
  extension methods make of the services.\<close>

theorem ext_factory_builds:
  assumes a: "builds a good cfg (\<lambda>r. r = Ok sa)" and b: "builds b good cfg (\<lambda>r. r = Ok sb)"
  shows "builds (rc_factory (extf_map_init_err (extf_map_err (extf_map (extf_and_then a (arc_factory b)) h) k) m)) good cfg
      (\<lambda>r. r = Ok (ext_map_err (ext_map (ext_and_then (rc_service sa) (box_service sb)) h) k))"
proof -
  have ab: "builds (and_then_factory a b) good cfg (\<lambda>r. r = Ok (and_then sa sb))"
    unfolding and_then_factory_def by (rule pair_built [OF a b])
  have f: "builds (map_factory h (and_then_factory a b)) good cfg (\<lambda>r. r = Ok (map_service h (and_then sa sb)))"
    by (rule builds_post [OF factories_build [OF ab, THEN conjunct1]]) auto
  have g: "builds (map_err_factory k (map_factory h (and_then_factory a b))) good cfg
      (\<lambda>r. r = Ok (map_err_service k (map_service h (and_then sa sb))))"
    by (rule builds_post [OF factories_build [OF f, THEN conjunct2, THEN conjunct1]]) auto
  have "builds (map_init_err m (map_err_factory k (map_factory h (and_then_factory a b)))) good cfg
      (\<lambda>r. r = Ok (map_err_service k (map_service h (and_then sa sb))))"
    by (rule builds_post [OF factories_build [OF g, THEN conjunct2, THEN conjunct2, THEN conjunct2, THEN conjunct2]]) auto
  then show ?thesis by (simp add: ext_defs pointers_forward)
qed

end
