(* ===== verification/Tls_Connect.thy ===== *)
theory Tls_Connect
  imports Prelude "HOL-Library.Char_ord"
begin

text \<open>
  \<open>actix-tls/src/connect\<close>: hosts, connection requests, the resolver, the TCP connector and the
  connector service that chains them (\<open>host.rs\<close>, \<open>uri.rs\<close>, \<open>info.rs\<close>, \<open>connect_addrs.rs\<close>,
  \<open>resolver.rs\<close>, \<open>tcp.rs\<close>, \<open>connector.rs\<close>, \<open>connection.rs\<close>).  A host type is its two accessors
  \<open>hostname\<close> and \<open>port\<close>, which are parameters; so are parsing an IP address, the DNS lookup and
  what the operating system answers for a socket (\<open>net\<close>).  A future is the list of answers of its successive polls, \<open>Pending\<close> when it
  has run out.  A connected socket is its number.
\<close>

section \<open>Hosts\<close>

fun split_once :: "char \<Rightarrow> string \<Rightarrow> (string \<times> string) option" where
  "split_once c [] = None"
| "split_once c (x # xs) =
     (if x = c then Some ([], xs) else map_option (\<lambda>(a, b). (x # a, b)) (split_once c xs))"

fun find_char :: "char \<Rightarrow> string \<Rightarrow> nat option" where
  "find_char c [] = None"
| "find_char c (x # xs) = (if x = c then Some 0 else map_option Suc (find_char c xs))"

definition split_colon :: "string \<Rightarrow> string \<times> string option" where
  "split_colon host = (case split_once CHR '':'' host of Some (h, p) \<Rightarrow> (h, Some p) | None \<Rightarrow> (host, None))"

definition split_host :: "string \<Rightarrow> string \<times> string option" where
  "split_host host =
     (if take 1 host = ''['' then
        (case find_char CHR '']'' host of
           None \<Rightarrow> split_colon host
         | Some e \<Rightarrow>
             (let hostname = take (e + 1) host; rest = drop (e + 1) host in
              if rest = [] then (hostname, None)
              else if take 1 rest = '':'' then (hostname, Some (drop 1 rest))
              else split_colon host))
      else split_colon host)"

text \<open>\<open>str::parse::<u16>\<close>: an optional plus sign and at least one decimal digit, without overflow.\<close>

definition digit :: "char \<Rightarrow> nat option" where
  "digit c = (let n = of_char c in if 48 \<le> n \<and> n \<le> (57 :: nat) then Some (n - 48) else None)"

fun parse_digits :: "nat \<Rightarrow> string \<Rightarrow> nat option" where
  "parse_digits acc [] = Some acc"
| "parse_digits acc (c # cs) =
     (case digit c of
        None \<Rightarrow> None
      | Some d \<Rightarrow> (if acc * 10 + d < 65536 then parse_digits (acc * 10 + d) cs else None))"

definition parse_u16 :: "string \<Rightarrow> u16 option" where
  "parse_u16 s =
     (let s1 = (if take 1 s = ''+'' then drop 1 s else s) in
      if s1 = [] then None else map_option of_nat (parse_digits 0 s1))"

definition str_hostname :: "string \<Rightarrow> string" where
  "str_hostname host = fst (split_host host)"

definition str_port :: "string \<Rightarrow> u16 option" where
  "str_port host = (case snd (split_host host) of None \<Rightarrow> None | Some p \<Rightarrow> parse_u16 p)"

text \<open>\<open>uri.rs\<close>, over the URI's own host, explicit port and scheme.\<close>

record uri =
  uri_host :: "string option"
  uri_port :: "u16 option"
  uri_scheme :: "string option"

definition scheme_to_port :: "string option \<Rightarrow> u16 option" where
  "scheme_to_port s =
     (case s of
        None \<Rightarrow> None
      | Some n \<Rightarrow>
          map_of [(''http'', 80), (''https'', 443), (''ws'', 80), (''wss'', 443), (''amqp'', 5672),
            (''amqps'', 5671), (''mqtt'', 1883), (''mqtts'', 8883), (''ftp'', 21), (''ftps'', 990),
            (''redis'', 6379), (''mysql'', 3306), (''postgres'', 5432)] n)"

definition uri_hostname :: "uri \<Rightarrow> string" where
  "uri_hostname u = (case uri_host u of Some h \<Rightarrow> h | None \<Rightarrow> [])"

definition uri_port_of :: "uri \<Rightarrow> u16 option" where
  "uri_port_of u = (case uri_port u of Some p \<Rightarrow> Some p | None \<Rightarrow> scheme_to_port (uri_scheme u))"

section \<open>Connection requests\<close>

type_synonym 'ip sockaddr = "'ip \<times> u16"

datatype 'ip connect_addrs = AddrNone | AddrOne "'ip sockaddr" | AddrMulti "'ip sockaddr list"

definition is_unresolved :: "'ip connect_addrs \<Rightarrow> bool" where
  "is_unresolved a \<longleftrightarrow> a = AddrNone"

definition addrs_from :: "'ip sockaddr option \<Rightarrow> 'ip connect_addrs" where
  "addrs_from a = (case a of Some x \<Rightarrow> AddrOne x | None \<Rightarrow> AddrNone)"

record ('r, 'ip) connect_info =
  request :: 'r
  iport :: u16
  addr :: "'ip connect_addrs"
  local_addr :: "'ip option"

definition info_new :: "('r \<Rightarrow> u16 option) \<Rightarrow> 'r \<Rightarrow> ('r, 'ip) connect_info" where
  "info_new hport req =
     \<lparr>request = req, iport = (case hport req of Some p \<Rightarrow> p | None \<Rightarrow> 0), addr = AddrNone, local_addr = None\<rparr>"

definition info_with_addr :: "'r \<Rightarrow> 'ip sockaddr \<Rightarrow> ('r, 'ip) connect_info" where
  "info_with_addr req a = \<lparr>request = req, iport = 0, addr = AddrOne a, local_addr = None\<rparr>"

definition set_port :: "u16 \<Rightarrow> ('r, 'ip) connect_info \<Rightarrow> ('r, 'ip) connect_info" where
  "set_port p i = i\<lparr>iport := p\<rparr>"

definition set_addr :: "'ip sockaddr option \<Rightarrow> ('r, 'ip) connect_info \<Rightarrow> ('r, 'ip) connect_info" where
  "set_addr a i = i\<lparr>addr := addrs_from a\<rparr>"

definition set_addrs :: "'ip sockaddr list \<Rightarrow> ('r, 'ip) connect_info \<Rightarrow> ('r, 'ip) connect_info" where
  "set_addrs as i =
     i\<lparr>addr := (if length as < 2 then addrs_from (case as of [] \<Rightarrow> None | a # rest \<Rightarrow> Some a) else AddrMulti as)\<rparr>"

definition set_local_addr :: "'ip \<Rightarrow> ('r, 'ip) connect_info \<Rightarrow> ('r, 'ip) connect_info" where
  "set_local_addr a i = i\<lparr>local_addr := Some a\<rparr>"

definition info_port :: "('r \<Rightarrow> u16 option) \<Rightarrow> ('r, 'ip) connect_info \<Rightarrow> u16" where
  "info_port hport i = (case hport (request i) of Some p \<Rightarrow> p | None \<Rightarrow> iport i)"

text \<open>\<open>ConnectAddrsIter\<close>: its items, and one call of \<open>next\<close>.\<close>

definition iter_next :: "'ip connect_addrs \<Rightarrow> 'ip sockaddr option \<times> 'ip connect_addrs" where
  "iter_next a =
     (case a of
        AddrNone \<Rightarrow> (None, AddrNone)
      | AddrOne x \<Rightarrow> (Some x, AddrNone)
      | AddrMulti xs \<Rightarrow> (case xs of [] \<Rightarrow> (None, AddrMulti []) | x # rest \<Rightarrow> (Some x, AddrMulti rest)))"

definition addr_list :: "'ip connect_addrs \<Rightarrow> 'ip sockaddr list" where
  "addr_list a = (case a of AddrNone \<Rightarrow> [] | AddrOne x \<Rightarrow> [x] | AddrMulti xs \<Rightarrow> xs)"

definition take_addrs :: "('r, 'ip) connect_info \<Rightarrow> 'ip connect_addrs \<times> ('r, 'ip) connect_info" where
  "take_addrs i = (addr i, i\<lparr>addr := AddrNone\<rparr>)"

section \<open>Resolver\<close>

datatype connect_error = ResolverError nat | NoRecords | ConnInvalidInput | Unresolved | ConnIo io_error

type_synonym 'ip lookup_fut = "('ip sockaddr list, connect_error) result poll list"

datatype ('r, 'ip) resolver_fut =
  Resolved "('r, 'ip) connect_info option"
| LookUp "'ip lookup_fut" "('r, 'ip) connect_info option"

definition resolver_call ::
  "('r \<Rightarrow> string) \<Rightarrow> ('r \<Rightarrow> u16 option) \<Rightarrow> (string \<Rightarrow> 'ip option) \<Rightarrow> (string \<Rightarrow> u16 \<Rightarrow> 'ip lookup_fut) \<Rightarrow>
   ('r, 'ip) connect_info \<Rightarrow> ('r, 'ip) resolver_fut" where
  "resolver_call hname hport parse_ip lookup req =
     (if \<not> is_unresolved (addr req) then Resolved (Some req)
      else
        case parse_ip (hname (request req)) of
          Some ip \<Rightarrow> Resolved (Some (set_addr (Some (ip, info_port hport req)) req))
        | None \<Rightarrow> LookUp (lookup (hname (request req)) (info_port hport req)) (Some req))"

definition finish_lookup ::
  "('ip sockaddr list, connect_error) result \<Rightarrow> ('r, 'ip) connect_info \<Rightarrow>
   (('r, 'ip) connect_info, connect_error) result" where
  "finish_lookup r req =
     (case r of
        Err e \<Rightarrow> Err e
      | Ok as \<Rightarrow> (let req1 = set_addrs as req in if is_unresolved (addr req1) then Err NoRecords else Ok req1))"

text \<open>\<open>LookUp\<close> stands for \<open>LookupCustom\<close> too.  The join handle of the one and the async block of the other
  both panic when they are polled after they have completed.\<close>

fun resolver_poll ::
  "('r, 'ip) resolver_fut \<Rightarrow>
   ((('r, 'ip) connect_info, connect_error) result poll, panic) result \<times> ('r, 'ip) resolver_fut" where
  "resolver_poll (Resolved None) = (Err ExplicitPanic, Resolved None)"
| "resolver_poll (Resolved (Some req)) = (Ok (Ready (Ok req)), Resolved None)"
| "resolver_poll (LookUp f None) = (Err ExplicitPanic, LookUp f None)"
| "resolver_poll (LookUp [] (Some req)) = (Ok Pending, LookUp [] (Some req))"
| "resolver_poll (LookUp (Pending # f) (Some req)) = (Ok Pending, LookUp f (Some req))"
| "resolver_poll (LookUp (Ready r # f) (Some req)) = (Ok (Ready (finish_lookup r req)), LookUp f None)"

section \<open>TCP connector\<close>

type_synonym stream_fut = "(nat, io_error) result poll list"

text \<open>What the operating system answers: opening a socket for IPv4 or IPv6, binding it to a local address
  and port, connecting it, and \<open>TcpStream::connect\<close>, which picks the local address itself.\<close>

record 'ip net =
  net_is_v4 :: "'ip \<Rightarrow> bool"
  net_socket :: "bool \<Rightarrow> (nat, io_error) result"
  net_bind :: "nat \<Rightarrow> 'ip sockaddr \<Rightarrow> (unit, io_error) result"
  net_connect :: "nat \<Rightarrow> 'ip sockaddr \<Rightarrow> stream_fut"
  net_stream :: "'ip sockaddr \<Rightarrow> stream_fut"

text \<open>\<open>connect\<close>; an async function gives its early errors in its first poll.\<close>

definition tcp_connect :: "'ip net \<Rightarrow> 'ip sockaddr \<Rightarrow> 'ip option \<Rightarrow> stream_fut" where
  "tcp_connect net a la =
     (case la of
        None \<Rightarrow> net_stream net a
      | Some ip \<Rightarrow>
          (case net_socket net (net_is_v4 net ip) of
             Err e \<Rightarrow> [Ready (Err e)]
           | Ok sock \<Rightarrow>
               (case net_bind net sock (ip, 0) of
                  Err e \<Rightarrow> [Ready (Err e)]
                | Ok u \<Rightarrow> net_connect net sock a)))"

datatype ('r, 'ip) tcp_fut =
  TcpResponse "'r option" u16 "'ip option" "'ip sockaddr list option" stream_fut
| TcpError "connect_error option"

definition tcp_new ::
  "('ip sockaddr \<Rightarrow> 'ip option \<Rightarrow> stream_fut) \<Rightarrow> 'r \<Rightarrow> u16 \<Rightarrow> 'ip option \<Rightarrow> 'ip connect_addrs \<Rightarrow>
   (('r, 'ip) tcp_fut, panic) result" where
  "tcp_new connect req port la a =
     (if is_unresolved a then Ok (TcpError (Some Unresolved))
      else
        case a of
          AddrNone \<Rightarrow> Err ExplicitPanic
        | AddrOne x \<Rightarrow> Ok (TcpResponse (Some req) port la None (connect x la))
        | AddrMulti xs \<Rightarrow>
            (case xs of
               [] \<Rightarrow> Err UnwrapNone
             | x # rest \<Rightarrow> Ok (TcpResponse (Some req) port la (Some rest) (connect x la))))"

definition tcp_call ::
  "('ip sockaddr \<Rightarrow> 'ip option \<Rightarrow> stream_fut) \<Rightarrow> ('r \<Rightarrow> u16 option) \<Rightarrow> ('r, 'ip) connect_info \<Rightarrow>
   (('r, 'ip) tcp_fut, panic) result" where
  "tcp_call connect hport info =
     tcp_new connect (request info) (info_port hport info) (local_addr info) (addr info)"

text \<open>The loop of \<open>poll\<close>, over the addresses left.\<close>

fun tcp_loop ::
  "('ip sockaddr \<Rightarrow> 'ip option \<Rightarrow> stream_fut) \<Rightarrow> 'r option \<Rightarrow> u16 \<Rightarrow> 'ip option \<Rightarrow> 'ip sockaddr list \<Rightarrow> bool \<Rightarrow>
   stream_fut \<Rightarrow> (('r \<times> nat, connect_error) result poll, panic) result \<times> ('r, 'ip) tcp_fut" where
  "tcp_loop connect req port la as multi stream =
     (let addrs = (if multi then Some as else None) in
      case stream of
        [] \<Rightarrow> (Ok Pending, TcpResponse req port la addrs [])
      | Pending # f \<Rightarrow> (Ok Pending, TcpResponse req port la addrs f)
      | Ready (Ok sock) # f \<Rightarrow>
          (case req of
             None \<Rightarrow> (Err UnwrapNone, TcpResponse None port la addrs f)
           | Some r \<Rightarrow> (Ok (Ready (Ok (r, sock))), TcpResponse None port la addrs f))
      | Ready (Err e) # f \<Rightarrow>
          (case as of
             [] \<Rightarrow> (Ok (Ready (Err (ConnIo e))), TcpResponse req port la addrs f)
           | a # rest \<Rightarrow>
               (if multi then tcp_loop connect req port la rest multi (connect a la)
                else (Ok (Ready (Err (ConnIo e))), TcpResponse req port la addrs f))))"

declare tcp_loop.simps [simp del]

fun tcp_poll ::
  "('ip sockaddr \<Rightarrow> 'ip option \<Rightarrow> stream_fut) \<Rightarrow> ('r, 'ip) tcp_fut \<Rightarrow>
   (('r \<times> nat, connect_error) result poll, panic) result \<times> ('r, 'ip) tcp_fut" where
  "tcp_poll connect (TcpError None) = (Err UnwrapNone, TcpError None)"
| "tcp_poll connect (TcpError (Some e)) = (Ok (Ready (Err e)), TcpError None)"
| "tcp_poll connect (TcpResponse req port la addrs stream) =
     tcp_loop connect req port la (case addrs of Some as \<Rightarrow> as | None \<Rightarrow> []) (addrs \<noteq> None) stream"

section \<open>Connector\<close>

datatype ('r, 'ip) connect_fut = FutResolve "('r, 'ip) resolver_fut" | FutConnect "('r, 'ip) tcp_fut"

definition connector_call ::
  "('r \<Rightarrow> string) \<Rightarrow> ('r \<Rightarrow> u16 option) \<Rightarrow> (string \<Rightarrow> 'ip option) \<Rightarrow> (string \<Rightarrow> u16 \<Rightarrow> 'ip lookup_fut) \<Rightarrow>
   ('r, 'ip) connect_info \<Rightarrow> ('r, 'ip) connect_fut" where
  "connector_call hname hport parse_ip lookup req = FutResolve (resolver_call hname hport parse_ip lookup req)"

text \<open>\<open>ConnectServiceResponse::poll\<close>: once resolved, the loop goes on with the TCP connector.\<close>

definition connector_poll ::
  "('ip sockaddr \<Rightarrow> 'ip option \<Rightarrow> stream_fut) \<Rightarrow> ('r \<Rightarrow> u16 option) \<Rightarrow> ('r, 'ip) connect_fut \<Rightarrow>
   (('r \<times> nat, connect_error) result poll, panic) result \<times> ('r, 'ip) connect_fut" where
  "connector_poll connect hport fut =
     (case fut of
        FutConnect t \<Rightarrow> (case tcp_poll connect t of (r, t1) \<Rightarrow> (r, FutConnect t1))
      | FutResolve f \<Rightarrow>
          (case resolver_poll f of
             (Err p, f1) \<Rightarrow> (Err p, FutResolve f1)
           | (Ok Pending, f1) \<Rightarrow> (Ok Pending, FutResolve f1)
           | (Ok (Ready (Err e)), f1) \<Rightarrow> (Ok (Ready (Err e)), FutResolve f1)
           | (Ok (Ready (Ok req)), f1) \<Rightarrow>
               (case tcp_call connect hport req of
                  Err p \<Rightarrow> (Err p, FutResolve f1)
                | Ok t \<Rightarrow> (case tcp_poll connect t of (r, t1) \<Rightarrow> (r, FutConnect t1)))))"

text \<open>Polling until ready, at most \<open>n\<close> times.\<close>

fun connector_run ::
  "nat \<Rightarrow> ('ip sockaddr \<Rightarrow> 'ip option \<Rightarrow> stream_fut) \<Rightarrow> ('r \<Rightarrow> u16 option) \<Rightarrow> ('r, 'ip) connect_fut \<Rightarrow>
   (('r \<times> nat, connect_error) result, panic) result option" where
  "connector_run 0 connect hport fut = None"
| "connector_run (Suc n) connect hport fut =
     (case connector_poll connect hport fut of
        (Err p, f1) \<Rightarrow> Some (Err p)
      | (Ok (Ready r), f1) \<Rightarrow> Some (Ok r)
      | (Ok Pending, f1) \<Rightarrow> connector_run n connect hport f1)"

section \<open>What the connector promises\<close>

text \<open>Trying addresses in order, over what connecting to each of them gives.\<close>

fun try_all :: "('ip sockaddr \<Rightarrow> (nat, io_error) result) \<Rightarrow> 'ip sockaddr list \<Rightarrow> (nat, connect_error) result" where
  "try_all f [] = Err Unresolved"
| "try_all f [a] = map_err_result ConnIo (f a)"
| "try_all f (a # b # as) = (case f a of Ok sock \<Rightarrow> Ok sock | Err e \<Rightarrow> try_all f (b # as))"

definition expected ::
  "('r \<Rightarrow> string) \<Rightarrow> ('r \<Rightarrow> u16 option) \<Rightarrow> (string \<Rightarrow> 'ip option) \<Rightarrow>
   (string \<Rightarrow> u16 \<Rightarrow> ('ip sockaddr list, connect_error) result) \<Rightarrow>
   ('ip option \<Rightarrow> 'ip sockaddr \<Rightarrow> (nat, io_error) result) \<Rightarrow>
   ('r, 'ip) connect_info \<Rightarrow> (nat, connect_error) result" where
  "expected hname hport parse_ip lk dial info =
     (let f = dial (local_addr info) in
      if addr info \<noteq> AddrNone then try_all f (addr_list (addr info))
      else
        case parse_ip (hname (request info)) of
          Some ip \<Rightarrow> try_all f [(ip, info_port hport info)]
        | None \<Rightarrow>
            (case lk (hname (request info)) (info_port hport info) of
               Err e \<Rightarrow> Err e
             | Ok as \<Rightarrow> (if as = [] then Err NoRecords else try_all f as)))"

text \<open>What an attempt from a local address ends with, if \<open>f\<close> and \<open>g\<close> are what \<open>TcpStream::connect\<close> and
  connecting a bound socket end with: a requested local address is bound first, with any port, and its
  errors are those of the attempt.\<close>

definition dialled ::
  "'ip net \<Rightarrow> ('ip sockaddr \<Rightarrow> (nat, io_error) result) \<Rightarrow> (nat \<Rightarrow> 'ip sockaddr \<Rightarrow> (nat, io_error) result) \<Rightarrow>
   'ip option \<Rightarrow> 'ip sockaddr \<Rightarrow> (nat, io_error) result" where
  "dialled net f g la a =
     (case la of
        None \<Rightarrow> f a
      | Some ip \<Rightarrow>
          bind_result (net_socket net (net_is_v4 net ip)) (\<lambda>sock.
          bind_result (net_bind net sock (ip, 0)) (\<lambda>u. g sock a)))"

lemma tcp_connect_dials:
  assumes "\<And>a. first_ready (net_stream net a) = Some (f a)" and "\<And>sock a. first_ready (net_connect net sock a) = Some (g sock a)"
  shows "first_ready (tcp_connect net a la) = Some (dialled net f g la a)"
  using assms by (simp add: tcp_connect_def dialled_def split: option.split result.split)

text \<open>The address lists the requests are built with.\<close>

definition addrs_wf :: "'ip connect_addrs \<Rightarrow> bool" where
  "addrs_wf a \<longleftrightarrow> (\<forall>xs. a = AddrMulti xs \<longrightarrow> 2 \<le> length xs)"

lemma set_addrs_wf: "addrs_wf (addr (set_addrs as i))" "addr_list (addr (set_addrs as i)) = as"
  "addr (set_addrs as i) = AddrNone \<longleftrightarrow> as = []" "request (set_addrs as i) = request i"
  "local_addr (set_addrs as i) = local_addr i"
  by (cases "as"; cases "tl as"; simp add: set_addrs_def addrs_wf_def addrs_from_def addr_list_def)+

lemma set_addr_wf: "addrs_wf (addr (set_addr a i))"
  by (cases a) (simp_all add: set_addr_def addrs_wf_def addrs_from_def)

lemma connector_poll_next:
  "connector_poll connect hport (FutConnect (TcpResponse (Some r) port la (Some (a # as)) (Ready (Err e) # f)))
     = connector_poll connect hport (FutConnect (TcpResponse (Some r) port la (Some as) (connect a la)))"
  by (simp add: connector_poll_def) (subst tcp_loop.simps, simp add: Let_def)

lemma connector_run_poll_cong:
  "connector_poll connect hport x = connector_poll connect hport y \<Longrightarrow>
     connector_run n connect hport x = connector_run n connect hport y"
  by (cases n) simp_all

lemma connector_poll_pending:
  "connector_poll connect hport (FutConnect (TcpResponse (Some r) port la addrs (Pending # f)))
     = (Ok Pending, FutConnect (TcpResponse (Some r) port la addrs f))"
  by (cases addrs) (simp_all add: connector_poll_def tcp_loop.simps Let_def)

lemma connector_poll_done:
  "fst (connector_poll connect hport (FutConnect (TcpResponse (Some r) port la addrs (Ready (Ok sock) # f))))
     = Ok (Ready (Ok (r, sock)))"
  "fst (connector_poll connect hport (FutConnect (TcpResponse (Some r) port la None (Ready (Err e) # f))))
     = Ok (Ready (Err (ConnIo e)))"
  "fst (connector_poll connect hport (FutConnect (TcpResponse (Some r) port la (Some []) (Ready (Err e) # f))))
     = Ok (Ready (Err (ConnIo e)))"
  by (simp_all add: connector_poll_def tcp_loop.simps Let_def split: list.split)

lemma connector_run_ready:
  "fst (connector_poll connect hport x) = Ok (Ready r) \<Longrightarrow> connector_run 1 connect hport x = Some (Ok r)"
  by (cases "connector_poll connect hport x") simp

lemma connector_run_tcp:
  assumes conn: "\<And>a. first_ready (connect a la) = Some (f a)" and o: "first_ready stream = Some res"
  shows "\<exists>n. connector_run n connect hport (FutConnect (TcpResponse (Some r) port la addrs stream)) =
    Some (Ok (map_result (Pair r) (case res of Ok sock \<Rightarrow> Ok sock | Err e \<Rightarrow>
      (case addrs of Some (a # as) \<Rightarrow> try_all f (a # as) | _ \<Rightarrow> Err (ConnIo e)))))"
  using o
proof (induction "case addrs of Some as \<Rightarrow> length as | None \<Rightarrow> 0" arbitrary: addrs stream res rule: less_induct)
  case less
  note outer = less.hyps
  from less.prems show ?case
  proof (induction stream)
    case (Cons x xs)
    show ?case
    proof (cases x)
      case Pending
      with Cons obtain n where "connector_run n connect hport (FutConnect (TcpResponse (Some r) port la addrs xs)) =
        Some (Ok (map_result (Pair r) (case res of Ok sock \<Rightarrow> Ok sock | Err e \<Rightarrow>
          (case addrs of Some (a # as) \<Rightarrow> try_all f (a # as) | _ \<Rightarrow> Err (ConnIo e)))))" by auto
      then show ?thesis
        by (intro exI [of _ "Suc n"]) (simp add: Pending connector_poll_pending)
    next
      case (Ready q)
      with Cons.prems have q: "q = res" by simp
      show ?thesis
      proof (cases res)
        case (Ok sock)
        show ?thesis by (rule exI [of _ 1], rule connector_run_ready [THEN trans])
            (simp_all add: Ready q Ok connector_poll_done)
      next
        case (Err e)
        consider "addrs = None \<or> addrs = Some []" | a "as" where "addrs = Some (a # as)"
          by (cases addrs; cases "the addrs") auto
        then show ?thesis
        proof cases
          case 1
          then show ?thesis
            by (intro exI [of _ 1], elim disjE; intro connector_run_ready [THEN trans])
              (simp_all add: Ready q Err connector_poll_done)
        next
          case (2 a as')
          from outer [of "Some as'" "connect a la" "f a"] conn [of a] obtain n where
            "connector_run n connect hport (FutConnect (TcpResponse (Some r) port la (Some as') (connect a la))) =
             Some (Ok (map_result (Pair r) (case f a of Ok sock \<Rightarrow> Ok sock | Err e \<Rightarrow>
               (case Some as' of Some (a # as) \<Rightarrow> try_all f (a # as) | _ \<Rightarrow> Err (ConnIo e)))))"
            using 2 by auto
          moreover have "connector_run n connect hport (FutConnect (TcpResponse (Some r) port la addrs (x # xs)))
              = connector_run n connect hport (FutConnect (TcpResponse (Some r) port la (Some as') (connect a la)))"
            by (rule connector_run_poll_cong) (simp add: 2 Ready q Err connector_poll_next)
          moreover have "(case f a of Ok sock \<Rightarrow> Ok sock | Err e \<Rightarrow>
               (case Some as' of Some (a # as) \<Rightarrow> try_all f (a # as) | _ \<Rightarrow> Err (ConnIo e))) = try_all f (a # as')"
            by (cases as'; cases "f a") simp_all
          ultimately show ?thesis using 2 Err by auto
        qed
      qed
    qed
  qed simp
qed

lemma tcp_call_ok:
  assumes "addr info \<noteq> AddrNone" "addrs_wf (addr info)"
  obtains a "as" where "addr_list (addr info) = a # as"
    "tcp_call connect hport info = Ok (TcpResponse (Some (request info)) (info_port hport info) (local_addr info)
       (if as = [] then None else Some as) (connect a (local_addr info)))"
proof (cases "addr info")
  case (AddrOne a)
  with that [of a "[]"] show thesis by (simp add: tcp_call_def tcp_new_def is_unresolved_def addr_list_def)
next
  case (AddrMulti xs)
  with assms(2) obtain a b "as" where "xs = a # b # as"
    by (auto simp: addrs_wf_def numeral_2_eq_2 Suc_le_length_iff)
  with AddrMulti that [of a "b # as"] show thesis
    by (simp add: tcp_call_def tcp_new_def is_unresolved_def addr_list_def)
qed (use assms in simp)

lemma connector_run_tcp_call:
  assumes conn: "\<And>a. first_ready (connect a (local_addr info)) = Some (f a)"
    and i: "addr info \<noteq> AddrNone" "addrs_wf (addr info)"
  shows "\<exists>n t. tcp_call connect hport info = Ok t \<and> connector_run n connect hport (FutConnect t)
    = Some (Ok (map_result (Pair (request info)) (try_all f (addr_list (addr info)))))"
proof -
  obtain a "as" where a: "addr_list (addr info) = a # as"
    "tcp_call connect hport info = Ok (TcpResponse (Some (request info)) (info_port hport info) (local_addr info)
       (if as = [] then None else Some as) (connect a (local_addr info)))"
    by (rule tcp_call_ok [OF i])
  have "(case f a of Ok sock \<Rightarrow> Ok sock | Err e \<Rightarrow>
      (case (if as = [] then None else Some as) of Some (b # bs) \<Rightarrow> try_all f (b # bs) | _ \<Rightarrow> Err (ConnIo e)))
      = try_all f (a # as)"
    by (cases "as"; cases "f a") simp_all
  with connector_run_tcp [where connect = connect and la = "local_addr info" and f = f and hport = hport
      and stream = "connect a (local_addr info)" and res = "f a" and r = "request info"
      and port = "info_port hport info" and addrs = "if as = [] then None else Some as", OF conn conn] a
  show ?thesis by auto
qed

text \<open>Once the resolver has its answer, the TCP connector starts within the same poll.\<close>

lemma connector_run_resolved:
  assumes conn: "\<And>a. first_ready (connect a (local_addr info)) = Some (f a)"
    and i: "addr info \<noteq> AddrNone" "addrs_wf (addr info)" and r: "resolver_poll rf = (Ok (Ready (Ok info)), rf1)"
  shows "\<exists>n. connector_run n connect hport (FutResolve rf)
    = Some (Ok (map_result (Pair (request info)) (try_all f (addr_list (addr info)))))"
proof -
  obtain n t where t: "tcp_call connect hport info = Ok t" "connector_run n connect hport (FutConnect t)
    = Some (Ok (map_result (Pair (request info)) (try_all f (addr_list (addr info)))))"
    using connector_run_tcp_call [where connect = connect and f = f, OF conn i] by blast
  have "connector_poll connect hport (FutResolve rf) = connector_poll connect hport (FutConnect t)"
    using r t(1) by (simp add: connector_poll_def)
  from connector_run_poll_cong [OF this] t(2) show ?thesis by auto
qed

lemma connector_run_lookup:
  assumes conn: "\<And>a. first_ready (connect a (local_addr info)) = Some (f a)" and o: "first_ready lf = Some res"
  shows "\<exists>n. connector_run n connect hport (FutResolve (LookUp lf (Some info))) = Some (Ok (map_result (Pair (request info))
    (case res of Err e \<Rightarrow> Err e | Ok as \<Rightarrow> (if as = [] then Err NoRecords else try_all f as))))"
  using o
proof (induction lf)
  case (Cons x xs)
  show ?case
  proof (cases x)
    case Pending
    with Cons obtain n where "connector_run n connect hport (FutResolve (LookUp xs (Some info))) = Some (Ok (map_result (Pair (request info))
      (case res of Err e \<Rightarrow> Err e | Ok as \<Rightarrow> (if as = [] then Err NoRecords else try_all f as))))" by auto
    then show ?thesis by (intro exI [of _ "Suc n"]) (simp add: Pending connector_poll_def)
  next
    case (Ready q)
    with Cons.prems have q: "q = res" by simp
    show ?thesis
    proof (cases "\<exists>as. res = Ok as \<and> as \<noteq> []")
      case True
      then obtain "as" where as: "res = Ok as" "as \<noteq> []" by blast
      let ?i = "set_addrs as info"
      have r: "resolver_poll (LookUp (x # xs) (Some info)) = (Ok (Ready (Ok ?i)), LookUp xs None)"
        using Ready q as by (simp add: finish_lookup_def Let_def is_unresolved_def set_addrs_wf)
      have c: "first_ready (connect a (local_addr ?i)) = Some (f a)" for a by (simp add: conn set_addrs_wf)
      from connector_run_resolved [where connect = connect and f = f and info = ?i, OF c _ set_addrs_wf(1) r] as show ?thesis
        by (simp add: set_addrs_wf)
    next
      case False
      then have "finish_lookup res info = Err (case res of Err e \<Rightarrow> e | Ok as \<Rightarrow> NoRecords)"
        by (cases res) (auto simp: finish_lookup_def Let_def is_unresolved_def set_addrs_wf)
      with False show ?thesis
        by (intro exI [of _ 1]) (cases res; auto simp: Ready q connector_poll_def)
    qed
  qed
qed simp

lemma connector_spec:
  assumes conn: "\<And>a la. first_ready (connect a la) = Some (dial la a)"
    and lk: "\<And>h p. first_ready (lookup h p) = Some (lk h p)" and wf: "addrs_wf (addr info)"
  shows "\<exists>n. connector_run n connect hport (connector_call hname hport parse_ip lookup info)
    = Some (Ok (map_result (Pair (request info)) (expected hname hport parse_ip lk dial info)))"
proof (cases "addr info = AddrNone")
  case False
  then have "resolver_poll (resolver_call hname hport parse_ip lookup info) = (Ok (Ready (Ok info)), Resolved None)"
    by (simp add: resolver_call_def is_unresolved_def)
  from connector_run_resolved [where connect = connect and f = "dial (local_addr info)", OF conn False wf this] False show ?thesis
    by (simp add: connector_call_def expected_def Let_def)
next
  case True
  show ?thesis
  proof (cases "parse_ip (hname (request info))")
    case (Some ip)
    let ?i = "set_addr (Some (ip, info_port hport info)) info"
    have r: "resolver_poll (resolver_call hname hport parse_ip lookup info) = (Ok (Ready (Ok ?i)), Resolved None)"
      using True Some by (simp add: resolver_call_def is_unresolved_def)
    have c: "first_ready (connect a (local_addr ?i)) = Some (dial (local_addr info) a)" for a
      by (simp add: conn set_addr_def)
    from connector_run_resolved [where connect = connect and f = "dial (local_addr info)" and info = ?i, OF c _ set_addr_wf r] True Some show ?thesis
      by (simp add: connector_call_def expected_def Let_def set_addr_def addrs_from_def addr_list_def)
  next
    case None
    from connector_run_lookup [where connect = connect and f = "dial (local_addr info)", OF conn lk] True None show ?thesis
      by (simp add: connector_call_def resolver_call_def is_unresolved_def expected_def Let_def)
  qed
qed

section \<open>Host strings\<close>

definition digit_char :: "nat \<Rightarrow> char" where
  "digit_char d = char_of (48 + d)"

fun show_nat :: "nat \<Rightarrow> string" where
  "show_nat n = (if n < 10 then [digit_char n] else show_nat (n div 10) @ [digit_char (n mod 10)])"

declare show_nat.simps [simp del]

lemma digit_digit_char: "d < 10 \<Longrightarrow> digit (digit_char d) = Some d"
  by (simp add: digit_def digit_char_def Let_def)

lemma parse_digits_append:
  "parse_digits acc (xs @ [c]) =
     (case parse_digits acc xs of None \<Rightarrow> None | Some n \<Rightarrow> parse_digits n [c])"
  by (induction acc xs rule: parse_digits.induct) (auto split: option.splits)

lemma parse_show: "n < 65536 \<Longrightarrow> parse_digits 0 (show_nat n) = Some n"
proof (induction n rule: show_nat.induct)
  case (1 n)
  show ?case
  proof (cases "n < 10")
    case True
    then show ?thesis by (subst show_nat.simps) (simp add: digit_digit_char)
  next
    case False
    with 1 have "parse_digits 0 (show_nat (n div 10)) = Some (n div 10)" by simp
    with False 1(2) show ?thesis
      by (subst show_nat.simps) (simp add: parse_digits_append digit_digit_char)
  qed
qed

lemma show_nat_digits: "show_nat n \<noteq> [] \<and> (\<forall>c \<in> set (show_nat n). \<exists>d < 10. c = digit_char d)"
proof (induction n rule: show_nat.induct)
  case (1 n)
  then show ?case
    by (subst (1 2) show_nat.simps) (auto intro: exI [of _ n] exI [of _ "n mod 10"])
qed

lemma digit_char_not: "d < 10 \<Longrightarrow> digit_char d \<noteq> CHR ''+'' \<and> digit_char d \<noteq> CHR '':'' \<and> digit_char d \<noteq> CHR '']''"
proof -
  assume d: "d < 10"
  then have "of_char (digit_char d) = 48 + d" by (simp add: digit_char_def)
  moreover have "of_char CHR ''+'' = (43 :: nat)" "of_char CHR '':'' = (58 :: nat)" "of_char CHR '']'' = (93 :: nat)" by simp_all
  ultimately show ?thesis using d by (auto dest!: arg_cong [of _ _ "of_char :: char \<Rightarrow> nat"])
qed

lemma parse_u16_show: "parse_u16 (show_nat (unat p)) = Some p"
proof -
  obtain c cs where c: "show_nat (unat p) = c # cs" "c \<noteq> CHR ''+''"
    using show_nat_digits [of "unat p"] digit_char_not by (cases "show_nat (unat p)") auto
  have "unat p < 65536" using unsigned_less [of p] by simp
  from parse_show [OF this] c show ?thesis by (simp add: parse_u16_def Let_def)
qed

lemma split_once_append: "c \<notin> set h \<Longrightarrow> split_once c (h @ c # r) = Some (h, r)"
  by (induction h) auto

lemma find_char_append: "c \<notin> set h \<Longrightarrow> find_char c (h @ c # r) = Some (length h)"
  by (induction h) auto

lemma split_host_plain:
  assumes "CHR '':'' \<notin> set h" "take 1 h \<noteq> ''[''"
  shows "split_host (h @ '':'' @ r) = (h, Some r)"
proof -
  have "take 1 (h @ '':'' @ r) \<noteq> ''[''" using assms(2) by (cases h) auto
  then show ?thesis using split_once_append [OF assms(1), of r]
    by (simp add: split_host_def split_colon_def)
qed

lemma split_host_bracket:
  assumes "CHR '']'' \<notin> set h"
  shows "split_host (''['' @ h @ '']:'' @ r) = (''['' @ h @ '']'', Some r)"
proof -
  have "find_char CHR '']'' (''['' @ h @ '']'' @ '':'' @ r) = Some (Suc (length h))"
    using find_char_append [OF assms, of "'':'' @ r"] by simp
  then show ?thesis by (simp add: split_host_def Let_def)
qed

section \<open>Properties\<close>

text \<open>
  C22. The connector: if each connection attempt of the operating system and each DNS lookup eventually
  complete, the connector service completes without a panic, after finitely many polls; it uses the addresses of
  the request if it has some, else the host if it is an IP address, else the lookup's addresses,
  tries them in order, and gives the first socket that connects or the last error, \<open>NoRecords\<close> for
  an empty lookup, and never \<open>Unresolved\<close>.  An attempt goes out from the local address of the request,
  if it has one: a socket of that address's family bound to it, whose errors are those of the attempt.
\<close>

theorem connector_tries_in_order:
  assumes "\<And>a. first_ready (net_stream net a) = Some (f a)" and "\<And>sock a. first_ready (net_connect net sock a) = Some (g sock a)"
    and "\<And>h p. first_ready (lookup h p) = Some (lk h p)" and "addrs_wf (addr info)"
  shows "\<exists>n. connector_run n (tcp_connect net) hport (connector_call hname hport parse_ip lookup info)
    = Some (Ok (map_result (Pair (request info)) (expected hname hport parse_ip lk (dialled net f g) info)))"
  by (rule connector_spec [OF tcp_connect_dials [OF assms(1,2)] assms(3,4)])

text \<open>A network where only address 4 can be connected to, from local address 2 and, by another socket, from
  the one the system picks.\<close>

definition sample_net :: "nat net" where
  "sample_net = \<lparr>net_is_v4 = (\<lambda>ip. True), net_socket = (\<lambda>v4. Ok 7),
     net_bind = (\<lambda>sock a. if a = (2, 0) then Ok () else Err (OtherKind 99)),
     net_connect = (\<lambda>sock a. [Pending, Ready (if fst a = 4 then Ok sock else Err ConnectionRefused)]),
     net_stream = (\<lambda>a. [Pending, Ready (if fst a = 4 then Ok 9 else Err ConnectionRefused)])\<rparr>"

abbreviation sample_run :: "nat option \<Rightarrow> nat \<Rightarrow> (((string \<times> nat), connect_error) result, panic) result option" where
  "sample_run la n \<equiv> connector_run n (tcp_connect sample_net) str_port
      (connector_call str_hostname str_port (\<lambda>h. None)
        (\<lambda>h p. [Pending, Ready (Ok [(3, p), (4, p)])]) ((info_new str_port ''a:80'')\<lparr>local_addr := la\<rparr>))"

theorem connector_tries_in_order_witness:
  "(\<exists>n. sample_run None n = Some (Ok (Ok (''a:80'', 9)))) \<and> (\<exists>n. sample_run (Some 2) n = Some (Ok (Ok (''a:80'', 7))))
   \<and> (\<exists>n. sample_run (Some 1) n = Some (Ok (Err (ConnIo (OtherKind 99)))))"
proof -
  have run: "\<exists>n. sample_run la n = Some (Ok (map_result (Pair ''a:80'') (expected str_hostname str_port (\<lambda>h. None) (\<lambda>h p. Ok [(3, p), (4, p)])
        (dialled sample_net (\<lambda>a. if fst a = 4 then Ok 9 else Err ConnectionRefused)
          (\<lambda>sock a. if fst a = 4 then Ok sock else Err ConnectionRefused))
        ((info_new str_port ''a:80'')\<lparr>local_addr := la\<rparr>))))" for la
    using connector_tries_in_order [where net = sample_net
      and f = "\<lambda>a. if fst a = 4 then Ok 9 else Err ConnectionRefused"
      and g = "\<lambda>sock a. if fst a = 4 then Ok sock else Err ConnectionRefused"
      and lookup = "\<lambda>h p. [Pending, Ready (Ok [(3, p), (4, p)])]" and lk = "\<lambda>h p. Ok [(3, p), (4, p)]"
      and info = "(info_new str_port ''a:80'')\<lparr>local_addr := la\<rparr>" and hport = str_port and hname = str_hostname
      and parse_ip = "\<lambda>h. None"]
    by (simp add: info_new_def addrs_wf_def sample_net_def)
  show ?thesis
    using run [of None] run [of "Some 2"] run [of "Some 1"]
    by (simp add: expected_def Let_def info_new_def sample_net_def dialled_def)
qed

text \<open>
  Host strings: a host and a port joined by a colon are taken apart again, for host names without a
  colon and for IPv6 addresses in brackets, and a bracketed address alone has no port.
\<close>

theorem host_port_roundtrip:
  assumes "CHR '':'' \<notin> set h" and "take 1 h \<noteq> ''[''" and "CHR '']'' \<notin> set v6"
  shows "str_hostname (h @ '':'' @ show_nat (unat p)) = h \<and> str_port (h @ '':'' @ show_nat (unat p)) = Some p
    \<and> str_hostname h = h \<and> str_port h = None
    \<and> str_hostname (''['' @ v6 @ '']:'' @ show_nat (unat p)) = ''['' @ v6 @ '']''
    \<and> str_port (''['' @ v6 @ '']:'' @ show_nat (unat p)) = Some p
    \<and> str_hostname (''['' @ v6 @ '']'') = ''['' @ v6 @ '']'' \<and> str_port (''['' @ v6 @ '']'') = None"
proof -
  have n: "split_once CHR '':'' h = None" using assms(1) by (induction h) auto
  have "find_char CHR '']'' (''['' @ v6 @ '']'' @ []) = Some (Suc (length v6))"
    using find_char_append [OF assms(3), of "[]"] by simp
  then have "split_host (''['' @ v6 @ '']'') = (''['' @ v6 @ '']'', None)"
    by (simp add: split_host_def Let_def)
  with n assms split_host_plain [OF assms(1,2)] split_host_bracket [OF assms(3)] parse_u16_show
  show ?thesis
    by (simp add: str_hostname_def str_port_def split_host_def split_colon_def)
qed

theorem host_port_roundtrip_witness:
  "str_hostname (''[::1]:'' @ show_nat (unat (8080 :: u16))) = ''[::1]'' \<and>
   str_port (''[::1]:'' @ show_nat (unat (8080 :: u16))) = Some 8080"
  using host_port_roundtrip [of "''localhost''" "''::1''" 8080] by simp

text \<open>
  \<open>set_port\<close> does not override a port that the request provides: \<open>port\<close> prefers the request's own
  port, so for such a request the value set is never used, and for the others it always is.
\<close>

theorem set_port_prefers_request:
  "info_port hport (set_port p info) = (case hport (request info) of Some q \<Rightarrow> q | None \<Rightarrow> p)"
  by (simp add: info_port_def set_port_def split: option.split)

end
