(* ===== verification/Tls_Client.thy ===== *)
theory Tls_Client
  imports Service Tls_Connect
begin

text \<open>
  \<open>actix-tls/src/connect\<close>: connections, the connector of \<open>Tls_Connect\<close> as a service, and the TLS
  connector services on top of it: rustls (\<open>rustls_0_20.rs\<close>, and \<open>rustls_0_21.rs\<close> to \<open>rustls_0_23.rs\<close>,
  which differ in the error for a bad server name), \<open>openssl.rs\<close> and \<open>native_tls.rs\<close>.  The TLS
  libraries are parameters: the parser of server names, and the handshake future of a host and a
  stream as the list of its answers.  The theory composes connector and TLS connector into the client
  stack with \<open>and_then\<close>.
\<close>

section \<open>Connections\<close>

text \<open>\<open>Connection\<close>: the request and the I/O object.\<close>

type_synonym ('r, 'io) connection = "'r \<times> 'io"

definition connection_new :: "'r \<Rightarrow> 'io \<Rightarrow> ('r, 'io) connection" where
  "connection_new req io = (req, io)"

definition connection_into_parts :: "('r, 'io) connection \<Rightarrow> 'io \<times> 'r" where
  "connection_into_parts c = (snd c, fst c)"

definition replace_io :: "'io2 \<Rightarrow> ('r, 'io) connection \<Rightarrow> 'io \<times> ('r, 'io2) connection" where
  "replace_io io c = (snd c, (fst c, io))"

definition connection_hostname :: "('r \<Rightarrow> string) \<Rightarrow> ('r, 'io) connection \<Rightarrow> string" where
  "connection_hostname hname c = hname (fst c)"

section \<open>The connector as a service\<close>

definition connector_service ::
  "('r \<Rightarrow> string) \<Rightarrow> ('r \<Rightarrow> u16 option) \<Rightarrow> (string \<Rightarrow> 'ip option) \<Rightarrow> (string \<Rightarrow> u16 \<Rightarrow> 'ip lookup_fut) \<Rightarrow>
   ('ip sockaddr \<Rightarrow> 'ip option \<Rightarrow> stream_fut) \<Rightarrow>
   ('s, ('r, 'ip) connect_info, ('r, nat) connection, connect_error, ('r, 'ip) connect_fut) service" where
  "connector_service hname hport parse_ip lookup connect =
     \<lparr>ready_fn = (\<lambda>s. (Ready (Ok ()), s)),
      call_fn = (\<lambda>info s. (connector_call hname hport parse_ip lookup info, s)),
      poll_fn = (\<lambda>f s. case connector_poll connect hport f of (r, f1) \<Rightarrow> (r, f1, s))\<rparr>"

section \<open>TLS connectors\<close>

datatype ('r, 't) rustls_fut =
  InvalidServerName
| Handshake "('t, io_error) result poll list" "('r, unit) connection option"

definition rustls_call ::
  "('r \<Rightarrow> string) \<Rightarrow> (string \<Rightarrow> 'name option) \<Rightarrow> ('name \<Rightarrow> 'io \<Rightarrow> ('t, io_error) result poll list) \<Rightarrow>
   ('r, 'io) connection \<Rightarrow> ('r, 't) rustls_fut" where
  "rustls_call hname server_name connect c =
     (case replace_io () c of
        (stream, conn) \<Rightarrow>
          (case server_name (connection_hostname hname conn) of
             Some host \<Rightarrow> Handshake (connect host stream) (Some conn)
           | None \<Rightarrow> InvalidServerName))"

text \<open>\<open>name_error\<close> is the kind of error for a name rustls refuses.\<close>

definition rustls_poll ::
  "io_error \<Rightarrow> ('r, 't) rustls_fut \<Rightarrow> ((('r, 't) connection, io_error) result poll, panic) result \<times> ('r, 't) rustls_fut" where
  "rustls_poll name_error fut =
     (case fut of
        InvalidServerName \<Rightarrow> (Ok (Ready (Err name_error)), InvalidServerName)
      | Handshake f conn \<Rightarrow>
          (case next_answer f of
             (Pending, f1) \<Rightarrow> (Ok Pending, Handshake f1 conn)
           | (Ready (Err e), f1) \<Rightarrow> (Ok (Ready (Err e)), Handshake f1 conn)
           | (Ready (Ok stream), f1) \<Rightarrow>
               (case conn of
                  None \<Rightarrow> (Err UnwrapNone, Handshake f1 None)
                | Some c \<Rightarrow> (Ok (Ready (Ok (snd (replace_io stream c)))), Handshake f1 None))))"

definition rustls_service ::
  "io_error \<Rightarrow> ('r \<Rightarrow> string) \<Rightarrow> (string \<Rightarrow> 'name option) \<Rightarrow> ('name \<Rightarrow> 'io \<Rightarrow> ('t, io_error) result poll list) \<Rightarrow>
   ('s, ('r, 'io) connection, ('r, 't) connection, io_error, ('r, 't) rustls_fut) service" where
  "rustls_service name_error hname server_name connect =
     \<lparr>ready_fn = (\<lambda>s. (Ready (Ok ()), s)),
      call_fn = (\<lambda>c s. (rustls_call hname server_name connect c, s)),
      poll_fn = (\<lambda>f s. case rustls_poll name_error f of (r, f1) \<Rightarrow> (r, f1, s))\<rparr>"

definition rustls_0_23_service ::
  "('r \<Rightarrow> string) \<Rightarrow> (string \<Rightarrow> 'name option) \<Rightarrow> ('name \<Rightarrow> 'io \<Rightarrow> ('t, io_error) result poll list) \<Rightarrow>
   ('s, ('r, 'io) connection, ('r, 't) connection, io_error, ('r, 't) rustls_fut) service" where
  "rustls_0_23_service = rustls_service InvalidInput"

definition rustls_0_20_service ::
  "('r \<Rightarrow> string) \<Rightarrow> (string \<Rightarrow> 'name option) \<Rightarrow> ('name \<Rightarrow> 'io \<Rightarrow> ('t, io_error) result poll list) \<Rightarrow>
   ('s, ('r, 'io) connection, ('r, 't) connection, io_error, ('r, 't) rustls_fut) service" where
  "rustls_0_20_service = rustls_service (OtherKind 0)"

text \<open>openssl: a configuration error, a host the library refuses or a failure to create the stream is
  a panic of \<open>call\<close>; \<open>into_ssl\<close> and \<open>new_stream\<close> are the library's functions.\<close>

record ('r, 'io) openssl_fut =
  ossl_io :: "'io option"
  ossl_stream :: "('r, unit) connection option"

definition openssl_call ::
  "('r \<Rightarrow> string) \<Rightarrow> ('cfg, unit) result \<Rightarrow> ('cfg \<Rightarrow> string \<Rightarrow> ('ssl, unit) result) \<Rightarrow>
   ('ssl \<Rightarrow> 'io \<Rightarrow> ('t, unit) result) \<Rightarrow> ('r, 'io) connection \<Rightarrow> (('r, 't) openssl_fut, panic) result" where
  "openssl_call hname configure into_ssl new_stream c =
     (case replace_io () c of
        (io, stream) \<Rightarrow>
          (let host = connection_hostname hname stream in
           case configure of
             Err u \<Rightarrow> Err ExplicitPanic
           | Ok config \<Rightarrow>
               (case into_ssl config host of
                  Err u \<Rightarrow> Err ExplicitPanic
                | Ok ssl \<Rightarrow>
                    (case new_stream ssl io of
                       Err u \<Rightarrow> Err ExplicitPanic
                     | Ok t \<Rightarrow> Ok \<lparr>ossl_io = Some t, ossl_stream = Some stream\<rparr>))))"

text \<open>\<open>poll_connect\<close> of the stream gives an answer and the stream after it.\<close>

definition openssl_poll ::
  "('t \<Rightarrow> (unit, unit) result poll \<times> 't) \<Rightarrow> ('r, 't) openssl_fut \<Rightarrow>
   ((('r, 't) connection, io_error) result poll, panic) result \<times> ('r, 't) openssl_fut" where
  "openssl_poll poll_connect fut =
     (case ossl_io fut of
        None \<Rightarrow> (Err UnwrapNone, fut)
      | Some t \<Rightarrow>
          (case poll_connect t of
             (Pending, t1) \<Rightarrow> (Ok Pending, fut\<lparr>ossl_io := Some t1\<rparr>)
           | (Ready (Err u), t1) \<Rightarrow> (Ok (Ready (Err (OtherKind 0))), fut\<lparr>ossl_io := Some t1\<rparr>)
           | (Ready (Ok u), t1) \<Rightarrow>
               (case ossl_stream fut of
                  None \<Rightarrow> (Err UnwrapNone, fut\<lparr>ossl_io := Some t1\<rparr>)
                | Some stream \<Rightarrow>
                    (Ok (Ready (Ok (snd (replace_io t1 stream)))), \<lparr>ossl_io = None, ossl_stream = None\<rparr>))))"

text \<open>native-tls: an \<open>async\<close> block that owns the handshake and the connection.\<close>

datatype ('r, 't) native_fut = NativeConnect "('t, unit) result poll list" "('r, unit) connection" | NativeDone

definition native_call ::
  "('r \<Rightarrow> string) \<Rightarrow> (string \<Rightarrow> 'io \<Rightarrow> ('t, unit) result poll list) \<Rightarrow> ('r, 'io) connection \<Rightarrow> ('r, 't) native_fut" where
  "native_call hname connect c =
     (case replace_io () c of
        (io, stream) \<Rightarrow> NativeConnect (connect (connection_hostname hname stream) io) stream)"

definition native_poll ::
  "('r, 't) native_fut \<Rightarrow> ((('r, 't) connection, io_error) result poll, panic) result \<times> ('r, 't) native_fut" where
  "native_poll fut =
     (case fut of
        NativeDone \<Rightarrow> (Err ExplicitPanic, NativeDone)
      | NativeConnect f stream \<Rightarrow>
          (case next_answer f of
             (Pending, f1) \<Rightarrow> (Ok Pending, NativeConnect f1 stream)
           | (Ready r, f1) \<Rightarrow>
               (Ok (Ready (map_err_result (\<lambda>u. OtherKind 0) (map_result (\<lambda>res. snd (replace_io res stream)) r))), NativeDone)))"

definition native_service ::
  "('r \<Rightarrow> string) \<Rightarrow> (string \<Rightarrow> 'io \<Rightarrow> ('t, unit) result poll list) \<Rightarrow>
   ('s, ('r, 'io) connection, ('r, 't) connection, io_error, ('r, 't) native_fut) service" where
  "native_service hname connect =
     \<lparr>ready_fn = (\<lambda>s. (Ready (Ok ()), s)),
      call_fn = (\<lambda>c s. (native_call hname connect c, s)),
      poll_fn = (\<lambda>f s. case native_poll f of (r, f1) \<Rightarrow> (r, f1, s))\<rparr>"

section \<open>Contracts\<close>

lemma connector_settles:
  "connector_run n connect hport f = Some (Ok r) \<Longrightarrow>
   settles (\<lambda>f s. case connector_poll connect hport f of (r, f1) \<Rightarrow> (r, f1, s)) good (\<lambda>x. x = r) f"
proof (induction n arbitrary: f)
  case (Suc n)
  then show ?case
    by (intro settlesI) (auto split: prod.splits result.splits poll.splits)
qed simp

lemma connector_meets:
  assumes "\<And>a la. first_ready (connect a la) = Some (dial la a)" "\<And>h p. first_ready (lookup h p) = Some (lk h p)"
  shows "meets (connector_service hname hport parse_ip lookup connect) good (\<lambda>i. addrs_wf (addr i))
     (\<lambda>i r. r = map_result (Pair (request i)) (expected hname hport parse_ip lk dial i))"
proof (rule meetsI, goal_cases)
  case (1 i s fut s1)
  from connector_spec [where connect = connect and dial = dial and lookup = lookup and lk = lk and info = i
      and hname = hname and hport = hport and parse_ip = parse_ip, OF assms 1(2)] obtain n where
    "connector_run n connect hport (connector_call hname hport parse_ip lookup i)
     = Some (Ok (map_result (Pair (request i)) (expected hname hport parse_ip lk dial i)))" by blast
  from connector_settles [OF this] 1 show ?case by (simp add: connector_service_def)
qed

text \<open>What a TLS connector answers, over what the handshakes end with.\<close>

definition rustls_expected ::
  "io_error \<Rightarrow> ('r \<Rightarrow> string) \<Rightarrow> (string \<Rightarrow> 'name option) \<Rightarrow> ('name \<Rightarrow> 'io \<Rightarrow> ('t, io_error) result) \<Rightarrow>
   ('r, 'io) connection \<Rightarrow> (('r, 't) connection, io_error) result" where
  "rustls_expected name_error hname server_name h c =
     (case server_name (hname (fst c)) of None \<Rightarrow> Err name_error | Some n \<Rightarrow> map_result (Pair (fst c)) (h n (snd c)))"

lemma rustls_settles:
  "first_ready f = Some r \<Longrightarrow>
   settles (\<lambda>f s. case rustls_poll e f of (r, f1) \<Rightarrow> (r, f1, s)) good (\<lambda>x. x = map_result (Pair (fst c)) r) (Handshake f (Some c))"
proof (induction f)
  case (Cons a f)
  then show ?case
    by (intro settlesI)
      (cases a; cases r; auto simp: rustls_poll_def next_answer_def replace_io_def split: prod.splits)
qed simp

lemma rustls_meets:
  assumes "\<And>n io. first_ready (connect n io) = Some (h n io)"
  shows "meets (rustls_service e hname server_name connect) good (\<lambda>c. True)
     (\<lambda>c r. r = rustls_expected e hname server_name h c)"
proof (rule meetsI, goal_cases)
  case (1 c s fut s1)
  show ?case
  proof (cases "server_name (hname (fst c))")
    case None
    then have "settles (\<lambda>f s. case rustls_poll e f of (r, f1) \<Rightarrow> (r, f1, s)) good (\<lambda>r. r = rustls_expected e hname server_name h c) InvalidServerName"
      by (intro settlesI) (simp add: rustls_poll_def rustls_expected_def)
    with 1 None show ?thesis
      by (simp add: rustls_service_def rustls_call_def replace_io_def connection_hostname_def)
  next
    case (Some n)
    from rustls_settles [OF assms, of e good "(fst c, ())" n "snd c"] 1 Some show ?thesis
      by (simp add: rustls_service_def rustls_call_def rustls_expected_def replace_io_def connection_hostname_def)
  qed
qed

lemma native_settles:
  "first_ready f = Some r \<Longrightarrow>
   settles (\<lambda>f s. case native_poll f of (r, f1) \<Rightarrow> (r, f1, s)) good
     (\<lambda>x. x = map_err_result (\<lambda>u. OtherKind 0) (map_result (Pair (fst c)) r)) (NativeConnect f c)"
proof (induction f)
  case (Cons a f)
  then show ?case
    by (intro settlesI)
      (cases a; cases r; auto simp: native_poll_def next_answer_def replace_io_def split: prod.splits)
qed simp

lemma native_meets:
  assumes "\<And>n io. first_ready (connect n io) = Some (h n io)"
  shows "meets (native_service hname connect) good (\<lambda>c. True)
     (\<lambda>c r. r = map_err_result (\<lambda>u. OtherKind 0) (map_result (Pair (fst c)) (h (hname (fst c)) (snd c))))"
proof (rule meetsI, goal_cases)
  case (1 c s fut s1)
  with native_settles [OF assms, of good "(fst c, ())" "hname (fst c)" "snd c"] show ?case
    by (simp add: native_service_def native_call_def replace_io_def connection_hostname_def)
qed

text \<open>An openssl handshake that settles gives the connection of its request, or an error.\<close>

lemma openssl_settles:
  assumes "settles (\<lambda>t s. case poll_connect t of (a, t1) \<Rightarrow> (Ok a, t1, s)) (\<lambda>s. True) post t"
  shows "settles (\<lambda>f s. case openssl_poll poll_connect f of (r, f1) \<Rightarrow> (r, f1, s)) good
     (\<lambda>x. (post (Ok ()) \<and> (\<exists>t1. x = Ok (fst c, t1))) \<or> (post (Err ()) \<and> x = Err (OtherKind 0)))
     \<lparr>ossl_io = Some t, ossl_stream = Some c\<rparr>"
  using assms
proof induction
  case (settlesI t)
  obtain a t1 where a: "poll_connect t = (a, t1)" by (cases "poll_connect t")
  show ?case
    by (rule settles.settlesI)
      (use a settlesI.IH [of _ "Ok a" t1] in
        \<open>auto simp: openssl_poll_def replace_io_def split: prod.splits poll.splits result.splits\<close>)
qed

section \<open>The client stack\<close>

text \<open>
  A client chains the connector and a TLS connector, both with their errors mapped into one type.
\<close>

definition tls_client ::
  "(connect_error \<Rightarrow> 'e) \<Rightarrow> ('s, 'q, 'c, connect_error, 'f) service \<Rightarrow>
   (io_error \<Rightarrow> 'e) \<Rightarrow> ('s, 'c, 't, io_error, 'g) service \<Rightarrow> ('s, 'q, 't, 'e, ('f, 'g) chain_fut) service" where
  "tls_client k1 connector k2 tls = and_then (map_err_service k1 connector) (map_err_service k2 tls)"

definition client_expected ::
  "(connect_error \<Rightarrow> 'e) \<Rightarrow> (io_error \<Rightarrow> 'e) \<Rightarrow> (('r, 'ip) connect_info \<Rightarrow> (nat, connect_error) result) \<Rightarrow>
   (('r, nat) connection \<Rightarrow> (('r, 't) connection, io_error) result) \<Rightarrow>
   ('r, 'ip) connect_info \<Rightarrow> (('r, 't) connection, 'e) result" where
  "client_expected k1 k2 conn tls i =
     (case conn i of Err e \<Rightarrow> Err (k1 e) | Ok io \<Rightarrow> map_err_result k2 (tls (connection_new (request i) io)))"

interpretation conn: service_contract
  "connector_service hname hport parse_ip (\<lambda>h p. completing (d h p) (lk h p)) (\<lambda>a la. completing (w la a) (dial la a))"
  good "\<lambda>i. addrs_wf (addr i)"
  "\<lambda>i r. r = map_result (Pair (request i)) (expected hname hport parse_ip lk dial i)"
  for hname hport parse_ip d lk w dial good
  by unfold_locales (rule connector_meets; simp)

interpretation rustls: service_contract
  "rustls_service e hname server_name (\<lambda>n io. completing (d n io) (h n io))" good "\<lambda>c. True"
  "\<lambda>c r. r = rustls_expected e hname server_name h c"
  for e hname server_name d h good
  by unfold_locales (rule rustls_meets; simp)

interpretation native: service_contract
  "native_service hname (\<lambda>n io. completing (d n io) (h n io))" good "\<lambda>c. True"
  "\<lambda>c r. r = map_err_result (\<lambda>u. OtherKind 0) (map_result (Pair (fst c)) (h (hname (fst c)) (snd c)))"
  for hname d h good
  by unfold_locales (rule native_meets; simp)

interpretation client: service_pair
  "map_err_service k1 (connector_service hname hport parse_ip (\<lambda>h p. completing (d h p) (lk h p)) (\<lambda>a la. completing (w la a) (dial la a)))"
  "map_err_service k2 (rustls_service e hname server_name (\<lambda>n io. completing (d2 n io) (h n io)))"
  good "\<lambda>i. addrs_wf (addr i)"
  "\<lambda>i r. \<exists>x. x = map_result (Pair (request i)) (expected hname hport parse_ip lk dial i) \<and> r = map_err_result k1 x"
  "\<lambda>c. True" "\<lambda>c r. \<exists>x. x = rustls_expected e hname server_name h c \<and> r = map_err_result k2 x"
  for k1 hname hport parse_ip d lk w dial k2 e server_name d2 h good
  by unfold_locales (rule conn.map_err_meets, rule rustls.map_err_meets, simp)

text \<open>
  The client stack.  However long the look-up, each connection attempt and the handshake stay
  pending, a call of connector then rustls completes without a panic, and with the composed result: an
  error of the connector mapped by its map, without a handshake; else the handshake on the first stream
  that connected, for the server name of the request's host (an error of the given kind where the name
  is refused), mapped by the other.  The connection keeps the request.\<close>

theorem tls_client_stack:
  assumes "addrs_wf (addr i)"
  shows "\<exists>n. run_call
       (tls_client k1 (connector_service hname hport parse_ip (\<lambda>h p. completing (d h p) (lk h p)) (\<lambda>a la. completing (w la a) (dial la a)))
                   k2 (rustls_service e hname server_name (\<lambda>n io. completing (d2 n io) (h n io)))) n i s
     = Some (Ok (client_expected k1 k2 (expected hname hport parse_ip lk dial) (rustls_expected e hname server_name h) i), s)"
  using client.both.completes [where good = "\<lambda>s'. s' = s" and s = s and ?k1.0 = k1 and ?k2.0 = k2 and q = i
      and hname = hname and hport = hport and parse_ip = parse_ip and d = d and lk = lk and w = w and dial = dial
      and e = e and server_name = server_name and ?d2.0 = d2 and h = h, OF refl assms]
  by (fastforce simp: tls_client_def client_expected_def connection_new_def and_then_post_def split: result.splits)

theorem tls_client_stack_witness:
  "\<exists>n. run_call
       (tls_client (\<lambda>e. e = NoRecords) (connector_service str_hostname str_port (\<lambda>h. None) (\<lambda>h p. completing 2 (Ok [(3 :: nat, p), (4, p)]))
           (\<lambda>a la. completing 1 (if fst a = 4 then Ok 9 else Err ConnectionRefused)))
         (\<lambda>e. False) (rustls_service InvalidInput str_hostname (\<lambda>h. if h = [] then None else Some h) (\<lambda>n io. completing 3 (Ok (n, io))))) n
       (info_new str_port ''a:80'') True
     = Some (Ok (Ok (''a:80'', ''a'', 9)), True)"
proof -
  have h: "str_hostname ''a:80'' = ''a''" by code_simp
  show ?thesis
    using tls_client_stack [where ?k1.0 = "\<lambda>e. e = NoRecords" and ?k2.0 = "\<lambda>e. False" and e = InvalidInput
        and hname = str_hostname and hport = str_port and parse_ip = "\<lambda>h. None" and d = "\<lambda>h p. 2"
        and lk = "\<lambda>h p. Ok [(3 :: nat, p), (4, p)]" and w = "\<lambda>la a. 1" and dial = "\<lambda>la a. if fst a = 4 then Ok 9 else Err ConnectionRefused"
        and server_name = "\<lambda>h. if h = [] then None else Some h" and ?d2.0 = "\<lambda>n io. 3" and h = "\<lambda>n io. Ok (n, io)"
        and i = "info_new str_port ''a:80''" and s = True]
    by (simp add: client_expected_def rustls_expected_def expected_def info_new_def addrs_wf_def connection_new_def h)
qed

end
