(* ===== verification/Tls_Client_Factory.thy ===== *)
theory Tls_Client_Factory
  imports Tls_Client Pipeline
begin

text \<open>
  The factories of \<open>actix-tls/src/connect\<close>: \<open>Resolver\<close> with its two kinds, \<open>TcpConnector\<close>, \<open>Connector\<close>,
  and the \<open>TlsConnector\<close>s.  The resolver and the TCP connector are services too, and the connector is
  shown to be the chain of the two, poll for poll.  The theory then builds the client stack from
  factories and runs it.
\<close>

section \<open>Resolver\<close>

text \<open>\<open>ResolverKind\<close>; a custom resolver is its \<open>lookup\<close> (\<open>resolve.rs\<close>), whose boxed errors are numbers.\<close>

datatype 'ip resolver_kind =
  ResolverDefault
| ResolverCustom "string \<Rightarrow> u16 \<Rightarrow> ('ip sockaddr list, nat) result poll list"

text \<open>The blocking look-up of the standard library, run in a thread: its result, or the error of the
  join, as an I/O error.\<close>

type_synonym 'ip dns = "string \<Rightarrow> (('ip sockaddr list, nat) result, io_error) result poll list"

definition default_lookup :: "'ip dns \<Rightarrow> string \<Rightarrow> u16 \<Rightarrow> (('ip sockaddr list, nat) result, io_error) result poll list" where
  "default_lookup dns host port = dns (host @ '':'' @ show_nat (unat port))"

definition join_answer ::
  "(('ip sockaddr list, nat) result, io_error) result \<Rightarrow> ('ip sockaddr list, connect_error) result" where
  "join_answer r =
     (case r of
        Ok (Ok res) \<Rightarrow> Ok res
      | Ok (Err err) \<Rightarrow> Err (ResolverError err)
      | Err err \<Rightarrow> Err (ConnIo err))"

definition kind_lookup :: "'ip dns \<Rightarrow> 'ip resolver_kind \<Rightarrow> string \<Rightarrow> u16 \<Rightarrow> 'ip lookup_fut" where
  "kind_lookup dns kind host port =
     (case kind of
        ResolverDefault \<Rightarrow>
          map (\<lambda>p. case p of Pending \<Rightarrow> Pending | Ready r \<Rightarrow> Ready (join_answer r)) (default_lookup dns host port)
      | ResolverCustom lookup \<Rightarrow> map (poll_map_err ResolverError) (lookup host port))"

definition resolver_service ::
  "('r \<Rightarrow> string) \<Rightarrow> ('r \<Rightarrow> u16 option) \<Rightarrow> (string \<Rightarrow> 'ip option) \<Rightarrow> 'ip dns \<Rightarrow> 'ip resolver_kind \<Rightarrow>
   ('s, ('r, 'ip) connect_info, ('r, 'ip) connect_info, connect_error, ('r, 'ip) resolver_fut) service" where
  "resolver_service hname hport parse_ip dns kind =
     \<lparr>ready_fn = (\<lambda>s. (Ready (Ok ()), s)),
      call_fn = (\<lambda>req s. (resolver_call hname hport parse_ip (kind_lookup dns kind) req, s)),
      poll_fn = (\<lambda>f s. case resolver_poll f of (r, f1) \<Rightarrow> (r, f1, s))\<rparr>"

section \<open>TCP connector and TLS connectors as services\<close>

text \<open>A call that panics has no future: the panic is what its place in the chain answers.\<close>

definition tcp_service ::
  "('r \<Rightarrow> u16 option) \<Rightarrow> ('ip sockaddr \<Rightarrow> 'ip option \<Rightarrow> stream_fut) \<Rightarrow>
   ('s, ('r, 'ip) connect_info, ('r, nat) connection, connect_error, (('r, 'ip) tcp_fut, panic) result) service" where
  "tcp_service hport connect =
     \<lparr>ready_fn = (\<lambda>s. (Ready (Ok ()), s)),
      call_fn = (\<lambda>req s. (tcp_call connect hport req, s)),
      poll_fn = (\<lambda>f s. case f of
          Err p \<Rightarrow> (Err p, Err p, s)
        | Ok t \<Rightarrow> (case tcp_poll connect t of (r, t1) \<Rightarrow> (r, Ok t1, s)))\<rparr>"

definition openssl_service ::
  "('r \<Rightarrow> string) \<Rightarrow> ('cfg, unit) result \<Rightarrow> ('cfg \<Rightarrow> string \<Rightarrow> ('ssl, unit) result) \<Rightarrow>
   ('ssl \<Rightarrow> 'io \<Rightarrow> ('t, unit) result) \<Rightarrow> ('t \<Rightarrow> (unit, unit) result poll \<times> 't) \<Rightarrow>
   ('s, ('r, 'io) connection, ('r, 't) connection, io_error, (('r, 't) openssl_fut, panic) result) service" where
  "openssl_service hname configure into_ssl new_stream poll_connect =
     \<lparr>ready_fn = (\<lambda>s. (Ready (Ok ()), s)),
      call_fn = (\<lambda>c s. (openssl_call hname configure into_ssl new_stream c, s)),
      poll_fn = (\<lambda>f s. case f of
          Err p \<Rightarrow> (Err p, Err p, s)
        | Ok t \<Rightarrow> (case openssl_poll poll_connect t of (r, t1) \<Rightarrow> (r, Ok t1, s)))\<rparr>"

definition rustls_0_21_service ::
  "('r \<Rightarrow> string) \<Rightarrow> (string \<Rightarrow> 'name option) \<Rightarrow> ('name \<Rightarrow> 'io \<Rightarrow> ('t, io_error) result poll list) \<Rightarrow>
   ('s, ('r, 'io) connection, ('r, 't) connection, io_error, ('r, 't) rustls_fut) service" where
  "rustls_0_21_service = rustls_service InvalidInput"

section \<open>Factories\<close>

text \<open>Their \<open>new_service\<close> gives a \<open>Ready\<close> future with a clone of the service.\<close>

type_synonym ('s, 'svc) ready_factory = "('s, unit, 'svc, unit, ('svc, unit) result option) factory"

definition ready_factory :: "'svc \<Rightarrow> ('s, 'svc) ready_factory" where
  "ready_factory svc = \<lparr>new_fn = (\<lambda>cfg s. (Some (Ok svc), s)), init_fn = ready_poll\<rparr>"

definition resolver_factory ::
  "('r \<Rightarrow> string) \<Rightarrow> ('r \<Rightarrow> u16 option) \<Rightarrow> (string \<Rightarrow> 'ip option) \<Rightarrow> 'ip dns \<Rightarrow> 'ip resolver_kind \<Rightarrow>
   ('s, ('s, ('r, 'ip) connect_info, ('r, 'ip) connect_info, connect_error, ('r, 'ip) resolver_fut) service) ready_factory" where
  "resolver_factory hname hport parse_ip dns kind = ready_factory (resolver_service hname hport parse_ip dns kind)"

definition tcp_factory ::
  "('r \<Rightarrow> u16 option) \<Rightarrow> ('ip sockaddr \<Rightarrow> 'ip option \<Rightarrow> stream_fut) \<Rightarrow>
   ('s, ('s, ('r, 'ip) connect_info, ('r, nat) connection, connect_error, (('r, 'ip) tcp_fut, panic) result) service) ready_factory" where
  "tcp_factory hport connect = ready_factory (tcp_service hport connect)"

definition connector_factory ::
  "('r \<Rightarrow> string) \<Rightarrow> ('r \<Rightarrow> u16 option) \<Rightarrow> (string \<Rightarrow> 'ip option) \<Rightarrow> 'ip dns \<Rightarrow> 'ip resolver_kind \<Rightarrow>
   ('ip sockaddr \<Rightarrow> 'ip option \<Rightarrow> stream_fut) \<Rightarrow>
   ('s, ('s, ('r, 'ip) connect_info, ('r, nat) connection, connect_error, ('r, 'ip) connect_fut) service) ready_factory" where
  "connector_factory hname hport parse_ip dns kind connect =
     ready_factory (connector_service hname hport parse_ip (kind_lookup dns kind) connect)"

type_synonym ('s, 'r, 'io, 'name, 't) rustls_factory =
  "('r \<Rightarrow> string) \<Rightarrow> (string \<Rightarrow> 'name option) \<Rightarrow> ('name \<Rightarrow> 'io \<Rightarrow> ('t, io_error) result poll list) \<Rightarrow>
   ('s, ('s, ('r, 'io) connection, ('r, 't) connection, io_error, ('r, 't) rustls_fut) service) ready_factory"

definition rustls_0_20_factory :: "('s, 'r, 'io, 'name, 't) rustls_factory" where
  "rustls_0_20_factory hname server_name connect = ready_factory (rustls_0_20_service hname server_name connect)"

definition rustls_0_21_factory :: "('s, 'r, 'io, 'name, 't) rustls_factory" where
  "rustls_0_21_factory hname server_name connect = ready_factory (rustls_0_21_service hname server_name connect)"

definition rustls_0_22_factory :: "('s, 'r, 'io, 'name, 't) rustls_factory" where
  "rustls_0_22_factory hname server_name connect = ready_factory (rustls_service InvalidInput hname server_name connect)"

definition rustls_0_23_factory :: "('s, 'r, 'io, 'name, 't) rustls_factory" where
  "rustls_0_23_factory hname server_name connect = ready_factory (rustls_0_23_service hname server_name connect)"

definition openssl_factory ::
  "('r \<Rightarrow> string) \<Rightarrow> ('cfg, unit) result \<Rightarrow> ('cfg \<Rightarrow> string \<Rightarrow> ('ssl, unit) result) \<Rightarrow>
   ('ssl \<Rightarrow> 'io \<Rightarrow> ('t, unit) result) \<Rightarrow> ('t \<Rightarrow> (unit, unit) result poll \<times> 't) \<Rightarrow>
   ('s, ('s, ('r, 'io) connection, ('r, 't) connection, io_error, (('r, 't) openssl_fut, panic) result) service) ready_factory" where
  "openssl_factory hname configure into_ssl new_stream poll_connect =
     ready_factory (openssl_service hname configure into_ssl new_stream poll_connect)"

definition native_factory ::
  "('r \<Rightarrow> string) \<Rightarrow> (string \<Rightarrow> 'io \<Rightarrow> ('t, unit) result poll list) \<Rightarrow>
   ('s, ('s, ('r, 'io) connection, ('r, 't) connection, io_error, ('r, 't) native_fut) service) ready_factory" where
  "native_factory hname connect = ready_factory (native_service hname connect)"

lemma ready_factory_builds: "builds (ready_factory svc) good cfg (\<lambda>r. r = Ok svc)"
  by (rule buildsI) (auto simp: ready_factory_def intro: settles_ready)

interpretation ready: factory_contract "ready_factory svc" good cfg "\<lambda>r. r = Ok svc" for svc good cfg
  by unfold_locales (rule ready_factory_builds)

section \<open>The connector is the resolver and then the TCP connector\<close>

abbreviation resolve_then_connect ::
  "('r \<Rightarrow> string) \<Rightarrow> ('r \<Rightarrow> u16 option) \<Rightarrow> (string \<Rightarrow> 'ip option) \<Rightarrow> 'ip dns \<Rightarrow> 'ip resolver_kind \<Rightarrow>
   ('ip sockaddr \<Rightarrow> 'ip option \<Rightarrow> stream_fut) \<Rightarrow>
   ('s, ('r, 'ip) connect_info, ('r, nat) connection, connect_error,
      (('r, 'ip) resolver_fut, (('r, 'ip) tcp_fut, panic) result) chain_fut) service" where
  "resolve_then_connect hname hport parse_ip dns kind connect \<equiv>
     and_then (resolver_service hname hport parse_ip dns kind) (tcp_service hport connect)"

lemma connect_run_eq:
  "run_fut (\<lambda>f s. case connector_poll connect hport f of (r, f1) \<Rightarrow> (r, f1, s)) n (FutConnect t) s
     = run_fut (and_then_poll a (tcp_service hport connect)) n (ChainB (Ok t)) s"
proof (induction n arbitrary: t)
  case (Suc n)
  obtain r t1 where t: "tcp_poll connect t = (r, t1)" by (cases "tcp_poll connect t")
  have c: "connector_poll connect hport (FutConnect t) = (r, FutConnect t1)"
    and p: "poll_fn (tcp_service hport connect) (Ok t) s = (r, Ok t1, s)" for s
    by (simp_all add: connector_poll_def tcp_service_def t)
  show ?case by (simp add: c p Suc.IH split: result.split poll.split)
qed simp

text \<open>A poll of the resolving future, in the connector and in the chain.\<close>

lemma resolve_poll_eq:
  assumes "resolver_poll f = (r, f1)"
  shows "connector_poll connect hport (FutResolve f) =
      (case r of
         Ok (Ready (Ok req)) \<Rightarrow>
           (case tcp_call connect hport req of
              Err p \<Rightarrow> (Err p, FutResolve f1)
            | Ok t \<Rightarrow> (case tcp_poll connect t of (x, t1) \<Rightarrow> (x, FutConnect t1)))
       | Ok (Ready (Err e)) \<Rightarrow> (Ok (Ready (Err e)), FutResolve f1)
       | Ok Pending \<Rightarrow> (Ok Pending, FutResolve f1)
       | Err p \<Rightarrow> (Err p, FutResolve f1))"
    "and_then_poll (resolver_service hname hport parse_ip dns kind) (tcp_service hport connect) (ChainA f) s =
      (case r of
         Ok (Ready (Ok req)) \<Rightarrow>
           (case tcp_call connect hport req of
              Err p \<Rightarrow> (Err p, ChainB (Err p), s)
            | Ok t \<Rightarrow> (case tcp_poll connect t of (x, t1) \<Rightarrow> (x, ChainB (Ok t1), s)))
       | Ok (Ready (Err e)) \<Rightarrow> (Ok (Ready (Err e)), ChainA f1, s)
       | Ok Pending \<Rightarrow> (Ok Pending, ChainA f1, s)
       | Err p \<Rightarrow> (Err p, ChainA f1, s))"
  by (auto simp: connector_poll_def resolver_service_def tcp_service_def assms split: result.split poll.split prod.split)

lemma resolve_run_eq:
  "run_fut (\<lambda>f s. case connector_poll connect hport f of (r, f1) \<Rightarrow> (r, f1, s)) n (FutResolve f) s
     = run_fut (and_then_poll (resolver_service hname hport parse_ip dns kind) (tcp_service hport connect)) n (ChainA f) s"
proof (induction n arbitrary: f)
  case (Suc n)
  obtain r f1 where r: "resolver_poll f = (r, f1)" by (cases "resolver_poll f")
  show ?case
    by (simp only: run_fut.simps resolve_poll_eq [OF r])
      (simp add: Suc.IH connect_run_eq split: result.split poll.split prod.split)
qed simp

lemma connector_eq_chain:
  "run_call (connector_service hname hport parse_ip (kind_lookup dns kind) connect) n i s
     = run_call (resolve_then_connect hname hport parse_ip dns kind connect) n i s"
proof -
  have "call_fn (resolver_service hname hport parse_ip dns kind) i s
      = (resolver_call hname hport parse_ip (kind_lookup dns kind) i, s)" by (simp add: resolver_service_def)
  then show ?thesis
    by (simp add: run_call_def connector_service_def and_then_def connector_call_def resolve_run_eq del: and_then_poll.simps)
qed

section \<open>Building the client\<close>

abbreviation client_factory ::
  "(connect_error \<Rightarrow> 'e) \<Rightarrow> ('s, ('s, 'q, 'c, connect_error, 'f) service) ready_factory \<Rightarrow>
   (io_error \<Rightarrow> 'e) \<Rightarrow> ('s, ('s, 'c, 't, io_error, 'g) service) ready_factory \<Rightarrow> _" where
  "client_factory k1 connector k2 tls \<equiv> and_then_factory (map_err_factory k1 connector) (map_err_factory k2 tls)"

lemma client_factory_builds:
  "builds (client_factory k1 (ready_factory svc1) k2 (ready_factory svc2)) good cfg (\<lambda>r. r = Ok (tls_client k1 svc1 k2 svc2))"
proof -
  have err: "builds (map_err_factory k (ready_factory svc)) good cfg (\<lambda>r. r = Ok (map_err_service k svc))" for k svc
  proof (rule buildsI, goal_cases)
    case (1 s f s1)
    then have f: "f = Some (Ok svc)" "s1 = s" "good s" by (simp_all add: map_err_factory_def ready_factory_def)
    have "settles (init_fn (map_err_factory k (ready_factory svc))) good (\<lambda>r. r = Ok (map_err_service k svc)) f"
      by (rule settlesI) (simp add: f map_err_factory_def ready_factory_def map_err_factory_poll_def ready_poll_def)
    then show ?case using f by simp
  qed
  show ?thesis
    unfolding and_then_factory_def tls_client_def by (rule pair_built [OF err err])
qed

text \<open>The client over contracts of its two services.\<close>

lemma tls_client_meets:
  assumes "meets svc1 good pre (\<lambda>i r. r = map_result (Pair (request i)) (C i))"
    and "meets svc2 good (\<lambda>c. True) (\<lambda>c r. r = T c)"
  shows "meets (tls_client k1 svc1 k2 svc2) good pre (\<lambda>i r. r = client_expected k1 k2 C T i)"
proof -
  note c = service_contract.map_err_meets [OF service_contract.intro [OF assms(1)], where h = k1]
    service_contract.map_err_meets [OF service_contract.intro [OF assms(2)], where h = k2]
  have "service_pair (map_err_service k1 svc1) (map_err_service k2 svc2) good pre
      (\<lambda>i r. \<exists>x. x = map_result (Pair (request i)) (C i) \<and> r = map_err_result k1 x) (\<lambda>c. True)
      (\<lambda>c r. \<exists>x. x = T c \<and> r = map_err_result k2 x)"
    by unfold_locales (rule c, rule c, simp)
  from service_pair.and_then_meets [OF this] show ?thesis
    unfolding tls_client_def
    by (rule meets_mono) (auto simp: and_then_post_def client_expected_def connection_new_def split: result.splits)
qed

lemmas rustls_factory_defs = rustls_0_20_factory_def rustls_0_21_factory_def rustls_0_22_factory_def
  rustls_0_23_factory_def rustls_0_20_service_def rustls_0_21_service_def rustls_0_23_service_def

section \<open>Properties\<close>

text \<open>
  C40. The client stack, from factories to results.  The chain of the connector's factory and that of
  any of the four rustls connectors, with their errors mapped, creates its service in the first poll,
  without an error.  When look-ups (of the default resolver or a custom one), connection attempts and
  handshakes complete, however long they stay pending, a call of that service completes without a
  panic and with the composed result: an error of the connector, among them those of a socket for the
  request's local address and of binding it, without a handshake; else the
  handshake on the first stream that connected, for the server name of the request's host, or the
  version's error for a name it refuses.  And the connector is the chain of its resolver and its TCP
  connector: after any number of polls both have given the same.
\<close>

theorem client_stack_built:
  assumes lookups: "\<forall>host port. first_ready (kind_lookup dns kind host port) = Some (lk host port)"
    and direct: "\<forall>a. first_ready (net_stream net a) = Some (f a)"
    and bound: "\<forall>sock a. first_ready (net_connect net sock a) = Some (g sock a)"
    and handshakes: "\<forall>name io. first_ready (tls name io) = Some (hs name io)"
    and wf: "addrs_wf (addr i)"
    and version: "(fac, e) \<in> {(rustls_0_20_factory, OtherKind 0), (rustls_0_21_factory, InvalidInput),
        (rustls_0_22_factory, InvalidInput), (rustls_0_23_factory, InvalidInput)}"
    and F: "F = client_factory k1 (connector_factory hname hport parse_ip dns kind (tcp_connect net)) k2 (fac hname server_name tls)"
  shows "\<exists>n svc. run_fut (init_fn F) n (fst (new_fn F () s)) (snd (new_fn F () s)) = Some (Ok (Ok svc), s)
    \<and> (\<exists>m. run_call svc m i s = Some (Ok (client_expected k1 k2 (expected hname hport parse_ip lk (dialled net f g))
            (rustls_expected e hname server_name hs) i), s))
    \<and> (\<forall>m. run_call (connector_service hname hport parse_ip (kind_lookup dns kind) (tcp_connect net)) m i s
            = run_call (resolve_then_connect hname hport parse_ip dns kind (tcp_connect net)) m i s)"
proof -
  let ?svc = "tls_client k1 (connector_service hname hport parse_ip (kind_lookup dns kind) (tcp_connect net)) k2
      (rustls_service e hname server_name tls)"
  have fac: "fac hname server_name tls = ready_factory (rustls_service e hname server_name tls)"
    using version by (auto simp: rustls_factory_defs)
  have F': "F = client_factory k1 (ready_factory (connector_service hname hport parse_ip (kind_lookup dns kind) (tcp_connect net))) k2
      (ready_factory (rustls_service e hname server_name tls))"
    by (simp add: F fac connector_factory_def)
  obtain t s1 where t: "new_fn F () s = (t, s1)" by (cases "new_fn F () s")
  note b = buildsD [OF client_factory_builds, where s = s and good = "\<lambda>s'. s' = s", OF refl t [unfolded F']]
  from settles_run [OF b(2,1)] t
  have built: "\<exists>n. run_fut (init_fn F) n (fst (new_fn F () s)) (snd (new_fn F () s)) = Some (Ok (Ok ?svc), s)"
    by (auto simp: F')
  have "meets ?svc (\<lambda>s'. s' = s) (\<lambda>i. addrs_wf (addr i))
      (\<lambda>i r. r = client_expected k1 k2 (expected hname hport parse_ip lk (dialled net f g)) (rustls_expected e hname server_name hs) i)"
    by (rule tls_client_meets [OF connector_meets rustls_meets]) (simp_all add: lookups direct bound handshakes tcp_connect_dials)
  from service_contract.completes [OF service_contract.intro [OF this] refl wf]
  have runs: "\<exists>m. run_call ?svc m i s = Some (Ok (client_expected k1 k2 (expected hname hport parse_ip lk (dialled net f g))
            (rustls_expected e hname server_name hs) i), s)" by auto
  from built obtain n where n: "run_fut (init_fn F) n (fst (new_fn F () s)) (snd (new_fn F () s)) = Some (Ok (Ok ?svc), s)"
    by blast
  show ?thesis
    by (rule exI [of _ n], rule exI [of _ ?svc], intro conjI allI) (rule n runs connector_eq_chain)+
qed

text \<open>A look-up of the default resolver that gives two addresses, of which the second connects, for a
  request with a local address: the stream is that of the socket bound to it.\<close>

definition sample_dns :: "nat dns" where
  "sample_dns host = [Pending, Ready (Ok (Ok [(3, 80), (4, 80)]))]"

definition sample_tls :: "string \<Rightarrow> nat \<Rightarrow> (string \<times> nat, io_error) result poll list" where
  "sample_tls name io = completing 3 (Ok (name, io))"

abbreviation sample_client where
  "sample_client \<equiv> client_factory (\<lambda>e. e = NoRecords)
     (connector_factory str_hostname str_port (\<lambda>h. None) sample_dns ResolverDefault (tcp_connect sample_net) :: (bool, _) ready_factory)
     (\<lambda>e. False) (rustls_0_23_factory str_hostname (\<lambda>h. if h = [] then None else Some h) sample_tls)"

theorem client_stack_built_witness:
  "\<exists>n svc m. run_fut (init_fn sample_client) n (fst (new_fn sample_client () True)) (snd (new_fn sample_client () True))
        = Some (Ok (Ok svc), True)
     \<and> run_call svc m ((info_new str_port ''a:80'')\<lparr>local_addr := Some 2\<rparr>) True = Some (Ok (Ok (''a:80'', ''a'', 7)), True)"
proof -
  have h: "str_hostname ''a:80'' = ''a''" by code_simp
  define F where "F = sample_client"
  have "first_ready (kind_lookup sample_dns ResolverDefault host port) = Some (Ok [(3, 80), (4, 80)])" for host port
    by (simp add: sample_dns_def kind_lookup_def default_lookup_def join_answer_def)
  then have "\<exists>n svc. run_fut (init_fn F) n (fst (new_fn F () True)) (snd (new_fn F () True)) = Some (Ok (Ok svc), True)
      \<and> (\<exists>m. run_call svc m ((info_new str_port ''a:80'')\<lparr>local_addr := Some 2\<rparr>) True = Some (Ok (Ok (''a:80'', ''a'', 7)), True))"
    using client_stack_built [where fac = rustls_0_23_factory and lk = "\<lambda>host port. Ok [(3, 80), (4, 80)]"
        and f = "\<lambda>a. if fst a = 4 then Ok 9 else Err ConnectionRefused" and hs = "\<lambda>n io. Ok (n, io)" and s = True
        and g = "\<lambda>sock a. if fst a = 4 then Ok sock else Err ConnectionRefused" and net = sample_net
        and i = "(info_new str_port ''a:80'')\<lparr>local_addr := Some 2\<rparr>" and e = InvalidInput, OF _ _ _ _ _ _ F_def]
    by (simp add: sample_net_def dialled_def sample_tls_def client_expected_def rustls_expected_def expected_def info_new_def
        addrs_wf_def connection_new_def h) blast
  then show ?thesis unfolding F_def by blast
qed

end
