(* ===== verification/Tls_Accept.thy ===== *)
theory Tls_Accept
  imports Utils_Counter
begin

text \<open>
  \<open>actix-tls/src/accept\<close>: the acceptor service, as in \<open>rustls_0_23.rs\<close> (the other back ends are the
  same code over other libraries), and the error type of \<open>mod.rs\<close>.  A handshake is the list of
  answers of its polls; the clock is an argument.  The acceptor holds the thread's counter and the
  accept futures that are alive; \<open>permit\<close> is whether \<open>poll_ready\<close> has answered \<open>Ready\<close> since the last
  \<open>call\<close>, as the service contract wants.  The interface the acceptor needs of the counter is the
  locale \<open>slot_counter\<close>.
\<close>

section \<open>Errors\<close>

datatype ('t, 's) tls_error = TlsTimeout | TlsFailed 't | TlsService 's

text \<open>\<open>TlsError<_, Infallible>\<close>, whose \<open>Service\<close> variant has no values.\<close>

datatype 't handshake_error = HsTimeout | HsTls 't

fun into_service_error :: "'t handshake_error \<Rightarrow> ('t, 's) tls_error" where
  "into_service_error HsTimeout = TlsTimeout"
| "into_service_error (HsTls e) = TlsFailed e"

section \<open>Acceptor\<close>

definition DEFAULT_TLS_HANDSHAKE_TIMEOUT :: nat where
  "DEFAULT_TLS_HANDSHAKE_TIMEOUT = 3000"

record accept_fut =
  hs_fut :: "(nat, nat) result poll list"
  hs_deadline :: nat

record acceptor =
  conns :: counter_inner
  handshake_timeout :: nat
  futs :: "accept_fut list"
  permit :: bool

definition acceptor_new :: "usize \<Rightarrow> nat \<Rightarrow> acceptor" where
  "acceptor_new max_conn timeout =
     \<lparr>conns = counter_new max_conn, handshake_timeout = timeout, futs = [], permit = False\<rparr>"

definition acceptor_poll_ready :: "task \<Rightarrow> acceptor \<Rightarrow> (unit, nat handshake_error) result poll \<times> acceptor" where
  "acceptor_poll_ready cx s =
     (case counter_available cx (conns s) of
        (True, c) \<Rightarrow> (Ready (Ok ()), s\<lparr>conns := c, permit := True\<rparr>)
      | (False, c) \<Rightarrow> (Pending, s\<lparr>conns := c, permit := False\<rparr>))"

definition acceptor_call :: "nat \<Rightarrow> (nat, nat) result poll list \<Rightarrow> acceptor \<Rightarrow> (acceptor, panic) result" where
  "acceptor_call now handshake s =
     map_result (\<lambda>c. s\<lparr>conns := c, permit := False,
         futs := futs s @ [\<lparr>hs_fut = handshake, hs_deadline = now + handshake_timeout s\<rparr>]\<rparr>)
       (guard_new (conns s))"

definition accept_fut_poll :: "nat \<Rightarrow> accept_fut \<Rightarrow> (nat, nat handshake_error) result poll \<times> accept_fut" where
  "accept_fut_poll now f =
     (case next_answer (hs_fut f) of
        (Ready (Ok stream), h) \<Rightarrow> (Ready (Ok stream), f\<lparr>hs_fut := h\<rparr>)
      | (Ready (Err e), h) \<Rightarrow> (Ready (Err (HsTls e)), f\<lparr>hs_fut := h\<rparr>)
      | (Pending, h) \<Rightarrow>
          (if hs_deadline f \<le> now then Ready (Err HsTimeout) else Pending, f\<lparr>hs_fut := h\<rparr>))"

text \<open>Dropping an accept future drops its guard.\<close>

definition accept_fut_drop :: "nat \<Rightarrow> acceptor \<Rightarrow> (task list \<times> acceptor, panic) result" where
  "accept_fut_drop i s =
     map_result (\<lambda>(woken, c). (woken, s\<lparr>conns := c, futs := take i (futs s) @ drop (Suc i) (futs s)\<rparr>))
       (guard_drop (conns s))"

text \<open>One handshake polled at the given times until it is ready.\<close>

fun accept_fut_run :: "nat list \<Rightarrow> accept_fut \<Rightarrow> (nat, nat handshake_error) result option" where
  "accept_fut_run [] f = None"
| "accept_fut_run (now # ts) f =
     (case accept_fut_poll now f of (Ready r, f1) \<Rightarrow> Some r | (Pending, f1) \<Rightarrow> accept_fut_run ts f1)"

section \<open>The counter as a limiter\<close>

locale slot_counter =
  fixes used limit :: "'c \<Rightarrow> nat"
    and has_room :: "'c \<Rightarrow> bool"
    and acquire release :: "'c \<Rightarrow> 'c option"
  assumes has_room: "has_room c \<longleftrightarrow> used c < limit c"
    and acquire: "used c < limit c \<Longrightarrow> \<exists>c'. acquire c = Some c' \<and> used c' = used c + 1 \<and> limit c' = limit c"
    and release: "0 < used c \<Longrightarrow> \<exists>c'. release c = Some c' \<and> used c' = used c - 1 \<and> limit c' = limit c"
begin

lemma acquire_bounded:
  "has_room c \<Longrightarrow> acquire c = Some c' \<Longrightarrow> used c' \<le> limit c' \<and> used c' = Suc (used c) \<and> limit c' = limit c"
  using has_room acquire [of c] by auto

lemma release_room: "0 < used c \<Longrightarrow> used c \<le> limit c \<Longrightarrow> \<exists>c'. release c = Some c' \<and> has_room c' \<and> limit c' = limit c"
  using release [of c] has_room by fastforce

end

definition ok_opt :: "('a, panic) result \<Rightarrow> 'a option" where
  "ok_opt r = (case r of Ok x \<Rightarrow> Some x | Err p \<Rightarrow> None)"

lemma counter_acquire:
  assumes "unat (cnt c) < unat (capacity c)"
  shows "\<exists>c'. ok_opt (guard_new c) = Some c' \<and> unat (cnt c') = unat (cnt c) + 1 \<and> unat (capacity c') = unat (capacity c)"
proof -
  have "unat (cnt c) + 1 < 2 ^ 64" using assms unat_lt_64 [of "capacity c"] by linarith
  then have "checked_add (cnt c) 1 = Some (cnt c + 1)" by (simp add: checked_add_def)
  from unat_checked_add [OF this] this show ?thesis
    by (simp add: guard_new_def counter_inc_def ok_opt_def)
qed

lemma counter_release:
  assumes "0 < unat (cnt c)"
  shows "\<exists>c'. ok_opt (map_result snd (guard_drop c)) = Some c' \<and> unat (cnt c') = unat (cnt c) - 1
    \<and> unat (capacity c') = unat (capacity c)"
proof -
  have "cnt c \<noteq> 0" using assms by (simp add: usize_pos_iff)
  with unat_pred [OF this] show ?thesis
    by (auto simp: guard_drop_def counter_dec_def Let_def ok_opt_def split: prod.split)
qed

interpretation slots: slot_counter "\<lambda>c. unat (cnt c)" "\<lambda>c. unat (capacity c)"
  "\<lambda>c. fst (counter_available cx c)" "\<lambda>c. ok_opt (guard_new c)" "\<lambda>c. ok_opt (map_result snd (guard_drop c))"
  by unfold_locales (simp add: counter_available_def word_less_nat_alt, rule counter_acquire, assumption,
      rule counter_release, assumption)

section \<open>Runs\<close>

inductive tls_run :: "usize \<Rightarrow> nat \<Rightarrow> acceptor \<Rightarrow> bool" for cap timeout where
  tls_new: "tls_run cap timeout (acceptor_new cap timeout)"
| tls_ready: "tls_run cap timeout s \<Longrightarrow> tls_run cap timeout (snd (acceptor_poll_ready cx s))"
| tls_call: "tls_run cap timeout s \<Longrightarrow> permit s \<Longrightarrow> acceptor_call now h s = Ok s' \<Longrightarrow> tls_run cap timeout s'"
| tls_poll: "tls_run cap timeout s \<Longrightarrow> i < length (futs s) \<Longrightarrow>
     tls_run cap timeout (s\<lparr>futs := (futs s)[i := snd (accept_fut_poll now (futs s ! i))]\<rparr>)"
| tls_drop: "tls_run cap timeout s \<Longrightarrow> i < length (futs s) \<Longrightarrow> accept_fut_drop i s = Ok (woken, s') \<Longrightarrow>
     tls_run cap timeout s'"

definition tls_inv :: "usize \<Rightarrow> nat \<Rightarrow> acceptor \<Rightarrow> bool" where
  "tls_inv cap timeout s \<longleftrightarrow> unat (cnt (conns s)) = length (futs s) \<and> capacity (conns s) = cap
     \<and> length (futs s) \<le> unat cap \<and> (permit s \<longrightarrow> length (futs s) < unat cap)"

lemma available_fields:
  "cnt (snd (counter_available cx c)) = cnt c" "capacity (snd (counter_available cx c)) = capacity c"
  by (simp_all add: counter_available_def)

lemma tls_run_inv: "tls_run cap timeout s \<Longrightarrow> tls_inv cap timeout s"
proof (induction rule: tls_run.induct)
  case tls_new
  then show ?case by (simp add: tls_inv_def acceptor_new_def counter_new_def)
next
  case (tls_ready s cx)
  with slots.has_room [of cx "conns s"] available_fields [of cx "conns s"] show ?case
    by (auto simp: tls_inv_def acceptor_poll_ready_def split: prod.splits bool.splits)
next
  case (tls_call s now h s')
  from tls_call(3) obtain c where c: "guard_new (conns s) = Ok c"
    and s': "s' = s\<lparr>conns := c, permit := False, futs := futs s @ [\<lparr>hs_fut = h, hs_deadline = now + handshake_timeout s\<rparr>]\<rparr>"
    by (cases "guard_new (conns s)") (auto simp: acceptor_call_def)
  have "fst (counter_available undefined (conns s))"
    using slots.has_room tls_call(2,4) by (simp add: tls_inv_def)
  from slots.acquire_bounded [OF this, of c] c tls_call(4) show ?case
    by (auto simp: tls_inv_def s' ok_opt_def guard_new_def counter_inc_def split: option.splits)
next
  case (tls_poll s i now)
  then show ?case by (simp add: tls_inv_def)
next
  case (tls_drop s i woken s')
  from tls_drop(3) obtain c where c: "guard_drop (conns s) = Ok (woken, c)"
    and s': "s' = s\<lparr>conns := c, futs := take i (futs s) @ drop (Suc i) (futs s)\<rparr>"
    by (cases "guard_drop (conns s)") (auto simp: accept_fut_drop_def)
  have "0 < unat (cnt (conns s))" using tls_drop(2,4) unfolding tls_inv_def by linarith
  from counter_release [OF this] c have "unat (cnt c) = unat (cnt (conns s)) - 1" "unat (capacity c) = unat (capacity (conns s))"
    by (auto simp: ok_opt_def)
  moreover have "length (futs s') = length (futs s) - 1" using tls_drop(2) by (simp add: s')
  ultimately show ?case using tls_drop(2,4) by (auto simp: tls_inv_def s' word_unat_eq_iff)
qed

section \<open>Properties\<close>

text \<open>
  Concurrent handshakes are bounded: with the acceptor called only after \<open>poll_ready\<close>, in every
  interleaving of calls, polls and drops at most \<open>max_conn\<close> handshakes are alive, a call never
  panics, every live handshake can be dropped, and \<open>poll_ready\<close> answers \<open>Ready\<close> exactly when a slot is free.
\<close>

theorem tls_handshakes_bounded:
  assumes "tls_run cap timeout s"
  shows "length (futs s) \<le> unat cap
    \<and> (fst (acceptor_poll_ready cx s) = (if length (futs s) < unat cap then Ready (Ok ()) else Pending))
    \<and> (permit s \<longrightarrow> (\<exists>s'. acceptor_call now h s = Ok s' \<and> length (futs s') = Suc (length (futs s))))
    \<and> (futs s \<noteq> [] \<longrightarrow> (\<exists>r. accept_fut_drop i s = Ok r))"
proof -
  note inv = tls_run_inv [OF assms, unfolded tls_inv_def]
  have "fst (acceptor_poll_ready cx s) = (if length (futs s) < unat cap then Ready (Ok ()) else Pending)"
    using inv slots.has_room [of cx "conns s"]
    by (auto simp: acceptor_poll_ready_def split: prod.splits bool.splits)
  moreover have "\<exists>s'. acceptor_call now h s = Ok s' \<and> length (futs s') = Suc (length (futs s))" if "permit s"
    using inv that counter_acquire [of "conns s"]
    by (auto simp: acceptor_call_def ok_opt_def split: result.splits)
  moreover have "\<exists>r. accept_fut_drop i s = Ok r" if "futs s \<noteq> []"
    using inv that counter_release [of "conns s"]
    by (cases "guard_drop (conns s)") (auto simp: accept_fut_drop_def ok_opt_def)
  ultimately show ?thesis using inv by blast
qed

theorem tls_handshakes_bounded_witness:
  "\<exists>s. acceptor_call 5 [] (snd (acceptor_poll_ready 1 (acceptor_new 2 3000))) = Ok s \<and> length (futs s) \<le> 2"
proof -
  obtain s where s: "acceptor_call 5 [] (snd (acceptor_poll_ready 1 (acceptor_new 2 3000))) = Ok s"
    by (simp add: acceptor_call_def acceptor_poll_ready_def acceptor_new_def counter_new_def counter_available_def
        guard_new_def counter_inc_def checked_add_def)
  have "permit (snd (acceptor_poll_ready 1 (acceptor_new 2 3000)))"
    by (simp add: acceptor_poll_ready_def acceptor_new_def counter_new_def counter_available_def)
  from tls_handshakes_bounded [OF tls_call [OF tls_ready [OF tls_new] this s]] s show ?thesis by auto
qed

text \<open>
  A handshake is bounded in time: polled at increasing times, it ends at the latest at the first
  poll at or after its deadline; it ends with the handshake's own answer if that comes first, before
  or together with the deadline, and with \<open>Timeout\<close> only at or after the deadline.
\<close>

theorem tls_handshake_times_out:
  assumes "\<forall>t \<in> set ts. t < hs_deadline f" and "hs_deadline f \<le> now"
  shows "accept_fut_run (ts @ [now]) f =
    Some (case first_ready (take (Suc (length ts)) (hs_fut f)) of
       Some (Ok stream) \<Rightarrow> Ok stream | Some (Err e) \<Rightarrow> Err (HsTls e) | None \<Rightarrow> Err HsTimeout)"
  using assms
proof (induction ts arbitrary: f)
  case Nil
  then show ?case
    by (cases "hs_fut f") (auto simp: accept_fut_poll_def next_answer_def split: poll.splits result.splits)
next
  case (Cons t ts)
  show ?case
  proof (cases "hs_fut f")
    case Nil
    have "accept_fut_poll t f = (Pending, f)"
      using Cons.prems Nil by (simp add: accept_fut_poll_def next_answer_def)
    with Cons.IH [of f] Cons.prems Nil show ?thesis by simp
  next
    case (Cons a as)
    let ?f1 = "f\<lparr>hs_fut := as\<rparr>"
    show ?thesis
    proof (cases a)
      case Pending
      then have "accept_fut_poll t f = (Pending, ?f1)"
        using Cons Cons.prems by (simp add: accept_fut_poll_def next_answer_def)
      with Cons.IH [of ?f1] Cons.prems Cons Pending show ?thesis by simp
    next
      case (Ready r)
      with Cons show ?thesis by (cases r) (simp_all add: accept_fut_poll_def next_answer_def)
    qed
  qed
qed

theorem tls_handshake_times_out_witness:
  "accept_fut_run [100, 2900, 3100] \<lparr>hs_fut = [Pending, Pending, Pending, Ready (Ok 4)], hs_deadline = 3000\<rparr>
    = Some (Err HsTimeout)"
  using tls_handshake_times_out [of "[100, 2900]" "\<lparr>hs_fut = [Pending, Pending, Pending, Ready (Ok 4)], hs_deadline = 3000\<rparr>" 3100]
  by simp

end
