(* ===== verification/Tls_Accept_Backends.thy ===== *)
theory Tls_Accept_Backends
  imports Tls_Accept
begin

text \<open>
  The other TLS acceptors: \<open>openssl.rs\<close>, whose future keeps the stream in an \<open>Option\<close>, and
  \<open>native_tls.rs\<close>, an \<open>async\<close> block around tokio's \<open>timeout\<close>, which polls the handshake before the
  clock.  As in \<open>Tls_Accept\<close> a handshake is the list of the answers of its polls.  Their results are
  those of the rustls acceptor; what differs is when the guard of the counter is dropped.
\<close>

section \<open>openssl\<close>

text \<open>The stream is its handshake; the number is the stream that comes out of it.\<close>

record ossl_accept_fut =
  ossl_hs :: "((unit, nat) result poll list \<times> nat) option"
  ossl_deadline :: nat

definition ossl_acceptor_call ::
  "nat \<Rightarrow> (unit, nat) result \<Rightarrow> (nat, nat) result \<Rightarrow> (nat \<Rightarrow> (unit, nat) result poll list) \<Rightarrow> nat \<Rightarrow> counter_inner \<Rightarrow>
   (ossl_accept_fut \<times> counter_inner, panic) result" where
  "ossl_acceptor_call now ssl_new stream_new handshake timeout c =
     (case ssl_new of
        Err e \<Rightarrow> Err ExplicitPanic
      | Ok u \<Rightarrow>
          (case guard_new c of
             Err p \<Rightarrow> Err p
           | Ok c1 \<Rightarrow>
               (case stream_new of
                  Err e \<Rightarrow> Err ExplicitPanic
                | Ok io \<Rightarrow> Ok (\<lparr>ossl_hs = Some (handshake io, io), ossl_deadline = now + timeout\<rparr>, c1))))"

definition ossl_accept_poll ::
  "nat \<Rightarrow> ossl_accept_fut \<Rightarrow> ((nat, nat handshake_error) result poll, panic) result \<times> ossl_accept_fut" where
  "ossl_accept_poll now f =
     (case ossl_hs f of
        None \<Rightarrow> (Err UnwrapNone, f)
      | Some (hs, io) \<Rightarrow>
          (case next_answer hs of
             (Ready (Ok u), h) \<Rightarrow> (Ok (Ready (Ok io)), f\<lparr>ossl_hs := None\<rparr>)
           | (Ready (Err e), h) \<Rightarrow> (Ok (Ready (Err (HsTls e))), f\<lparr>ossl_hs := Some (h, io)\<rparr>)
           | (Pending, h) \<Rightarrow>
               (Ok (if ossl_deadline f \<le> now then Ready (Err HsTimeout) else Pending), f\<lparr>ossl_hs := Some (h, io)\<rparr>)))"

section \<open>native-tls\<close>

text \<open>The block owns the guard until it completes; the flag says that this poll drops it.\<close>

datatype native_accept = NativeStart "(nat, nat) result poll list" nat | NativeWait "(nat, nat) result poll list" nat | NativeEnd

definition native_acceptor_call ::
  "(nat, nat) result poll list \<Rightarrow> nat \<Rightarrow> counter_inner \<Rightarrow> (native_accept \<times> counter_inner, panic) result" where
  "native_acceptor_call handshake dur c = map_result (\<lambda>c1. (NativeStart handshake dur, c1)) (guard_new c)"

text \<open>\<open>timeout\<close>: the future first, then the delay.\<close>

definition timeout_poll ::
  "nat \<Rightarrow> nat \<Rightarrow> 'a poll list \<Rightarrow> ('a, unit) result poll \<times> 'a poll list" where
  "timeout_poll now deadline f =
     (case next_answer f of
        (Ready r, f1) \<Rightarrow> (Ready (Ok r), f1)
      | (Pending, f1) \<Rightarrow> (if deadline \<le> now then Ready (Err ()) else Pending, f1))"

definition native_wait :: "nat \<Rightarrow> (nat, nat) result poll list \<Rightarrow> nat \<Rightarrow>
    ((nat, nat handshake_error) result poll, panic) result \<times> native_accept \<times> bool" where
  "native_wait now hs deadline =
     (case timeout_poll now deadline hs of
        (Pending, h) \<Rightarrow> (Ok Pending, NativeWait h deadline, False)
      | (Ready (Ok (Ok io)), h) \<Rightarrow> (Ok (Ready (Ok io)), NativeEnd, True)
      | (Ready (Ok (Err e)), h) \<Rightarrow> (Ok (Ready (Err (HsTls e))), NativeEnd, True)
      | (Ready (Err u), h) \<Rightarrow> (Ok (Ready (Err HsTimeout)), NativeEnd, True))"

fun native_accept_poll ::
  "nat \<Rightarrow> native_accept \<Rightarrow> ((nat, nat handshake_error) result poll, panic) result \<times> native_accept \<times> bool" where
  "native_accept_poll now (NativeStart hs dur) = native_wait now hs (now + dur)"
| "native_accept_poll now (NativeWait hs deadline) = native_wait now hs deadline"
| "native_accept_poll now NativeEnd = (Err ExplicitPanic, NativeEnd, False)"

section \<open>Runs\<close>

fun ossl_accept_run :: "nat list \<Rightarrow> ossl_accept_fut \<Rightarrow> ((nat, nat handshake_error) result, panic) result option" where
  "ossl_accept_run [] f = None"
| "ossl_accept_run (now # ts) f =
     (case ossl_accept_poll now f of
        (Err p, f1) \<Rightarrow> Some (Err p)
      | (Ok (Ready r), f1) \<Rightarrow> Some (Ok r)
      | (Ok Pending, f1) \<Rightarrow> ossl_accept_run ts f1)"

fun native_accept_run :: "nat list \<Rightarrow> native_accept \<Rightarrow> ((nat, nat handshake_error) result, panic) result option" where
  "native_accept_run [] f = None"
| "native_accept_run (now # ts) f =
     (case native_accept_poll now f of
        (Err p, f1, d) \<Rightarrow> Some (Err p)
      | (Ok (Ready r), f1, d) \<Rightarrow> Some (Ok r)
      | (Ok Pending, f1, d) \<Rightarrow> native_accept_run ts f1)"

text \<open>The handshake script of a stream, as the two libraries answer it.\<close>

fun with_stream :: "nat \<Rightarrow> (unit, nat) result poll \<Rightarrow> (nat, nat) result poll" where
  "with_stream io Pending = Pending"
| "with_stream io (Ready r) = Ready (map_result (\<lambda>u. io) r)"

lemma ossl_run_eq:
  "ossl_accept_run ts \<lparr>ossl_hs = Some (hs, io), ossl_deadline = d\<rparr>
   = map_option Ok (accept_fut_run ts \<lparr>hs_fut = map (with_stream io) hs, hs_deadline = d\<rparr>)"
proof (induction ts arbitrary: hs)
  case (Cons t ts)
  show ?case
  proof (cases hs)
    case Nil
    with Cons.IH [of "[]"] show ?thesis
      by (simp add: ossl_accept_poll_def accept_fut_poll_def next_answer_def)
  next
    case hs: (Cons a as)
    show ?thesis
    proof (cases a)
      case Pending
      with hs Cons.IH [of as] show ?thesis
        by (simp add: ossl_accept_poll_def accept_fut_poll_def next_answer_def)
    next
      case (Ready r)
      with hs show ?thesis
        by (cases r) (simp_all add: ossl_accept_poll_def accept_fut_poll_def next_answer_def)
    qed
  qed
qed simp

lemma native_wait_eq:
  "native_wait now hs d = (case accept_fut_poll now \<lparr>hs_fut = hs, hs_deadline = d\<rparr> of
     (Pending, f1) \<Rightarrow> (Ok Pending, NativeWait (hs_fut f1) d, False)
   | (Ready r, f1) \<Rightarrow> (Ok (Ready r), NativeEnd, True))"
  by (auto simp: native_wait_def timeout_poll_def accept_fut_poll_def split: prod.splits poll.splits result.splits)

lemma accept_fut_poll_deadline:
  "accept_fut_poll now f = (r, f1) \<Longrightarrow> f1 = \<lparr>hs_fut = hs_fut f1, hs_deadline = hs_deadline f\<rparr>"
  by (auto simp: accept_fut_poll_def split: prod.splits poll.splits result.splits)

lemma native_run_eq:
  "native_accept_run ts (NativeWait hs d) = map_option Ok (accept_fut_run ts \<lparr>hs_fut = hs, hs_deadline = d\<rparr>)"
proof (induction ts arbitrary: hs)
  case (Cons t ts)
  obtain r f1 where p: "accept_fut_poll t \<lparr>hs_fut = hs, hs_deadline = d\<rparr> = (r, f1)"
    by (cases "accept_fut_poll t \<lparr>hs_fut = hs, hs_deadline = d\<rparr>")
  from accept_fut_poll_deadline [OF p] have "f1 = \<lparr>hs_fut = hs_fut f1, hs_deadline = d\<rparr>" by simp
  with Cons.IH [of "hs_fut f1"] p show ?case
    by (cases r) (simp_all add: native_wait_eq)
qed simp

section \<open>Properties\<close>

text \<open>
  The acceptors agree.  On the same handshake, polled at the same times, the openssl and the
  native-tls futures complete at the same poll as the rustls future and with the same result: stream,
  TLS error or timeout; the timeout of native-tls starts with the first poll, the others' with the call.
  None of them panics before it has completed, and the native-tls future drops its guard with the poll
  that completes it.\<close>

theorem acceptors_agree:
  "ossl_accept_run ts \<lparr>ossl_hs = Some (hs, io), ossl_deadline = d\<rparr>
     = map_option Ok (accept_fut_run ts \<lparr>hs_fut = map (with_stream io) hs, hs_deadline = d\<rparr>)
   \<and> native_accept_run (now # ts) (NativeStart hs2 dur)
     = map_option Ok (accept_fut_run (now # ts) \<lparr>hs_fut = hs2, hs_deadline = now + dur\<rparr>)
   \<and> (snd (snd (native_accept_poll now g)) \<longleftrightarrow> (\<exists>r. fst (native_accept_poll now g) = Ok (Ready r)))"
proof -
  have "native_accept_run (now # ts) (NativeStart hs2 dur) = native_accept_run (now # ts) (NativeWait hs2 (now + dur))"
    by simp
  moreover have "snd (snd (native_accept_poll now g)) \<longleftrightarrow> (\<exists>r. fst (native_accept_poll now g) = Ok (Ready r))"
    by (cases g) (auto simp: native_wait_def split: prod.splits poll.splits result.splits)
  ultimately show ?thesis using ossl_run_eq native_run_eq by metis
qed

end
