(* ===== verification/Tls_Thread.thy ===== *)
theory Tls_Thread
  imports Tls_Accept_Backends
begin

text \<open>
  All TLS acceptors of a thread: the process-wide \<open>MAX_CONN\<close> and the thread-local counter of
  \<open>actix-tls/src/accept/mod.rs\<close>, the acceptor factories of the back ends (\<open>rustls_0_20.rs\<close> to
  \<open>rustls_0_23.rs\<close>, whose text differs in the library only, \<open>openssl.rs\<close> and \<open>native_tls.rs\<close>), their
  services, which share that counter, and the handshakes these have started, in every interleaving.
\<close>

section \<open>Acceptor factories and services\<close>

text \<open>\<open>Acceptor\<close>: the library's configuration and the timeout of handshakes.\<close>

record 'c acceptor_factory =
  af_config :: 'c
  af_timeout :: nat

definition acceptor_factory_new :: "'c \<Rightarrow> 'c acceptor_factory" where
  "acceptor_factory_new config = \<lparr>af_config = config, af_timeout = DEFAULT_TLS_HANDSHAKE_TIMEOUT\<rparr>"

definition set_handshake_timeout :: "nat \<Rightarrow> 'c acceptor_factory \<Rightarrow> 'c acceptor_factory" where
  "set_handshake_timeout t a = a\<lparr>af_timeout := t\<rparr>"

text \<open>What a client's connection makes the libraries answer: the handshake future of rustls and
  native-tls; for openssl the creation of the session and of the stream, and the polls of the stream.\<close>

record accept_req =
  rq_handshake :: "(nat, nat) result poll list"
  rq_ssl :: "(unit, nat) result"
  rq_stream :: "(nat, nat) result"
  rq_poll_accept :: "nat \<Rightarrow> (unit, nat) result poll list"

text \<open>\<open>AcceptorService\<close> of a back end over the counter it holds, and its accept future: \<open>poll_ready\<close>,
  \<open>call\<close> with the timeout of the service, and \<open>poll\<close>, whose flag says that it dropped the guard.\<close>

record 'f acceptor_impl =
  ai_ready :: "task \<Rightarrow> counter_inner \<Rightarrow> (unit, nat handshake_error) result poll \<times> counter_inner"
  ai_call :: "nat \<Rightarrow> accept_req \<Rightarrow> nat \<Rightarrow> counter_inner \<Rightarrow> ('f \<times> counter_inner, panic) result"
  ai_poll :: "nat \<Rightarrow> 'f \<Rightarrow> ((nat, nat handshake_error) result poll, panic) result \<times> 'f \<times> bool"

definition counter_ready :: "task \<Rightarrow> counter_inner \<Rightarrow> (unit, nat handshake_error) result poll \<times> counter_inner" where
  "counter_ready cx c =
     (case counter_available cx c of (b, c1) \<Rightarrow> (if b then Ready (Ok ()) else Pending, c1))"

definition rustls_acceptor :: "accept_fut acceptor_impl" where
  "rustls_acceptor =
     \<lparr>ai_ready = counter_ready,
      ai_call = (\<lambda>now rq timeout c.
        map_result (\<lambda>c1. (\<lparr>hs_fut = rq_handshake rq, hs_deadline = now + timeout\<rparr>, c1)) (guard_new c)),
      ai_poll = (\<lambda>now f. case accept_fut_poll now f of (r, f1) \<Rightarrow> (Ok r, f1, False))\<rparr>"

text \<open>The four versions, each in its own file over its own version of the library.\<close>

definition rustls_0_20_acceptor :: "accept_fut acceptor_impl" where
  "rustls_0_20_acceptor = rustls_acceptor"

definition rustls_0_21_acceptor :: "accept_fut acceptor_impl" where
  "rustls_0_21_acceptor = rustls_acceptor"

definition rustls_0_22_acceptor :: "accept_fut acceptor_impl" where
  "rustls_0_22_acceptor = rustls_acceptor"

definition rustls_0_23_acceptor :: "accept_fut acceptor_impl" where
  "rustls_0_23_acceptor = rustls_acceptor"

definition openssl_acceptor :: "ossl_accept_fut acceptor_impl" where
  "openssl_acceptor =
     \<lparr>ai_ready = counter_ready,
      ai_call = (\<lambda>now rq timeout c.
        ossl_acceptor_call now (rq_ssl rq) (rq_stream rq) (rq_poll_accept rq) timeout c),
      ai_poll = (\<lambda>now f. case ossl_accept_poll now f of (r, f1) \<Rightarrow> (r, f1, False))\<rparr>"

definition native_tls_acceptor :: "native_accept acceptor_impl" where
  "native_tls_acceptor =
     \<lparr>ai_ready = counter_ready,
      ai_call = (\<lambda>now rq timeout c. native_acceptor_call (rq_handshake rq) timeout c),
      ai_poll = native_accept_poll\<rparr>"

datatype rustls_version = V0_20 | V0_21 | V0_22 | V0_23

fun rustls_impl :: "rustls_version \<Rightarrow> accept_fut acceptor_impl" where
  "rustls_impl V0_20 = rustls_0_20_acceptor"
| "rustls_impl V0_21 = rustls_0_21_acceptor"
| "rustls_impl V0_22 = rustls_0_22_acceptor"
| "rustls_impl V0_23 = rustls_0_23_acceptor"

datatype backend = Rustls rustls_version | OpenSsl | NativeTls

datatype tls_fut = RustlsFut rustls_version accept_fut | OsslFut ossl_accept_fut | NativeFut native_accept

fun backend_ready :: "backend \<Rightarrow> task \<Rightarrow> counter_inner \<Rightarrow> (unit, nat handshake_error) result poll \<times> counter_inner" where
  "backend_ready (Rustls v) = ai_ready (rustls_impl v)"
| "backend_ready OpenSsl = ai_ready openssl_acceptor"
| "backend_ready NativeTls = ai_ready native_tls_acceptor"

fun backend_call ::
  "backend \<Rightarrow> nat \<Rightarrow> accept_req \<Rightarrow> nat \<Rightarrow> counter_inner \<Rightarrow> (tls_fut \<times> counter_inner, panic) result" where
  "backend_call (Rustls v) now rq t c = map_result (\<lambda>(f, c1). (RustlsFut v f, c1)) (ai_call (rustls_impl v) now rq t c)"
| "backend_call OpenSsl now rq t c = map_result (\<lambda>(f, c1). (OsslFut f, c1)) (ai_call openssl_acceptor now rq t c)"
| "backend_call NativeTls now rq t c = map_result (\<lambda>(f, c1). (NativeFut f, c1)) (ai_call native_tls_acceptor now rq t c)"

fun tls_fut_poll :: "nat \<Rightarrow> tls_fut \<Rightarrow> ((nat, nat handshake_error) result poll, panic) result \<times> tls_fut \<times> bool" where
  "tls_fut_poll now (RustlsFut v f) = (case ai_poll (rustls_impl v) now f of (r, f1, d) \<Rightarrow> (r, RustlsFut v f1, d))"
| "tls_fut_poll now (OsslFut f) = (case ai_poll openssl_acceptor now f of (r, f1, d) \<Rightarrow> (r, OsslFut f1, d))"
| "tls_fut_poll now (NativeFut f) = (case ai_poll native_tls_acceptor now f of (r, f1, d) \<Rightarrow> (r, NativeFut f1, d))"

section \<open>The thread\<close>

text \<open>\<open>MAX_CONN\<close> is shared by all threads: it is part of the state, and any thread may store to it.  A
  service is its back end, its timeout and whether its \<open>poll_ready\<close> has answered \<open>Ready\<close> since; it
  holds a clone of the thread's counter.  A handshake comes with the flag that its guard is alive.\<close>

record tls_service =
  sv_backend :: backend
  sv_timeout :: nat
  sv_permit :: bool

record tls_thread =
  max_conn :: usize
  max_conn_counter :: "counter_inner option"
  tls_services :: "tls_service list"
  tls_futs :: "(tls_fut \<times> bool) list"

definition MAX_CONN :: usize where "MAX_CONN = 256"

definition tls_thread_start :: "usize \<Rightarrow> tls_thread" where
  "tls_thread_start m = \<lparr>max_conn = m, max_conn_counter = None, tls_services = [], tls_futs = []\<rparr>"

definition max_concurrent_tls_connect :: "usize \<Rightarrow> tls_thread \<Rightarrow> tls_thread" where
  "max_concurrent_tls_connect num s = s\<lparr>max_conn := num\<rparr>"

text \<open>\<open>MAX_CONN_COUNTER.with\<close>: the first access initialises the thread's counter.\<close>

definition with_counter :: "tls_thread \<Rightarrow> counter_inner \<times> tls_thread" where
  "with_counter s =
     (case max_conn_counter s of
        Some c \<Rightarrow> (c, s)
      | None \<Rightarrow> (let c = counter_new (max_conn s) in (c, s\<lparr>max_conn_counter := Some c\<rparr>)))"

definition acceptor_new_service :: "backend \<Rightarrow> 'c acceptor_factory \<Rightarrow> tls_thread \<Rightarrow> (tls_service, unit) result \<times> tls_thread" where
  "acceptor_new_service b a s =
     (case with_counter s of
        (cc, s1) \<Rightarrow> (Ok \<lparr>sv_backend = b, sv_timeout = af_timeout a, sv_permit = False\<rparr>, s1))"

definition rustls_0_20_new_service :: "'c acceptor_factory \<Rightarrow> tls_thread \<Rightarrow> (tls_service, unit) result \<times> tls_thread" where
  "rustls_0_20_new_service = acceptor_new_service (Rustls V0_20)"

definition rustls_0_21_new_service :: "'c acceptor_factory \<Rightarrow> tls_thread \<Rightarrow> (tls_service, unit) result \<times> tls_thread" where
  "rustls_0_21_new_service = acceptor_new_service (Rustls V0_21)"

definition rustls_0_22_new_service :: "'c acceptor_factory \<Rightarrow> tls_thread \<Rightarrow> (tls_service, unit) result \<times> tls_thread" where
  "rustls_0_22_new_service = acceptor_new_service (Rustls V0_22)"

definition rustls_0_23_new_service :: "'c acceptor_factory \<Rightarrow> tls_thread \<Rightarrow> (tls_service, unit) result \<times> tls_thread" where
  "rustls_0_23_new_service = acceptor_new_service (Rustls V0_23)"

definition openssl_new_service :: "'c acceptor_factory \<Rightarrow> tls_thread \<Rightarrow> (tls_service, unit) result \<times> tls_thread" where
  "openssl_new_service = acceptor_new_service OpenSsl"

definition native_tls_new_service :: "'c acceptor_factory \<Rightarrow> tls_thread \<Rightarrow> (tls_service, unit) result \<times> tls_thread" where
  "native_tls_new_service = acceptor_new_service NativeTls"

fun backend_new_service :: "backend \<Rightarrow> 'c acceptor_factory \<Rightarrow> tls_thread \<Rightarrow> (tls_service, unit) result \<times> tls_thread" where
  "backend_new_service (Rustls V0_20) = rustls_0_20_new_service"
| "backend_new_service (Rustls V0_21) = rustls_0_21_new_service"
| "backend_new_service (Rustls V0_22) = rustls_0_22_new_service"
| "backend_new_service (Rustls V0_23) = rustls_0_23_new_service"
| "backend_new_service OpenSsl = openssl_new_service"
| "backend_new_service NativeTls = native_tls_new_service"

section \<open>Runs\<close>

text \<open>A call takes the permit of its service; under \<open>excl\<close> it takes that of all services of the thread,
  as the worker does, which asks all its services again after each call.\<close>

definition use_permit :: "bool \<Rightarrow> nat \<Rightarrow> tls_service list \<Rightarrow> tls_service list" where
  "use_permit excl k svs =
     (if excl then map (\<lambda>v. v\<lparr>sv_permit := False\<rparr>) svs else svs[k := (svs ! k)\<lparr>sv_permit := False\<rparr>])"

text \<open>The guard that a poll or a drop gives back.\<close>

definition release_if :: "bool \<Rightarrow> counter_inner \<Rightarrow> (counter_inner, panic) result" where
  "release_if d c = (if d then map_result snd (guard_drop c) else Ok c)"

inductive tls_step :: "bool \<Rightarrow> tls_thread \<Rightarrow> tls_thread \<Rightarrow> bool" for excl where
  th_max: "tls_step excl s (max_concurrent_tls_connect n s)"
| th_service: "backend_new_service b (a :: nat acceptor_factory) s = (Ok sv, s1) \<Longrightarrow>
     tls_step excl s (s1\<lparr>tls_services := tls_services s1 @ [sv]\<rparr>)"
| th_ready: "k < length (tls_services s) \<Longrightarrow> max_conn_counter s = Some c \<Longrightarrow>
     backend_ready (sv_backend (tls_services s ! k)) cx c = (r, c') \<Longrightarrow>
     tls_step excl s (s\<lparr>max_conn_counter := Some c',
       tls_services := (tls_services s)[k := (tls_services s ! k)\<lparr>sv_permit := (r = Ready (Ok ()))\<rparr>]\<rparr>)"
| th_call: "k < length (tls_services s) \<Longrightarrow> sv_permit (tls_services s ! k) \<Longrightarrow> max_conn_counter s = Some c \<Longrightarrow>
     backend_call (sv_backend (tls_services s ! k)) now rq (sv_timeout (tls_services s ! k)) c = Ok (f, c') \<Longrightarrow>
     tls_step excl s (s\<lparr>max_conn_counter := Some c', tls_services := use_permit excl k (tls_services s),
       tls_futs := tls_futs s @ [(f, True)]\<rparr>)"
| th_poll: "i < length (tls_futs s) \<Longrightarrow> tls_futs s ! i = (f, g) \<Longrightarrow> max_conn_counter s = Some c \<Longrightarrow>
     tls_fut_poll now f = (r, f1, d) \<Longrightarrow> release_if (g \<and> d) c = Ok c1 \<Longrightarrow>
     tls_step excl s (s\<lparr>max_conn_counter := Some c1, tls_futs := (tls_futs s)[i := (f1, g \<and> \<not> d)]\<rparr>)"
| th_drop: "i < length (tls_futs s) \<Longrightarrow> tls_futs s ! i = (f, g) \<Longrightarrow> max_conn_counter s = Some c \<Longrightarrow>
     release_if g c = Ok c1 \<Longrightarrow>
     tls_step excl s (s\<lparr>max_conn_counter := Some c1, tls_futs := take i (tls_futs s) @ drop (Suc i) (tls_futs s)\<rparr>)"

section \<open>The invariant\<close>

definition alive :: "tls_thread \<Rightarrow> nat" where
  "alive s = length (filter snd (tls_futs s))"

definition permits :: "tls_thread \<Rightarrow> nat" where
  "permits s = length (filter sv_permit (tls_services s))"

text \<open>Each service can be ahead of the counter by one permit.\<close>

definition counted :: "bool \<Rightarrow> tls_thread \<Rightarrow> counter_inner \<Rightarrow> bool" where
  "counted excl s c \<longleftrightarrow> unat (cnt c) = alive s
     \<and> (if excl then alive s \<le> unat (capacity c) \<and> (0 < permits s \<longrightarrow> alive s < unat (capacity c))
        else alive s + permits s + 1 \<le> unat (capacity c) + length (tls_services s))"

definition tls_thread_inv :: "bool \<Rightarrow> tls_thread \<Rightarrow> bool" where
  "tls_thread_inv excl s \<longleftrightarrow>
     (case max_conn_counter s of
        None \<Rightarrow> tls_services s = [] \<and> tls_futs s = []
      | Some c \<Rightarrow> tls_services s \<noteq> [] \<and> counted excl s c)"

lemma length_filter_at:
  assumes "i < length xs"
  shows "length (filter P xs) = length (filter P (take i xs)) + of_bool (P (xs ! i)) + length (filter P (drop (Suc i) xs))"
proof -
  have "length (filter P xs) = length (filter P (take i xs @ xs ! i # drop (Suc i) xs))"
    using id_take_nth_drop [OF assms] by simp
  then show ?thesis by simp
qed

lemma length_filter_update:
  "i < length xs \<Longrightarrow> length (filter P (xs[i := x])) + of_bool (P (xs ! i)) = length (filter P xs) + of_bool (P x)"
  using length_filter_at [of i xs P] by (simp add: upd_conv_take_nth_drop)

lemma length_filter_remove:
  "i < length xs \<Longrightarrow> length (filter P (take i xs @ drop (Suc i) xs)) + of_bool (P (xs ! i)) = length (filter P xs)"
  using length_filter_at [of i xs P] by simp

lemma backend_ready_eq: "backend_ready b = counter_ready"
  by (cases b rule: backend_ready.cases, rename_tac v, case_tac v)
    (simp_all add: rustls_0_20_acceptor_def rustls_0_21_acceptor_def rustls_0_22_acceptor_def rustls_0_23_acceptor_def
      rustls_acceptor_def openssl_acceptor_def native_tls_acceptor_def)

lemma rustls_impl_eq: "rustls_impl v = rustls_acceptor"
  by (cases v) (simp_all add: rustls_0_20_acceptor_def rustls_0_21_acceptor_def rustls_0_22_acceptor_def rustls_0_23_acceptor_def)

lemma backend_new_service_eq: "backend_new_service b = acceptor_new_service b"
proof (cases b)
  case (Rustls v)
  then show ?thesis
    by (cases v) (simp_all add: rustls_0_20_new_service_def rustls_0_21_new_service_def rustls_0_22_new_service_def rustls_0_23_new_service_def)
qed (simp_all add: openssl_new_service_def native_tls_new_service_def)

lemma counter_ready_cases:
  assumes "counter_ready cx c = (r, c1)"
  shows "cnt c1 = cnt c" "capacity c1 = capacity c" "r = Ready (Ok ()) \<longleftrightarrow> unat (cnt c) < unat (capacity c)"
proof -
  obtain b d where d: "counter_available cx c = (b, d)" by force
  with assms have "r = (if b then Ready (Ok ()) else Pending)" "c1 = d" by (simp_all add: counter_ready_def)
  with d slots.has_room [of cx c] available_fields [of cx c]
  show "cnt c1 = cnt c" "capacity c1 = capacity c" "r = Ready (Ok ()) \<longleftrightarrow> unat (cnt c) < unat (capacity c)" by auto
qed

text \<open>Every back end takes one guard per call.\<close>

lemma backend_call_guard: "backend_call b now rq t c = Ok (f, c1) \<Longrightarrow> guard_new c = Ok c1"
  by (cases b; cases "guard_new c") (auto simp: rustls_impl_eq rustls_acceptor_def openssl_acceptor_def ossl_acceptor_call_def
      native_tls_acceptor_def native_acceptor_call_def split: result.splits)

lemma guard_new_Ok: "guard_new c = Ok c1 \<Longrightarrow> unat (cnt c1) = unat (cnt c) + 1 \<and> capacity c1 = capacity c"
  by (auto simp: guard_new_def counter_inc_def dest: unat_checked_add split: option.splits)

lemma release_if_Ok:
  "release_if d c = Ok c1 \<Longrightarrow> unat (cnt c1) = unat (cnt c) - of_bool d \<and> (d \<longrightarrow> 0 < unat (cnt c)) \<and> capacity c1 = capacity c"
  by (auto simp: release_if_def guard_drop_def counter_dec_def Let_def unat_pred usize_pos_iff split: if_splits prod.splits)

lemma release_if_total: "0 < unat (cnt c) \<or> \<not> d \<Longrightarrow> \<exists>c1. release_if d c = Ok c1"
  by (auto simp: release_if_def guard_drop_def counter_dec_def Let_def usize_pos_iff split: prod.splits)

lemma tls_thread_invD:
  "tls_thread_inv excl s \<Longrightarrow> max_conn_counter s = Some c \<Longrightarrow> counted excl s c \<and> tls_services s \<noteq> []"
  by (simp add: tls_thread_inv_def)

lemma permits_use:
  assumes "k < length (tls_services s)" "sv_permit (tls_services s ! k)"
  shows "length (filter sv_permit (use_permit excl k (tls_services s))) = (if excl then 0 else permits s - 1)"
    "0 < permits s" "length (use_permit excl k (tls_services s)) = length (tls_services s)"
proof -
  have e: "length (filter sv_permit ((tls_services s)[k := v])) + 1 = permits s + of_bool (sv_permit v)" for v
    using length_filter_update [OF assms(1), of sv_permit v] assms(2) by (simp add: permits_def)
  from e [of "(tls_services s ! k)\<lparr>sv_permit := False\<rparr>"]
  show "0 < permits s" "length (filter sv_permit (use_permit excl k (tls_services s))) = (if excl then 0 else permits s - 1)"
    by (cases excl; simp add: use_permit_def filter_empty_conv)+
  show "length (use_permit excl k (tls_services s)) = length (tls_services s)" by (simp add: use_permit_def)
qed

lemma tls_step_inv: "tls_step excl s s' \<Longrightarrow> tls_thread_inv excl s \<Longrightarrow> tls_thread_inv excl s'"
proof (induction rule: tls_step.induct)
  case (th_max s n)
  then show ?case
    by (cases "max_conn_counter s"; cases excl)
      (simp_all add: tls_thread_inv_def max_concurrent_tls_connect_def counted_def alive_def permits_def)
next
  case (th_service b a s sv s1)
  then show ?case
    by (cases "max_conn_counter s"; cases excl)
      (auto simp: backend_new_service_eq acceptor_new_service_def with_counter_def tls_thread_inv_def counted_def
        alive_def permits_def counter_new_def Let_def)
next
  case (th_ready k s c cx r c1)
  note inv = tls_thread_invD [OF th_ready(4,2)]
  note r = counter_ready_cases [OF th_ready(3) [unfolded backend_ready_eq]]
  have "permits (s\<lparr>tls_services := (tls_services s)[k := (tls_services s ! k)\<lparr>sv_permit := r = Ready (Ok ())\<rparr>]\<rparr>)
      + of_bool (sv_permit (tls_services s ! k)) = permits s + of_bool (r = Ready (Ok ()))"
    using length_filter_update [OF th_ready(1), of sv_permit "(tls_services s ! k)\<lparr>sv_permit := r = Ready (Ok ())\<rparr>"]
    by (simp add: permits_def)
  moreover have "permits (s\<lparr>tls_services := (tls_services s)[k := (tls_services s ! k)\<lparr>sv_permit := r = Ready (Ok ())\<rparr>]\<rparr>)
      \<le> length (tls_services s)"
    unfolding permits_def by (rule order_trans [OF length_filter_le]) simp
  moreover have "0 < length (tls_services s)" using th_ready(1) by linarith
  ultimately show ?case using inv r
    by (auto simp: tls_thread_inv_def counted_def alive_def permits_def split: if_splits)
next
  case (th_call k s c now rq f c1)
  note inv = tls_thread_invD [OF th_call(5,3)]
  note g = guard_new_Ok [OF backend_call_guard [OF th_call(4)]]
  note p = permits_use(1) [OF th_call(1,2), of excl] permits_use(2) [OF th_call(1,2)] permits_use(3) [OF th_call(1,2), of excl]
  obtain n where n: "length (filter sv_permit (tls_services s)) = Suc n"
    using p(2) by (cases "length (filter sv_permit (tls_services s))") (simp_all add: permits_def)
  have "use_permit excl k (tls_services s) \<noteq> []" using p(3) th_call(1) by auto
  then show ?case using inv g p n by (auto simp: tls_thread_inv_def counted_def alive_def permits_def split: if_splits)
next
  case (th_poll i s f g c now r f1 d c1)
  note inv = tls_thread_invD [OF th_poll(6,3)]
  note rel = release_if_Ok [OF th_poll(5)]
  have "alive (s\<lparr>tls_futs := (tls_futs s)[i := (f1, g \<and> \<not> d)]\<rparr>) + of_bool g = alive s + of_bool (g \<and> \<not> d)"
    using length_filter_update [OF th_poll(1), of snd "(f1, g \<and> \<not> d)"] th_poll(2) by (simp add: alive_def)
  then show ?case using inv rel
    by (cases g; cases d) (auto simp: tls_thread_inv_def counted_def alive_def permits_def split: if_splits)
next
  case (th_drop i s f g c c1)
  note inv = tls_thread_invD [OF th_drop(5,3)]
  note rel = release_if_Ok [OF th_drop(4)]
  have "alive (s\<lparr>tls_futs := take i (tls_futs s) @ drop (Suc i) (tls_futs s)\<rparr>) + of_bool g = alive s"
    using length_filter_remove [OF th_drop(1), of snd] th_drop(2) by (simp add: alive_def)
  then show ?case using inv rel
    by (cases g) (auto simp: tls_thread_inv_def counted_def alive_def permits_def split: if_splits)
qed

lemma tls_run_thread_inv: "(tls_step excl)\<^sup>*\<^sup>* s s' \<Longrightarrow> tls_thread_inv excl s \<Longrightarrow> tls_thread_inv excl s'"
  by (induction rule: rtranclp_induct) (auto intro: tls_step_inv)

lemma tls_thread_start_inv: "tls_thread_inv excl (tls_thread_start m)"
  by (simp add: tls_thread_inv_def tls_thread_start_def)

text \<open>The captured limit stays.\<close>

lemma tls_step_capacity:
  assumes "tls_step excl s s'" "max_conn_counter s = Some c"
  shows "\<exists>c'. max_conn_counter s' = Some c' \<and> capacity c' = capacity c"
  using assms
proof cases
  case (th_ready k c cx r c1)
  with assms(2) counter_ready_cases(2) [of cx c r c1] show ?thesis by (simp add: backend_ready_eq)
next
  case (th_call k c now rq f c1)
  with assms(2) guard_new_Ok [OF backend_call_guard] show ?thesis by fastforce
next
  case (th_poll i f g c now r f1 d c1)
  with assms(2) release_if_Ok show ?thesis by fastforce
next
  case (th_drop i f g c c1)
  with assms(2) release_if_Ok show ?thesis by fastforce
qed (auto simp: max_concurrent_tls_connect_def backend_new_service_eq acceptor_new_service_def with_counter_def)

lemma tls_run_capacity:
  "(tls_step excl)\<^sup>*\<^sup>* s s' \<Longrightarrow> max_conn_counter s = Some c \<Longrightarrow> \<exists>c'. max_conn_counter s' = Some c' \<and> capacity c' = capacity c"
proof (induction rule: rtranclp_induct)
  case (step y z)
  then obtain d where "max_conn_counter y = Some d" "capacity d = capacity c" by blast
  with tls_step_capacity [OF step(2)] show ?case by fastforce
qed simp

section \<open>Properties\<close>

text \<open>
  C38. The handshakes of a thread are bounded, over all its acceptors and back ends.  In every
  interleaving of \<open>poll_ready\<close>, calls after it, polls and drops, and of changes of \<open>MAX_CONN\<close>: the
  counter is the number of live guards; the limit is the one captured when the first acceptor service
  of the thread was made; if a call is preceded by a round of \<open>poll_ready\<close> of its own, as the worker
  does it, the handshakes never exceed the limit, and if each service is only called after its own
  \<open>poll_ready\<close>, the excess is at most one per further service.  \<open>poll_ready\<close> answers \<open>Ready\<close> exactly when
  a slot is free, and giving a guard back never panics.
\<close>

theorem tls_thread_bounded:
  assumes "(tls_step excl)\<^sup>*\<^sup>* (tls_thread_start m) s" and "max_conn_counter s = Some c" and "(tls_step excl)\<^sup>*\<^sup>* s s'"
  shows "\<exists>c'. max_conn_counter s' = Some c' \<and> capacity c' = capacity c \<and> unat (cnt c') = alive s'
    \<and> alive s' \<le> unat (capacity c) + (if excl then 0 else length (tls_services s') - 1)
    \<and> (fst (backend_ready b cx c') = Ready (Ok ()) \<longleftrightarrow> alive s' < unat (capacity c))
    \<and> (\<forall>(f, g) \<in> set (tls_futs s'). \<exists>c1. release_if g c' = Ok c1)"
proof -
  from tls_run_capacity [OF assms(3,2)] obtain c' where c: "max_conn_counter s' = Some c'" "capacity c' = capacity c" by blast
  have "tls_thread_inv excl s'"
    by (rule tls_run_thread_inv [OF assms(3) tls_run_thread_inv [OF assms(1) tls_thread_start_inv]])
  from tls_thread_invD [OF this c(1)] have inv: "counted excl s' c'" "0 < length (tls_services s')" by auto
  have "alive s' \<le> unat (capacity c) + (if excl then 0 else length (tls_services s') - 1)"
    using inv c(2) by (auto simp: counted_def split: if_splits)
  moreover have "fst (backend_ready b cx c') = Ready (Ok ()) \<longleftrightarrow> alive s' < unat (capacity c)"
    using counter_ready_cases(3) [of cx c' "fst (counter_ready cx c')" "snd (counter_ready cx c')"] inv c(2)
    by (simp add: backend_ready_eq counted_def)
  moreover have "\<exists>c1. release_if g c' = Ok c1" if "(f, g) \<in> set (tls_futs s')" for f g
  proof (rule release_if_total)
    have "g \<longrightarrow> filter snd (tls_futs s') \<noteq> []" using that by (force simp: filter_empty_conv)
    then show "0 < unat (cnt c') \<or> \<not> g" using inv by (auto simp: counted_def alive_def)
  qed
  ultimately show ?thesis using c inv by (auto simp: counted_def)
qed

text \<open>The excess is real: two services of a thread that may do one handshake, both found ready before
  either is called.\<close>

abbreviation plain_req :: accept_req where
  "plain_req \<equiv> \<lparr>rq_handshake = [], rq_ssl = Ok (), rq_stream = Ok 0, rq_poll_accept = (\<lambda>io. [])\<rparr>"

abbreviation two_services :: "usize \<Rightarrow> bool \<Rightarrow> bool \<Rightarrow> (tls_fut \<times> bool) list \<Rightarrow> tls_thread" where
  "two_services n p q fs \<equiv>
     \<lparr>max_conn = 1, max_conn_counter = Some \<lparr>cnt = n, capacity = 1, ctask = waker_new\<rparr>,
      tls_services = [\<lparr>sv_backend = Rustls V0_23, sv_timeout = 3000, sv_permit = p\<rparr>,
                      \<lparr>sv_backend = NativeTls, sv_timeout = 3000, sv_permit = q\<rparr>], tls_futs = fs\<rparr>"

lemma two_services_run:
  "\<exists>fs. (tls_step False)\<^sup>*\<^sup>* (tls_thread_start 1) (two_services 0 False False [])
     \<and> (tls_step False)\<^sup>*\<^sup>* (two_services 0 False False []) (two_services 2 False False fs) \<and> length (filter snd fs) = 2"
proof -
  let ?st = "tls_step False" and ?a = "acceptor_factory_new 0"
  let ?y = "\<lparr>max_conn = 1, max_conn_counter = Some \<lparr>cnt = 0, capacity = 1, ctask = waker_new\<rparr>,
      tls_services = [\<lparr>sv_backend = Rustls V0_23, sv_timeout = 3000, sv_permit = False\<rparr>], tls_futs = []\<rparr> :: tls_thread"
  let ?f = "RustlsFut V0_23 \<lparr>hs_fut = [], hs_deadline = 3000\<rparr>" and ?g = "NativeFut (NativeStart [] 3000)"
  have 1: "?st (tls_thread_start 1) ?y"
    using th_service [where excl = False and s = "tls_thread_start 1" and b = "Rustls V0_23" and a = ?a]
    by (simp add: rustls_0_23_new_service_def acceptor_new_service_def with_counter_def tls_thread_start_def
        acceptor_factory_new_def DEFAULT_TLS_HANDSHAKE_TIMEOUT_def counter_new_def Let_def)
  have 2: "?st ?y (two_services 0 False False [])"
    using th_service [where excl = False and s = ?y and b = NativeTls and a = ?a]
    by (simp add: native_tls_new_service_def acceptor_new_service_def with_counter_def
        acceptor_factory_new_def DEFAULT_TLS_HANDSHAKE_TIMEOUT_def)
  have 3: "?st (two_services 0 False False []) (two_services 0 True False [])"
    using th_ready [where excl = False and s = "two_services 0 False False []" and k = 0 and cx = 1
        and c = "\<lparr>cnt = 0, capacity = 1, ctask = waker_new\<rparr>" and r = "Ready (Ok ())" and c' = "\<lparr>cnt = 0, capacity = 1, ctask = waker_new\<rparr>"]
    by (simp add: backend_ready_eq counter_ready_def counter_available_def)
  have 4: "?st (two_services 0 True False []) (two_services 0 True True [])"
    using th_ready [where excl = False and s = "two_services 0 True False []" and k = 1 and cx = 1
        and c = "\<lparr>cnt = 0, capacity = 1, ctask = waker_new\<rparr>" and r = "Ready (Ok ())" and c' = "\<lparr>cnt = 0, capacity = 1, ctask = waker_new\<rparr>"]
    by (simp add: backend_ready_eq counter_ready_def counter_available_def)
  have 5: "?st (two_services 0 True True []) (two_services 1 False True [(?f, True)])"
    using th_call [where excl = False and s = "two_services 0 True True []" and k = 0 and now = 0 and rq = plain_req
        and c = "\<lparr>cnt = 0, capacity = 1, ctask = waker_new\<rparr>" and f = ?f and c' = "\<lparr>cnt = 1, capacity = 1, ctask = waker_new\<rparr>"]
    by (simp add: rustls_0_23_acceptor_def rustls_acceptor_def guard_new_def counter_inc_def checked_add_def use_permit_def)
  have 6: "?st (two_services 1 False True [(?f, True)]) (two_services 2 False False [(?f, True), (?g, True)])"
    using th_call [where excl = False and s = "two_services 1 False True [(?f, True)]" and k = 1 and now = 0 and rq = plain_req
        and c = "\<lparr>cnt = 1, capacity = 1, ctask = waker_new\<rparr>" and f = ?g and c' = "\<lparr>cnt = 2, capacity = 1, ctask = waker_new\<rparr>"]
    by (simp add: native_tls_acceptor_def native_acceptor_call_def guard_new_def counter_inc_def checked_add_def use_permit_def)
  note step = converse_rtranclp_into_rtranclp [where r = ?st]
  have "?st\<^sup>*\<^sup>* (tls_thread_start 1) (two_services 0 False False [])"
    by (rule step, rule 1, rule step, rule 2, rule rtranclp.rtrancl_refl)
  moreover have "?st\<^sup>*\<^sup>* (two_services 0 False False []) (two_services 2 False False [(?f, True), (?g, True)])"
    by (rule step, rule 3, rule step, rule 4, rule step, rule 5, rule step, rule 6, rule rtranclp.rtrancl_refl)
  ultimately show ?thesis by (intro exI [of _ "[(?f, True), (?g, True)]"]) simp
qed

theorem tls_thread_bounded_witness:
  "\<exists>s' c'. (tls_step False)\<^sup>*\<^sup>* (tls_thread_start 1) s' \<and> max_conn_counter s' = Some c' \<and> capacity c' = 1
     \<and> alive s' = 2 \<and> alive s' \<le> 1 + (length (tls_services s') - 1)"
proof -
  obtain fs where r: "(tls_step False)\<^sup>*\<^sup>* (tls_thread_start 1) (two_services 0 False False [])"
    "(tls_step False)\<^sup>*\<^sup>* (two_services 0 False False []) (two_services 2 False False fs)" "length (filter snd fs) = 2"
    using two_services_run by blast
  from tls_thread_bounded [OF r(1) _ r(2)] r(3) rtranclp_trans [OF r(1,2)] show ?thesis
    by (intro exI [of _ "two_services 2 False False fs"]) (auto simp: alive_def)
qed

end
