(* ===== verification/Macros.thy ===== *)
theory Macros
  imports Prelude
begin

text \<open>
  \<open>actix-macros/src/lib.rs\<close>: the attribute macros \<open>main\<close> and \<open>test\<close>.  The parsers of the \<open>syn\<close> crate
  are parameters: the results of parsing the item and the arguments are inputs (\<open>Err\<close> a parse error),
  and \<open>parse_path\<close> parses a string literal as a path.  An item keeps what the macros look at, and the
  rest (visibility, signature, body) as one opaque value; an expansion is the tree \<open>quote!\<close> builds.
\<close>

section \<open>Input and output\<close>

text \<open>An argument: a name and a string literal, with the name only if the path is a single
  identifier; or anything else.\<close>

datatype macro_arg = NameStr "string option" string | OtherArg

record ('a, 'b) fn_item =
  item_attrs :: "'a list"
  is_async :: bool
  item_rest :: 'b

datatype macro_error = SynError nat | MissingAsync | ExpectedPath | UnknownAttribute

text \<open>\<open>input_and_compile_error\<close> keeps the input before the error; the other errors stand alone.  The
  flag of \<open>EntryPoint\<close> is the added \<open>test\<close> attribute.\<close>

datatype ('i, 'a, 'b, 'p) expansion =
  InputAndCompileError 'i macro_error
| CompileError macro_error
| EntryPoint bool "'a list" 'p 'b

definition input_and_compile_error :: "'i \<Rightarrow> macro_error \<Rightarrow> ('i, 'a, 'b, 'p) expansion" where
  "input_and_compile_error item err = InputAndCompileError item err"

section \<open>Arguments\<close>

text \<open>\<open>to_lowercase\<close> on the letters that can occur in the names compared with.\<close>

definition to_lowercase :: "string \<Rightarrow> string" where
  "to_lowercase = map (\<lambda>c. if 65 \<le> (of_char c :: nat) \<and> (of_char c :: nat) \<le> 90 then char_of (of_char c + 32 :: nat) else c)"

fun system_arg :: "(string \<Rightarrow> 'p option) \<Rightarrow> macro_arg list \<Rightarrow> 'p \<Rightarrow> ('p, macro_error) result" where
  "system_arg parse_path [] system = Ok system"
| "system_arg parse_path (NameStr name lit # args) system =
     (if map_option to_lowercase name = Some ''system'' then
        (case parse_path lit of
           Some path \<Rightarrow> system_arg parse_path args path
         | None \<Rightarrow> Err ExpectedPath)
      else Err UnknownAttribute)"
| "system_arg parse_path (OtherArg # args) system = Err UnknownAttribute"

section \<open>The macros\<close>

definition main_macro ::
  "(string \<Rightarrow> 'p option) \<Rightarrow> 'p \<Rightarrow> (macro_arg list, nat) result \<Rightarrow> 'i \<Rightarrow> (('a, 'b) fn_item, nat) result \<Rightarrow>
   ('i, 'a, 'b, 'p) expansion" where
  "main_macro parse_path system_path args item parsed =
     (case parsed of
        Err e \<Rightarrow> input_and_compile_error item (SynError e)
      | Ok input \<Rightarrow>
          (case args of
             Err e \<Rightarrow> input_and_compile_error item (SynError e)
           | Ok as \<Rightarrow>
               (if \<not> is_async input then CompileError MissingAsync
                else
                  case system_arg parse_path as system_path of
                    Err e \<Rightarrow> CompileError e
                  | Ok system \<Rightarrow> EntryPoint False (item_attrs input) system (item_rest input))))"

definition test_macro ::
  "('a \<Rightarrow> bool) \<Rightarrow> (string \<Rightarrow> 'p option) \<Rightarrow> 'p \<Rightarrow> (macro_arg list, nat) result \<Rightarrow> 'i \<Rightarrow> (('a, 'b) fn_item, nat) result \<Rightarrow>
   ('i, 'a, 'b, 'p) expansion" where
  "test_macro is_test parse_path system_path args item parsed =
     (case parsed of
        Err e \<Rightarrow> input_and_compile_error item (SynError e)
      | Ok input \<Rightarrow>
          (case args of
             Err e \<Rightarrow> input_and_compile_error item (SynError e)
           | Ok as \<Rightarrow>
               (let has_test_attr = list_ex is_test (item_attrs input)
                in if \<not> is_async input then CompileError MissingAsync
                   else
                     case system_arg parse_path as system_path of
                       Err e \<Rightarrow> CompileError e
                     | Ok system \<Rightarrow> EntryPoint (\<not> has_test_attr) (item_attrs input) system (item_rest input))))"

section \<open>Properties\<close>

text \<open>What an argument means by itself.\<close>

definition arg_path :: "(string \<Rightarrow> 'p option) \<Rightarrow> macro_arg \<Rightarrow> ('p, macro_error) result" where
  "arg_path parse_path a =
     (case a of
        NameStr (Some name) lit \<Rightarrow>
          (if to_lowercase name \<noteq> ''system'' then Err UnknownAttribute
           else case parse_path lit of Some p \<Rightarrow> Ok p | None \<Rightarrow> Err ExpectedPath)
      | _ \<Rightarrow> Err UnknownAttribute)"

definition is_ok :: "('a, 'e) result \<Rightarrow> bool" where
  "is_ok r = (case r of Ok x \<Rightarrow> True | Err e \<Rightarrow> False)"

lemma system_arg_spec:
  "system_arg parse_path args system =
     (case find (\<lambda>a. \<not> is_ok (arg_path parse_path a)) args of
        Some a \<Rightarrow> arg_path parse_path a
      | None \<Rightarrow> (if args = [] then Ok system else arg_path parse_path (last args)))"
proof (induction args arbitrary: system)
  case (Cons a args)
  then show ?case
    by (cases a; cases args)
      (auto simp: arg_path_def is_ok_def split: option.splits)
qed simp

text \<open>
  Expansion of the macros.  A parse error of the item, else of the arguments, keeps the input for
  the reader; a function that is not async is refused before the arguments are looked at; the first
  bad argument gives its own error; else the body runs in the system named last, the given one where
  none is named.  \<open>main\<close> and \<open>test\<close> differ in the attribute only: the expansion of \<open>test\<close> has a test
  attribute, and a second one is never added.\<close>

theorem macros_expand:
  "main_macro parse_path sys args item parsed =
     (case (parsed, args) of
        (Err e, _) \<Rightarrow> InputAndCompileError item (SynError e)
      | (Ok input, Err e) \<Rightarrow> InputAndCompileError item (SynError e)
      | (Ok input, Ok as) \<Rightarrow>
          (if \<not> is_async input then CompileError MissingAsync
           else case find (\<lambda>a. \<not> is_ok (arg_path parse_path a)) as of
               Some a \<Rightarrow> (case arg_path parse_path a of Err e \<Rightarrow> CompileError e)
             | None \<Rightarrow> EntryPoint False (item_attrs input)
                 (case arg_path parse_path (last (OtherArg # as)) of Ok p \<Rightarrow> p | Err e \<Rightarrow> sys) (item_rest input)))
   \<and> test_macro is_test parse_path sys args item parsed =
     (case main_macro parse_path sys args item parsed of
        EntryPoint b attrs p rest \<Rightarrow> EntryPoint (filter is_test attrs = []) attrs p rest
      | e \<Rightarrow> e)"
proof -
  have none: "find (\<lambda>a. \<not> is_ok (arg_path parse_path a)) as = None \<Longrightarrow> as \<noteq> [] \<Longrightarrow> is_ok (arg_path parse_path (last as))" for as
    by (auto simp: find_None_iff)
  have some: "find (\<lambda>a. \<not> is_ok (arg_path parse_path a)) as = Some a \<Longrightarrow> \<not> is_ok (arg_path parse_path a)" for as a
    by (auto simp: find_Some_iff)
  have "main_macro parse_path sys args item parsed =
     (case (parsed, args) of
        (Err e, _) \<Rightarrow> InputAndCompileError item (SynError e)
      | (Ok input, Err e) \<Rightarrow> InputAndCompileError item (SynError e)
      | (Ok input, Ok as) \<Rightarrow>
          (if \<not> is_async input then CompileError MissingAsync
           else case find (\<lambda>a. \<not> is_ok (arg_path parse_path a)) as of
               Some a \<Rightarrow> (case arg_path parse_path a of Err e \<Rightarrow> CompileError e)
             | None \<Rightarrow> EntryPoint False (item_attrs input)
                 (case arg_path parse_path (last (OtherArg # as)) of Ok p \<Rightarrow> p | Err e \<Rightarrow> sys) (item_rest input)))"
    using none some
    by (fastforce simp: main_macro_def input_and_compile_error_def system_arg_spec arg_path_def is_ok_def
        split: result.splits option.splits if_splits)
  moreover have "test_macro is_test parse_path sys args item parsed =
     (case main_macro parse_path sys args item parsed of
        EntryPoint b attrs p rest \<Rightarrow> EntryPoint (filter is_test attrs = []) attrs p rest
      | e \<Rightarrow> e)"
    by (auto simp: test_macro_def main_macro_def input_and_compile_error_def Let_def list_ex_iff filter_empty_conv
        split: result.splits)
  ultimately show ?thesis by (rule conjI)
qed

end
