(* ===== verification/Server_Stop.thy ===== *)
theory Server_Stop
  imports Server_Run Server_Command
begin

text \<open>
  The stop of a running server, in time: \<open>handle_cmd\<close> of \<open>actix-server/src/server.rs\<close> sends every worker a
  stop request and, when it is graceful, joins their answers; the workers of \<open>Server_Worker\<close> read the
  request in their polls, shut down and answer.  The clock is in milliseconds.  A worker is woken by its
  request and by its timer, and \<open>lag\<close> bounds how long the runtime takes to poll a woken worker: time
  does not pass that point before the poll.  Polls may also come earlier, connections may still
  arrive and handlers may end at any time.
\<close>

section \<open>State and steps\<close>

record stop_sys =
  clock :: nat
  asked_at :: nat
  st_workers :: "(worker \<times> bool) list"

text \<open>A worker future that has not completed is \<open>True\<close> in \<open>st_workers\<close>.  The requests of a list of
  effects, sent to the workers: a request carries the sender of its answer, here the worker's index.\<close>

fun deliver_stop :: "effect \<Rightarrow> worker list \<Rightarrow> worker list" where
  "deliver_stop (EWorkerStop i ch graceful) ws =
     map (\<lambda>w. if widx w = i then w\<lparr>stop_rx := stop_rx w @ [(graceful, i)]\<rparr> else w) ws"
| "deliver_stop e ws = ws"

definition stop_sent :: "nat \<Rightarrow> effect list \<Rightarrow> worker list \<Rightarrow> stop_sys" where
  "stop_sent t es ws = \<lparr>clock = t, asked_at = t, st_workers = map (\<lambda>w. (w, True)) (fold deliver_stop es ws)\<rparr>"

text \<open>No woken worker has waited for \<open>lag\<close>.\<close>

fun may_wait :: "nat \<Rightarrow> nat \<Rightarrow> nat \<Rightarrow> worker \<times> bool \<Rightarrow> bool" where
  "may_wait lag asked now (w, alive) \<longleftrightarrow> (alive \<longrightarrow>
     (stop_rx w \<noteq> [] \<longrightarrow> now < asked + lag)
     \<and> (case wstate w of WShutdown timer start_from tx \<Rightarrow> now < timer + lag | _ \<Rightarrow> True))"

definition set_st :: "nat \<Rightarrow> worker \<Rightarrow> bool \<Rightarrow> stop_sys \<Rightarrow> stop_sys" where
  "set_st i w alive y = y\<lparr>st_workers := (st_workers y)[i := (w, alive)]\<rparr>"

inductive stop_step :: "nat \<Rightarrow> (nat \<Rightarrow> bool) \<Rightarrow> stop_sys \<Rightarrow> stop_sys \<Rightarrow> bool" for lag conv where
  st_poll: "i < length (st_workers y) \<Longrightarrow> st_workers y ! i = (w, True) \<Longrightarrow>
     worker_poll conv (clock y) w = Some (Ok (b, w')) \<Longrightarrow> stop_step lag conv y (set_st i w' (\<not> b) y)"
| st_send: "i < length (st_workers y) \<Longrightarrow> st_workers y ! i = (w, True) \<Longrightarrow>
     c_token c < length (services w) \<Longrightarrow> length (conn_rx w) + length (worker.live w) + 2 < 2 ^ 64 \<Longrightarrow>
     stop_step lag conv y (set_st i (w\<lparr>counter := snd (wc_inc (counter w)), conn_rx := conn_rx w @ [c]\<rparr>) True y)"
| st_done: "i < length (st_workers y) \<Longrightarrow> st_workers y ! i = (w, True) \<Longrightarrow> k < length (worker.live w) \<Longrightarrow>
     stop_step lag conv y (set_st i (handler_done k w) True y)"
| st_tick: "\<forall>p \<in> set (st_workers y). may_wait lag (asked_at y) (clock y) p \<Longrightarrow>
     stop_step lag conv y (y\<lparr>clock := clock y + 1\<rparr>)"

inductive stop_run :: "nat \<Rightarrow> (nat \<Rightarrow> bool) \<Rightarrow> stop_sys \<Rightarrow> stop_sys \<Rightarrow> bool" for lag conv y where
  sr_start: "stop_run lag conv y y"
| sr_step: "stop_run lag conv y z \<Longrightarrow> stop_step lag conv z z' \<Longrightarrow> stop_run lag conv y z'"

text \<open>The receiver of a worker's answer: the answer, or that the sender was dropped with the worker.\<close>

fun stop_receiver :: "worker \<times> bool \<Rightarrow> bool option poll" where
  "stop_receiver (w, alive) =
     (case map_of (replies w) (widx w) of
        Some r \<Rightarrow> Ready (Some r)
      | None \<Rightarrow> (if alive then Pending else Ready None))"

definition await_stops :: "stop_sys \<Rightarrow> bool option list poll" where
  "await_stops y = (case fst (join_poll (join_all (map (\<lambda>p. [stop_receiver p]) (st_workers y)))) of
      Ok r \<Rightarrow> r | Err p \<Rightarrow> Pending)"

section \<open>One worker\<close>

lemma drop_conns_keeps:
  "stop_rx (drop_conns cs w) = stop_rx w \<and> widx (drop_conns cs w) = widx w"
proof (induction cs arbitrary: w)
  case (Cons c cs)
  have "widx (drop_guard v) = widx v" for v by (simp add: drop_guard_def split: prod.split option.split)
  with Cons show ?case by (simp add: drop_guard_fields)
qed simp

text \<open>A worker in the graceful shutdown keeps its place, its request and the time it began.\<close>

lemma poll_shutdown_cases:
  assumes wf: "worker_wf w"
  shows "\<exists>b w'. poll_shutdown now timer start tx w = Return b w' \<and> stop_rx w' = stop_rx w \<and> widx w' = widx w
    \<and> shutdown_timeout w' = shutdown_timeout w
    \<and> (if b then timer \<le> now \<and> (\<exists>r. replies w' = replies w @ [(tx, r)] \<and> (\<not> r \<longrightarrow> shutdown_timeout w \<le> now - start))
       else replies w' = replies w
         \<and> (now < timer \<and> wstate w' = wstate w
            \<or> now - start < shutdown_timeout w \<and> wstate w' = WShutdown (now + SHUTDOWN_POLL_INTERVAL) start tx))"
proof -
  let ?w1 = "drop_conns (conn_rx w) w"
  note d = drop_conns_ok [OF wf refl] and k = drop_conns_keeps [of "conn_rx w" w]
  have tot: "wc_total (counter ?w1) = Ok (of_nat (length (conn_rx ?w1) + length (worker.live ?w1)))"
    using wc_total_wf d by blast
  show ?thesis using d k tot by (auto simp: poll_shutdown_def Let_def simp del: of_nat_add)
qed

lemma worker_poll_Return: "worker_step conv now True w = Return b w' \<Longrightarrow> worker_poll conv now w = Some (Ok (b, w'))"
  by (subst worker_poll_def, subst worker_run.simps) simp

text \<open>A poll that reads the request.\<close>

lemma poll_asked:
  assumes wf: "worker_wf w" and st: "stop_rx w = [(g, tx)]" and p: "worker_poll conv now w = Some (Ok (b, w'))"
  shows "stop_rx w' = [] \<and> shutdown_timeout w' = shutdown_timeout w \<and> widx w' = widx w
    \<and> (if b then \<exists>r. replies w' = replies w @ [(tx, r)] \<and> (g \<longrightarrow> r)
       else g \<and> replies w' = replies w \<and> wstate w' = WShutdown (now + SHUTDOWN_POLL_INTERVAL) now tx)"
proof -
  note tot = wc_total_wf [OF wf]
  let ?n = "of_nat (length (conn_rx w) + length (worker.live w)) :: usize"
  consider "?n = 0" | "?n \<noteq> 0" "\<not> g" | "?n \<noteq> 0" "g" by blast
  then show ?thesis
  proof cases
    case 1
    then have "worker_step conv now True w = Return True (w\<lparr>stop_rx := [], replies := replies w @ [(tx, True)]\<rparr>)"
      using tot st by (simp add: worker_step_def handle_stop_def Let_def del: of_nat_add)
    from worker_poll_Return [OF this] p show ?thesis by auto
  next
    case 2
    then have "worker_step conv now True w = Return True ((shutdown True (w\<lparr>stop_rx := []\<rparr>))\<lparr>replies := replies w @ [(tx, False)]\<rparr>)"
      using tot st by (simp add: worker_step_def handle_stop_def Let_def shutdown_fields del: of_nat_add)
    from worker_poll_Return [OF this] p 2 show ?thesis by (auto simp: shutdown_def)
  next
    case 3
    let ?w1 = "(shutdown False (w\<lparr>stop_rx := []\<rparr>))\<lparr>wstate := WShutdown (now + SHUTDOWN_POLL_INTERVAL) now tx\<rparr>"
    have "worker_step conv now True w = Return False (drop_conns (conn_rx ?w1) ?w1)"
      using tot st 3 by (simp add: worker_step_def handle_stop_def Let_def poll_shutdown_def SHUTDOWN_POLL_INTERVAL_def
          del: of_nat_add)
    from worker_poll_Return [OF this] p
    have r: "b = False" "w' = drop_conns (conn_rx ?w1) ?w1" by simp_all
    have "worker_wf ?w1" by (rule worker_wf_cong [OF wf]) (auto simp: shutdown_fields)
    from drop_conns_ok [OF this refl] drop_conns_keeps [of "conn_rx ?w1" ?w1] r 3
    show ?thesis by (simp add: shutdown_def)
  qed
qed

lemma poll_shutting:
  assumes wf: "worker_wf w" and st: "stop_rx w = []" "wstate w = WShutdown timer start tx"
    and p: "worker_poll conv now w = Some (Ok (b, w'))"
  shows "stop_rx w' = [] \<and> shutdown_timeout w' = shutdown_timeout w \<and> widx w' = widx w
    \<and> (if b then timer \<le> now \<and> (\<exists>r. replies w' = replies w @ [(tx, r)] \<and> (\<not> r \<longrightarrow> shutdown_timeout w \<le> now - start))
       else replies w' = replies w
         \<and> (now < timer \<and> wstate w' = wstate w
            \<or> now - start < shutdown_timeout w \<and> wstate w' = WShutdown (now + SHUTDOWN_POLL_INTERVAL) start tx))"
proof -
  have "worker_step conv now True w = poll_shutdown now timer start tx w"
    using st by (simp add: worker_step_def handle_stop_def)
  with poll_shutdown_cases [OF wf, of now timer start tx] worker_poll_Return [of conv now w] p st(1) show ?thesis by fastforce
qed

section \<open>The invariant of a stop\<close>

text \<open>A worker that has not read its request is not late; one that shuts down has a timer that is not
  late and at most one interval behind its timeout; one that ended has answered its request once.\<close>

fun stop_ok :: "bool \<Rightarrow> nat \<Rightarrow> nat \<Rightarrow> nat \<Rightarrow> nat \<Rightarrow> worker \<times> bool \<Rightarrow> bool" where
  "stop_ok g T lag t now (w, alive) \<longleftrightarrow> worker_wf w \<and> shutdown_timeout w \<le> T
     \<and> (if alive then replies w = []
          \<and> (stop_rx w = [(g, widx w)] \<and> now \<le> t + lag
             \<or> g \<and> stop_rx w = [] \<and> (\<exists>timer start. wstate w = WShutdown timer start (widx w)
                 \<and> t \<le> start \<and> start \<le> t + lag \<and> timer \<le> start + T + SHUTDOWN_POLL_INTERVAL \<and> now \<le> timer + lag))
        else \<exists>r. replies w = [(widx w, r)] \<and> (r \<longleftrightarrow> worker.live w = [] \<and> conn_rx w = [])
          \<and> (g \<and> \<not> r \<longrightarrow> t + shutdown_timeout w \<le> now))"

lemma stop_ok_poll:
  assumes ok: "stop_ok g T lag t now (w, True)" and t: "t \<le> now"
    and p: "worker_poll conv now w = Some (Ok (b, w'))"
  shows "stop_ok g T lag t now (w', \<not> b)"
proof -
  have wf: "worker_wf w" and T: "shutdown_timeout w \<le> T" "replies w = []" using ok by simp_all
  note e = worker_poll_ok(1,3) [OF wf p]
  from ok consider "stop_rx w = [(g, widx w)]" "now \<le> t + lag"
    | timer start where "g" "stop_rx w = []" "wstate w = WShutdown timer start (widx w)"
        "t \<le> start" "start \<le> t + lag" "timer \<le> start + T + SHUTDOWN_POLL_INTERVAL" "now \<le> timer + lag" by auto
  then show ?thesis
  proof cases
    case 1
    from poll_asked [OF wf 1(1) p] 1 t T e show ?thesis
      by (auto simp: ended_def split: if_splits)
  next
    case 2
    from poll_shutting [OF wf 2(2,3) p] 2 t T e show ?thesis
      by (auto simp: ended_def split: if_splits)
  qed
qed

lemma stop_ok_env:
  assumes "stop_ok g T lag t now (w, True)" and "worker_wf w'" and "shutdown_timeout w' = shutdown_timeout w"
    and "replies w' = replies w" and "stop_rx w' = stop_rx w" and "wstate w' = wstate w" and "widx w' = widx w"
  shows "stop_ok g T lag t now (w', True)"
  using assms by simp

lemma stop_ok_tick: "stop_ok g T lag t now p \<Longrightarrow> may_wait lag t now p \<Longrightarrow> stop_ok g T lag t (now + 1) p"
  by (cases p) auto

lemma handler_done_fields:
  "replies (handler_done k w) = replies w" "stop_rx (handler_done k w) = stop_rx w" "wstate (handler_done k w) = wstate w"
  "shutdown_timeout (handler_done k w) = shutdown_timeout w" "widx (handler_done k w) = widx w"
  by (simp_all add: handler_done_def drop_guard_fields) (simp add: drop_guard_def split: prod.split option.split)

definition stop_inv :: "bool \<Rightarrow> nat \<Rightarrow> nat \<Rightarrow> nat \<Rightarrow> nat list \<Rightarrow> stop_sys \<Rightarrow> bool" where
  "stop_inv g T lag t ids y \<longleftrightarrow> asked_at y = t \<and> t \<le> clock y \<and> map (widx \<circ> fst) (st_workers y) = ids
     \<and> (\<forall>p \<in> set (st_workers y). stop_ok g T lag t (clock y) p)"

lemma set_st_inv:
  assumes y: "stop_inv g T lag t ids y" and i: "i < length (st_workers y)" "st_workers y ! i = (w, a)"
    and w: "widx w' = widx w" "stop_ok g T lag t (clock y) (w', a')"
  shows "stop_inv g T lag t ids (set_st i w' a' y)"
proof -
  have "map (widx \<circ> fst) ((st_workers y)[i := (w', a')]) = map (widx \<circ> fst) (st_workers y)"
    using i w(1) by (simp add: map_update list_update_same_conv)
  then show ?thesis using y w(2) by (auto simp: stop_inv_def set_st_def dest: set_update_subset_insert [THEN subsetD])
qed

lemma poll_widx:
  assumes "stop_ok g T lag t now (w, True)" "worker_poll conv now w = Some (Ok (b, w'))"
  shows "widx w' = widx w"
proof -
  have wf: "worker_wf w" using assms(1) by simp
  from assms(1) consider "stop_rx w = [(g, widx w)]"
    | timer start where "stop_rx w = []" "wstate w = WShutdown timer start (widx w)" by auto
  then show ?thesis using poll_asked [OF wf _ assms(2)] poll_shutting [OF wf _ _ assms(2)] by cases blast+
qed

lemma stop_step_inv: "stop_step lag conv y z \<Longrightarrow> stop_inv g T lag t ids y \<Longrightarrow> stop_inv g T lag t ids z"
proof (induction rule: stop_step.induct)
  case (st_poll i y w b w')
  have ok: "stop_ok g T lag t (clock y) (w, True)" "t \<le> clock y"
    using st_poll(1,2,4) by (metis nth_mem stop_inv_def)+
  from set_st_inv [OF st_poll(4,1,2) poll_widx [OF ok(1) st_poll(3)] stop_ok_poll [OF ok st_poll(3)]] show ?case .
next
  case (st_send i y w c)
  have ok: "stop_ok g T lag t (clock y) (w, True)" using st_send(1,2,5) by (metis nth_mem stop_inv_def)
  then have "worker_wf w" by simp
  from worker_env_wf [OF env_send [OF st_send(3,4)] this] show ?case
    by (intro set_st_inv [OF st_send(5,1,2)] stop_ok_env [OF ok]) simp_all
next
  case (st_done i y w k)
  have ok: "stop_ok g T lag t (clock y) (w, True)" using st_done(1,2,4) by (metis nth_mem stop_inv_def)
  then have "worker_wf w" by simp
  from handler_done_wf [OF this st_done(3)] show ?case
    by (intro set_st_inv [OF st_done(4,1,2)] stop_ok_env [OF ok]) (simp_all add: handler_done_fields)
next
  case (st_tick y)
  then show ?case by (auto simp: stop_inv_def simp del: stop_ok.simps may_wait.simps intro!: stop_ok_tick [simplified])
qed

lemma stop_run_inv: "stop_run lag conv y z \<Longrightarrow> stop_inv g T lag t ids y \<Longrightarrow> stop_inv g T lag t ids z"
  by (induction rule: stop_run.induct) (auto intro: stop_step_inv)

lemma stop_run_trans: "stop_run lag conv y z \<Longrightarrow> stop_run lag conv x y \<Longrightarrow> stop_run lag conv x z"
  by (induction rule: stop_run.induct) (auto intro: stop_run.intros)

section \<open>Time goes on until every worker has ended\<close>

lemma may_wait_settled: "may_wait 0 now now p \<Longrightarrow> may_wait lag asked now p"
  by (cases p) (auto split: wstate.splits)

lemma poll_settled:
  assumes "stop_ok g T lag t now (w, True)" "worker_poll conv now w = Some (Ok (b, w'))"
  shows "may_wait 0 now now (w', \<not> b)"
proof -
  have wf: "worker_wf w" using assms(1) by simp
  from assms(1) consider "stop_rx w = [(g, widx w)]"
    | timer start where "stop_rx w = []" "wstate w = WShutdown timer start (widx w)" by auto
  then show ?thesis
    using poll_asked [OF wf _ assms(2)] poll_shutting [OF wf _ _ assms(2)]
    by cases (auto simp: SHUTDOWN_POLL_INTERVAL_def)
qed

text \<open>The polls of a stop return, whatever the services do: they end the worker or find it shutting down.\<close>

lemma stop_poll_returns:
  assumes "stop_ok g T lag t now (w, True)"
  shows "\<exists>b w'. worker_poll conv now w = Some (Ok (b, w'))"
proof -
  have wf: "worker_wf w" using assms by simp
  from assms consider "stop_rx w = [(g, widx w)]"
    | timer start where "stop_rx w = []" "wstate w = WShutdown timer start (widx w)" by auto
  then have "\<exists>b w'. worker_step conv now True w = Return b w'"
  proof cases
    case 1
    with wc_total_wf [OF wf] show ?thesis
      by (auto simp: worker_step_def handle_stop_def Let_def poll_shutdown_def SHUTDOWN_POLL_INTERVAL_def simp del: of_nat_add)
  next
    case (2 timer start)
    with poll_shutdown_cases [OF wf, of now timer start "widx w"] show ?thesis
      by (auto simp: worker_step_def handle_stop_def)
  qed
  with worker_poll_Return show ?thesis by blast
qed

text \<open>The workers up to \<open>k\<close> are polled.\<close>

lemma sweep:
  assumes y: "stop_inv g T lag t ids y"
  shows "\<exists>z. stop_run lag conv y z \<and> clock z = clock y
    \<and> (\<forall>i < length (st_workers z). i < k \<longrightarrow> may_wait 0 (clock z) (clock z) (st_workers z ! i))"
proof (induction k)
  case 0
  show ?case using sr_start by auto
next
  case (Suc k)
  then obtain z where z: "stop_run lag conv y z" "clock z = clock y"
    "\<forall>i < length (st_workers z). i < k \<longrightarrow> may_wait 0 (clock z) (clock z) (st_workers z ! i)" by blast
  show ?case
  proof (cases "k < length (st_workers z) \<and> snd (st_workers z ! k)")
    case False
    have "may_wait 0 (clock z) (clock z) (st_workers z ! i)" if "i < length (st_workers z)" "i < Suc k" for i
      using False z(3) that by (cases "i = k"; cases "st_workers z ! i") auto
    with z show ?thesis by blast
  next
    case True
    then obtain w where k: "k < length (st_workers z)" "st_workers z ! k = (w, True)" by (metis prod.collapse)
    have ok: "stop_ok g T lag t (clock z) (w, True)"
      using stop_run_inv [OF z(1) y] k by (metis nth_mem stop_inv_def)
    then obtain b w' where p: "worker_poll conv (clock z) w = Some (Ok (b, w'))" using stop_poll_returns by blast
    from poll_settled [OF ok p] z(3) k have "\<forall>i < length (st_workers (set_st k w' (\<not> b) z)). i < Suc k \<longrightarrow>
        may_wait 0 (clock z) (clock z) (st_workers (set_st k w' (\<not> b) z) ! i)"
      by (auto simp: set_st_def nth_list_update less_Suc_eq simp del: may_wait.simps)
    moreover have "stop_run lag conv y (set_st k w' (\<not> b) z)" by (rule sr_step [OF z(1) st_poll [OF k p]])
    ultimately show ?thesis using z(2) by (intro exI [of _ "set_st k w' (\<not> b) z"]) (simp add: set_st_def)
  qed
qed

lemma time_passes:
  assumes y: "stop_inv g T lag t ids y"
  shows "\<exists>z. stop_run lag conv y z \<and> clock z = clock y + n"
proof (induction n)
  case 0
  show ?case using sr_start by auto
next
  case (Suc n)
  then obtain z where z: "stop_run lag conv y z" "clock z = clock y + n" by blast
  note zi = stop_run_inv [OF z(1) y]
  from sweep [OF zi, of conv "length ids"] obtain v where v: "stop_run lag conv z v" "clock v = clock z"
    "\<forall>i < length (st_workers v). i < length ids \<longrightarrow> may_wait 0 (clock v) (clock v) (st_workers v ! i)" by blast
  have "length (st_workers v) = length ids"
    using stop_run_inv [OF v(1) zi] by (auto simp: stop_inv_def)
  with v(3) have "\<forall>p \<in> set (st_workers v). may_wait lag (asked_at v) (clock v) p"
    by (metis in_set_conv_nth may_wait_settled)
  from sr_step [OF stop_run_trans [OF v(1) z(1)] st_tick [OF this]] v(2) z(2) show ?case by fastforce
qed

definition stop_bound :: "bool \<Rightarrow> nat \<Rightarrow> nat \<Rightarrow> nat \<Rightarrow> nat" where
  "stop_bound g T lag t = t + (if g then T + SHUTDOWN_POLL_INTERVAL + 2 * lag else lag)"

lemma alive_bound: "stop_ok g T lag t now (w, True) \<Longrightarrow> now \<le> stop_bound g T lag t"
  by (auto simp: stop_bound_def)

lemma all_end:
  assumes y: "stop_inv g T lag t ids y"
  shows "\<exists>z. stop_run lag conv y z \<and> (\<forall>p \<in> set (st_workers z). \<not> snd p)"
proof -
  from time_passes [OF y, of conv "stop_bound g T lag t + 1"] obtain z where
    z: "stop_run lag conv y z" "stop_bound g T lag t < clock z" by auto
  have "\<not> snd p" if "p \<in> set (st_workers z)" for p
    using stop_run_inv [OF z(1) y] that z(2) alive_bound [of g T lag t "clock z" "fst p"]
    by (cases p) (auto simp: stop_inv_def simp del: stop_ok.simps)
  with z(1) show ?thesis by blast
qed

section \<open>The requests and the answers\<close>

lemma deliver_stops:
  "distinct (map fst hs) \<Longrightarrow> fold deliver_stop (map (\<lambda>(i, ch). EWorkerStop i ch g) hs) ws
     = map (\<lambda>w. if widx w \<in> fst ` set hs then w\<lparr>stop_rx := stop_rx w @ [(g, widx w)]\<rparr> else w) ws"
proof (induction hs arbitrary: ws)
  case (Cons h hs)
  then show ?case by (cases h) auto
qed simp

lemma stop_sent_inv:
  assumes "map widx ws = map fst (worker_handles s)" and "distinct (map widx ws)"
    and ws: "\<forall>w \<in> set ws. running w \<and> replies w = [] \<and> shutdown_timeout w \<le> T"
  shows "stop_inv g T lag t (map widx ws) (stop_sent t (snd (stop_begin g s)) ws)"
proof -
  have i: "fst ` set (worker_handles s) = widx ` set ws" using assms(1) by (metis list.set_map)
  have "fold deliver_stop (snd (stop_begin g s)) ws
      = map (\<lambda>w. if widx w \<in> fst ` set (worker_handles s) then w\<lparr>stop_rx := stop_rx w @ [(g, widx w)]\<rparr> else w) ws"
    using assms(1,2) deliver_stops [of "worker_handles s" g ws] by (cases g) (simp_all add: stop_begin_def)
  also have "\<dots> = map (\<lambda>w. w\<lparr>stop_rx := stop_rx w @ [(g, widx w)]\<rparr>) ws" using i by auto
  finally have d: "fold deliver_stop (snd (stop_begin g s)) ws = map (\<lambda>w. w\<lparr>stop_rx := stop_rx w @ [(g, widx w)]\<rparr>) ws" .
  have "stop_ok g T lag t t (w\<lparr>stop_rx := stop_rx w @ [(g, widx w)]\<rparr>, True)" if "w \<in> set ws" for w
    using ws that worker_env_wf [OF env_stop, of w] by (simp add: running_def)
  then show ?thesis unfolding stop_inv_def stop_sent_def d by (auto simp del: stop_ok.simps)
qed

lemma await_stops_Ready:
  "await_stops y = (if \<exists>p \<in> set (st_workers y). stop_receiver p = Pending then Pending
     else Ready (map (\<lambda>p. map_of (replies (fst p)) (widx (fst p))) (st_workers y)))"
proof -
  let ?ps = "st_workers y"
  let ?one = "\<lambda>p. join_poll_one (JFuture [stop_receiver p])"
  let ?ans = "\<lambda>p. map_of (replies (fst p)) (widx (fst p))"
  have one: "?one p = (if stop_receiver p = Pending then (JFuture [], False) else (JResult (Some (?ans p)), True))" for p
    by (cases p) (auto simp: next_answer_def split: option.splits)
  have take: "\<forall>p \<in> set ps. stop_receiver p \<noteq> Pending \<Longrightarrow> take_results (map fst (map ?one ps)) = Ok (map ?ans ps)" for ps
    by (induction ps) (simp_all add: one del: join_poll_one.simps)
  have n: "list_all snd (map ?one ps) \<longleftrightarrow> (\<forall>p \<in> set ps. stop_receiver p \<noteq> Pending)" for ps
    by (induction ps) (simp_all add: one del: join_poll_one.simps)
  have "map join_poll_one (join_all (map (\<lambda>p. [stop_receiver p]) ?ps)) = map ?one ?ps"
    by (simp add: join_all_def comp_def)
  then have "fst (join_poll (join_all (map (\<lambda>p. [stop_receiver p]) ?ps)))
      = (if \<forall>p \<in> set ?ps. stop_receiver p \<noteq> Pending then Ok (Ready (map ?ans ?ps)) else Ok Pending)"
    using take [of ?ps] by (simp only: join_poll_def Let_def n) simp
  then show ?thesis by (auto simp: await_stops_def simp del: stop_receiver.simps)
qed

lemma stop_ok_receiver: "stop_ok g T lag t now p \<Longrightarrow> stop_receiver p = Pending \<longleftrightarrow> snd p"
  by (cases p) (auto split: if_splits)

text \<open>
  C18. A stop ends every worker in bounded time.  After the stop command has sent its requests at time
  \<open>t\<close> to running workers, in every interleaving of polls, arriving connections, ends of handlers and
  the clock: a worker that has not ended is not past \<open>t + lag\<close> if the stop is forced, and not past the
  shutdown timeout, one poll interval and two lags after \<open>t\<close> if it is graceful; a worker that has ended
  answered exactly once, \<open>true\<close> just when it had no connection left, and \<open>false\<close> to a graceful stop only
  after its shutdown timeout; the server's join of the answers is ready exactly when all workers have
  ended; and from every state of the stop a run leads to that point, with an answer of every worker.
\<close>

theorem stop_ends_workers:
  assumes "map widx ws = map fst (worker_handles s)" and "distinct (map widx ws)"
    and "\<forall>w \<in> set ws. running w \<and> replies w = [] \<and> shutdown_timeout w \<le> T"
    and run: "stop_run lag conv (stop_sent t (snd (stop_begin g s)) ws) y"
  shows "(\<forall>(w, alive) \<in> set (st_workers y).
       if alive then clock y \<le> t + (if g then T + SHUTDOWN_POLL_INTERVAL + 2 * lag else lag)
       else \<exists>r. replies w = [(widx w, r)] \<and> (r \<longleftrightarrow> worker.live w = [] \<and> conn_rx w = [])
          \<and> (g \<and> \<not> r \<longrightarrow> t + shutdown_timeout w \<le> clock y))
    \<and> ((\<exists>rs. await_stops y = Ready rs) \<longleftrightarrow> (\<forall>p \<in> set (st_workers y). \<not> snd p))
    \<and> (\<exists>z rs. stop_run lag conv y z \<and> await_stops z = Ready (map Some rs))"
proof (intro conjI)
  have y: "stop_inv g T lag t (map widx ws) y" by (rule stop_run_inv [OF run stop_sent_inv [OF assms(1-3)]])
  then have ok: "stop_ok g T lag t (clock y) p" if "p \<in> set (st_workers y)" for p using that by (simp add: stop_inv_def)
  show "\<forall>(w, alive) \<in> set (st_workers y).
       if alive then clock y \<le> t + (if g then T + SHUTDOWN_POLL_INTERVAL + 2 * lag else lag)
       else \<exists>r. replies w = [(widx w, r)] \<and> (r \<longleftrightarrow> worker.live w = [] \<and> conn_rx w = [])
          \<and> (g \<and> \<not> r \<longrightarrow> t + shutdown_timeout w \<le> clock y)"
    using ok alive_bound by (fastforce simp: stop_bound_def)
  show "(\<exists>rs. await_stops y = Ready rs) \<longleftrightarrow> (\<forall>p \<in> set (st_workers y). \<not> snd p)"
    using stop_ok_receiver [OF ok] by (simp add: await_stops_Ready)
  from all_end [OF y] obtain z where z: "stop_run lag conv y z" "\<forall>p \<in> set (st_workers z). \<not> snd p" by blast
  let ?rs = "map (\<lambda>p. snd (hd (replies (fst p)))) (st_workers z)"
  have "stop_ok g T lag t (clock z) p" if "p \<in> set (st_workers z)" for p
    using stop_run_inv [OF z(1) y] that by (simp add: stop_inv_def)
  then have "stop_receiver p \<noteq> Pending \<and> map_of (replies (fst p)) (widx (fst p)) = Some (snd (hd (replies (fst p))))"
    if "p \<in> set (st_workers z)" for p
    using that z(2) stop_ok_receiver [of g T lag t "clock z" p] by (cases p) fastforce
  then have "await_stops z = Ready (map Some ?rs)" by (simp add: await_stops_Ready)
  with z(1) show "\<exists>z rs. stop_run lag conv y z \<and> await_stops z = Ready (map Some rs)" by blast
qed

abbreviation busy_worker :: worker where
  "busy_worker \<equiv> (idle_worker [\<lparr>c_io = 1, c_token = 0\<rparr>])\<lparr>stop_rx := []\<rparr>"

theorem stop_ends_workers_witness:
  "\<exists>z rs. stop_run 2 (\<lambda>io. True)
       (stop_sent 100 (snd (stop_begin True (server_start (with_default_workers 1 1) [5]))) [busy_worker]) z
     \<and> await_stops z = Ready (map Some rs)"
proof -
  have m: "map widx [busy_worker] = map fst (worker_handles (server_start (with_default_workers 1 1) [5]))"
    "distinct (map widx [busy_worker])"
    by (simp_all add: server_start_def with_default_workers_def MAX_WORKERS_def)
  have "\<forall>w \<in> set [busy_worker]. running w \<and> replies w = [] \<and> shutdown_timeout w \<le> 30000"
    by (simp add: running_def worker_wf_def)
  from stop_ends_workers [where g = True, OF m this sr_start] show ?thesis by blast
qed

end
