(* ===== verification/Stop_Race.thy ===== *)
theory Stop_Race
  imports Server_Run
begin

text \<open>
  A race between the stop of the server and the accept thread.  The workers end when they read their stop
  requests, and their queues close, while the accept thread may still be busy with a listener and has
  not read the \<open>Stop\<close> in its waker queue (\<open>actix-server/src/accept.rs\<close>, \<open>worker.rs\<close>).
\<close>

section \<open>States of the race\<close>

text \<open>The accept thread's handles once the worker futures have completed and dropped their queues.\<close>

definition workers_gone :: "acc \<Rightarrow> acc" where
  "workers_gone s = s\<lparr>handles := map (\<lambda>h. h\<lparr>h_open := False\<rparr>) (handles s)\<rparr>"

text \<open>What the waker queue holds: the notifications on their way, then the \<open>Stop\<close> of the server.\<close>

definition stop_queue :: "server_sys \<Rightarrow> waker_interest list" where
  "stop_queue y = map WorkerAvailable (concat (map notices (sys_workers y))) @ [Stop]"

abbreviation answers :: svc where
  "answers \<equiv> script [Ready (Ok ()), Ready (Ok ())]"

abbreviation co :: "nat \<Rightarrow> conn" where
  "co n \<equiv> \<lparr>c_io = n, c_token = 0\<rparr>"

abbreviation wk :: "nat \<Rightarrow> usize \<Rightarrow> conn list \<Rightarrow> svc \<Rightarrow> conn list \<Rightarrow> (nat \<times> conn) list \<Rightarrow> nat list \<Rightarrow> worker" where
  "wk i n rx sv lv cs ns \<equiv> \<lparr>conn_rx = rx, stop_rx = [], widx = i, counter = \<lparr>raw = n, limit = 1\<rparr>,
     services = [\<lparr>factory_idx = 0, status = SUnavailable, service = sv\<rparr>], factories = [spent], wstate = WUnavailable,
     shutdown_timeout = 30000, live = lv, calls = cs, replies = [], notices = ns\<rparr>"

abbreviation hd_of :: "nat \<Rightarrow> usize \<Rightarrow> conn list \<Rightarrow> handle" where
  "hd_of i n q \<equiv> \<lparr>h_idx = i, h_open = True, h_queue = q, h_counter = \<lparr>raw = n, limit = 1\<rparr>\<rparr>"

abbreviation acc_at :: "handle list \<Rightarrow> nat \<Rightarrow> availability \<Rightarrow> acc" where
  "acc_at hs k a \<equiv> \<lparr>handles = hs, next_worker = k, next_listener = 0, avail = a, atimeout = None, paused = False,
     socks = [\<lparr>token = 0, backlog = [Ok 3, Ok 4], deadline = None, interest = True\<rparr>], faulted = [], dropped = []\<rparr>"

section \<open>The run\<close>

lemma poll_serves:
  "worker_poll (\<lambda>io. True) now (wk i n [co c] answers [] [] []) = Some (Ok (False, wk i n [] (script []) [co c] [(0, co c)] []))"
  unfolding worker_poll_def
  by (subst worker_run.simps, simp add: worker_step_def handle_stop_def poll_unavailable_def check_readiness_def active_def ask_def,
      subst worker_run.simps, simp add: worker_step_def handle_stop_def poll_available_def check_readiness_def active_def ask_def stream_call_def,
      subst worker_run.simps, simp add: worker_step_def poll_available_def check_readiness_def active_def ask_def,
      subst worker_run.simps, simp add: worker_step_def handle_stop_def poll_unavailable_def check_readiness_def active_def ask_def)

lemma done_notifies: "handler_done 0 (wk i 2 [] (script []) [co c] cs []) = wk i 1 [] (script []) [] cs [i]"
  by (simp add: handler_done_def drop_guard_def guard_dropped_def wc_dec_def Let_def checked_add_def)

lemma stopped_ends:
  "\<exists>w'. worker_poll (\<lambda>io. True) now ((wk i 1 [] sv [] cs ns)\<lparr>stop_rx := [(graceful, i)]\<rparr>) = Some (Ok (True, w'))"
  unfolding worker_poll_def
  by (subst worker_run.simps) (simp add: worker_step_def handle_stop_def wc_total_def Let_def)

text \<open>Two workers with room for one connection each, before the first connection and after both of
  theirs have ended; the second worker's notification is still on its way.\<close>

abbreviation fresh_sys :: server_sys where
  "fresh_sys \<equiv> \<lparr>sys_acc = acc_at [hd_of 0 1 [], hd_of 1 1 []] 0 [3, 0, 0, 0],
     sys_workers = [wk 0 1 [] answers [] [] [], wk 1 1 [] answers [] [] []], taken = []\<rparr>"

abbreviation racing :: server_sys where
  "racing \<equiv> \<lparr>sys_acc = acc_at [hd_of 0 1 [], hd_of 1 1 []] 0 [1, 0, 0, 0],
     sys_workers = [wk 0 1 [] (script []) [] [(0, co 1)] [], wk 1 1 [] (script []) [] [(0, co 2)] [1]], taken = [co 1, co 2]\<rparr>"

lemma dispatch_first:
  "accept_one (co 1) (acc_at [hd_of 0 1 [], hd_of 1 1 []] 0 [3, 0, 0, 0])
     = Some (Ok (acc_at [hd_of 0 2 [co 1], hd_of 1 1 []] 1 [2, 0, 0, 0]))"
  by (simp add: accept_eval)

lemma dispatch_second:
  "accept_one (co 2) (acc_at [hd_of 0 2 [co 1], hd_of 1 1 []] 1 [2, 0, 0, 0])
     = Some (Ok (acc_at [hd_of 0 2 [co 1], hd_of 1 2 [co 2]] 0 [0, 0, 0, 0]))"
  by (simp add: accept_eval)

lemma accept_panics:
  "poll_with [(now, Ok [ListenerEvent 0, WakerEvent [WorkerAvailable 1, Stop]])]
     (workers_gone (acc_at [hd_of 0 1 [], hd_of 1 1 []] 0 [1, 0, 0, 0])) = Some (Err IndexOutOfBounds)"
  by (simp add: workers_gone_def accept_eval accept_all_def)

lemma race_run: "(sys_step (\<lambda>io. True))\<^sup>*\<^sup>* fresh_sys racing"
proof -
  let ?st = "sys_step (\<lambda>io. True)"
  let ?y1 = "\<lparr>sys_acc = acc_at [hd_of 0 2 [co 1], hd_of 1 1 []] 1 [2, 0, 0, 0],
      sys_workers = [wk 0 2 [co 1] answers [] [] [], wk 1 1 [] answers [] [] []], taken = [co 1]\<rparr>"
  let ?y2 = "\<lparr>sys_acc = acc_at [hd_of 0 2 [co 1], hd_of 1 2 [co 2]] 0 [0, 0, 0, 0],
      sys_workers = [wk 0 2 [co 1] answers [] [] [], wk 1 2 [co 2] answers [] [] []], taken = [co 1, co 2]\<rparr>"
  let ?y3 = "\<lparr>sys_acc = acc_at [hd_of 0 2 [], hd_of 1 2 [co 2]] 0 [0, 0, 0, 0],
      sys_workers = [wk 0 2 [] (script []) [co 1] [(0, co 1)] [], wk 1 2 [co 2] answers [] [] []], taken = [co 1, co 2]\<rparr>"
  let ?y4 = "\<lparr>sys_acc = acc_at [hd_of 0 1 [], hd_of 1 2 [co 2]] 0 [0, 0, 0, 0],
      sys_workers = [wk 0 1 [] (script []) [] [(0, co 1)] [0], wk 1 2 [co 2] answers [] [] []], taken = [co 1, co 2]\<rparr>"
  let ?y5 = "\<lparr>sys_acc = acc_at [hd_of 0 1 [], hd_of 1 2 [co 2]] 0 [1, 0, 0, 0],
      sys_workers = [wk 0 1 [] (script []) [] [(0, co 1)] [], wk 1 2 [co 2] answers [] [] []], taken = [co 1, co 2]\<rparr>"
  let ?y6 = "\<lparr>sys_acc = acc_at [hd_of 0 1 [], hd_of 1 2 []] 0 [1, 0, 0, 0],
      sys_workers = [wk 0 1 [] (script []) [] [(0, co 1)] [], wk 1 2 [] (script []) [co 2] [(0, co 2)] []], taken = [co 1, co 2]\<rparr>"
  have s1: "?st fresh_sys ?y1"
    using sys_dispatch [of fresh_sys "co 1" "acc_at [hd_of 0 2 [co 1], hd_of 1 1 []] 1 [2, 0, 0, 0]" "\<lambda>io. True"] dispatch_first
    by (simp add: available_def sync_worker_def)
  have s2: "?st ?y1 ?y2"
    using sys_dispatch [of ?y1 "co 2" "acc_at [hd_of 0 2 [co 1], hd_of 1 2 [co 2]] 0 [0, 0, 0, 0]" "\<lambda>io. True"] dispatch_second
    by (simp add: available_def sync_worker_def)
  have s3: "?st ?y2 ?y3"
    using sys_poll [where i = 0 and y = ?y2 and conv = "\<lambda>io. True" and now = 0 and b = False and w = "wk 0 2 [] (script []) [co 1] [(0, co 1)] []"] poll_serves [where now = 0 and i = 0 and n = 2 and c = 1]
    by (simp add: set_worker_def handle_of_def)
  have s4: "?st ?y3 ?y4"
    using sys_done [of 0 ?y3 0 "\<lambda>io. True"] done_notifies [where i = 0 and c = 1] by (simp add: set_worker_def handle_of_def)
  have s5: "?st ?y4 ?y5"
    using sys_notified [of 0 ?y4 0 "[]" "[1, 0, 0, 0]" "\<lambda>io. True"] by (simp add: avail_eval)
  have s6: "?st ?y5 ?y6"
    using sys_poll [where i = 1 and y = ?y5 and conv = "\<lambda>io. True" and now = 0 and b = False and w = "wk 1 2 [] (script []) [co 2] [(0, co 2)] []"] poll_serves [where now = 0 and i = 1 and n = 2 and c = 2]
    by (simp add: set_worker_def handle_of_def)
  have s7: "?st ?y6 racing"
    using sys_done [of 1 ?y6 0 "\<lambda>io. True"] done_notifies [where i = 1 and c = 2] by (simp add: set_worker_def handle_of_def)
  note step = converse_rtranclp_into_rtranclp [where r = ?st]
  show ?thesis by (rule step, rule s1, rule step, rule s2, rule step, rule s3, rule step, rule s4, rule step, rule s5,
      rule step, rule s6, rule step, rule s7, rule rtranclp.rtrancl_refl)
qed

lemma race_start:
  "spawn_worker 0 1 30000 [spent] [(0, 0, answers)] = Ok (wk 0 1 [] answers [] [] [])"
  "spawn_worker 1 1 30000 [spent] [(0, 0, answers)] = Ok (wk 1 1 [] answers [] [] [])"
  "new_with_sockets [(0, [Ok 3, Ok 4])] [fresh_handle 0 1, fresh_handle 1 1] = Ok (sys_acc fresh_sys)"
  by (simp_all add: spawn_worker_def wrap_worker_services_def wc_new_def accept_eval)

text \<open>
  C19. A stop can panic the accept thread.  There is a run of a server that has just started with two
  workers, after which any stop request, graceful or forced, ends both workers in their next poll.  The
  accept thread serves a listener with two connections waiting before it reads its waker queue, which
  holds the notification of the second worker and then the \<open>Stop\<close>.  It finds the first worker gone, has
  no worker with room left and forces the connection on the second one, which is gone too.  The
  notification then sets the flag of that removed worker, so that the next connection is accepted and
  the lookup of a worker among no handles panics.
\<close>

theorem stop_race_panics:
  "\<exists>w0 w1 s y. spawn_worker 0 1 30000 [spent] [(0, 0, answers)] = Ok w0
     \<and> spawn_worker 1 1 30000 [spent] [(0, 0, answers)] = Ok w1
     \<and> new_with_sockets [(0, [Ok 3, Ok 4])] [fresh_handle 0 1, fresh_handle 1 1] = Ok s
     \<and> (sys_step (\<lambda>io. True))\<^sup>*\<^sup>* \<lparr>sys_acc = s, sys_workers = [w0, w1], taken = []\<rparr> y
     \<and> stop_queue y = [WorkerAvailable 1, Stop]
     \<and> list_all (\<lambda>w. \<exists>w'. worker_poll (\<lambda>io. True) now (w\<lparr>stop_rx := [(graceful, widx w)]\<rparr>) = Some (Ok (True, w'))) (sys_workers y)
     \<and> poll_with [(now, Ok [ListenerEvent 0, WakerEvent (stop_queue y)])] (workers_gone (sys_acc y)) = Some (Err IndexOutOfBounds)"
proof (intro exI conjI)
  show "(sys_step (\<lambda>io. True))\<^sup>*\<^sup>* \<lparr>sys_acc = sys_acc fresh_sys, sys_workers = [wk 0 1 [] answers [] [] [], wk 1 1 [] answers [] [] []],
      taken = []\<rparr> racing" using race_run by simp
  show q: "stop_queue racing = [WorkerAvailable 1, Stop]" by (simp add: stop_queue_def)
  show "list_all (\<lambda>w. \<exists>w'. worker_poll (\<lambda>io. True) now (w\<lparr>stop_rx := [(graceful, widx w)]\<rparr>) = Some (Ok (True, w'))) (sys_workers racing)"
    using stopped_ends [where now = now and graceful = graceful and sv = "script []"] by simp
  show "poll_with [(now, Ok [ListenerEvent 0, WakerEvent (stop_queue racing)])] (workers_gone (sys_acc racing)) = Some (Err IndexOutOfBounds)"
    unfolding q using accept_panics by simp
qed (rule race_start)+

end
