(* ===== verification/Spec2Isabelle.thy ===== *)
theory Spec2Isabelle
  imports Availability Local_Waker Local_Channel Utils_Counter Utils_Future Lines_Codec Framed Lines_Stream
    Byte_String Worker_Counter Accept Accept_Dispatch Accept_Loop Accept_Faults Server_Worker Server_Command
    Server_Handle Server_Shutdown Test_Server Rt_Threads Rt_Runner Service Service_Factory Pipeline Service_Ext Tls_Connect Tls_Client Tls_Client_Factory Tls_Accept
    Tls_Accept_Backends Tls_Thread Macros Server_Start Server_Stop Stop_Race
begin

text \<open>
  A verification library of the actix-net workspace: the crates under \<open>src/\<close> that carry logic of their
  own, translated into definitions, with the theorems that make them correct.

  \<^bold>\<open>The program.\<close>  \<open>actix-server\<close> runs an accept thread and worker threads.  The accept thread polls its
  listeners with mio, takes connections from their backlogs and hands each one to a worker's queue, in
  turn, as long as the worker's flag in the availability set says that it has room; a counter shared
  with the worker limits its connections, and the worker notifies the accept thread through the waker
  queue when room returns.  A worker future polls its services until they are ready, then calls them
  on the queued connections; it restarts a failed service and stops on request, waiting for open
  connections if the stop is graceful.  The server future takes commands and signals and stops
  everything.  \<open>actix-rt\<close> holds the arbiters and the system that such threads run on; \<open>actix-service\<close>
  is the algebra of services and factories; \<open>actix-codec\<close> frames a byte stream; \<open>actix-tls\<close> has the
  connectors and acceptors; \<open>actix-utils\<close>, \<open>local-channel\<close>, \<open>local-waker\<close> and \<open>bytestring\<close> are the parts
  they share.

  \<^bold>\<open>Conventions.\<close>  A struct is a record, an enum a datatype; \<open>&mut self\<close> is a state passed and returned.
  A panic is \<open>Err\<close> of the type \<open>panic\<close> in a \<open>result\<close> (\<open>Prelude\<close>), and an index out of range, an
  arithmetic overflow or an \<open>unwrap\<close> of nothing is such a branch.  Task wakers are numbers, and what a
  call wakes is part of its result.  A future of a library is the list of the answers of its polls
  (\<open>next_answer\<close>, \<open>first_ready\<close>): after the list it stays pending.  The services and factories of a worker,
  which may answer without end, are streams of answers.  \<open>usize\<close> counters that may wrap are
  64-bit words.  Code of other packages is a parameter (mio's poll, sockets, DNS, TLS handshakes, the
  \<open>memchr\<close> search, the tracing library, tokio's watch channel, syn's parsers) with what the code relies
  on as a hypothesis or a locale, and a witness with a concrete instance.

  \<^bold>\<open>Theories.\<close>
  \<^item> \<open>Prelude\<close>: results, polls, panics, I/O errors, checked arithmetic on words; \<open>Utf8\<close>: the encoding and
    its validity check, which the codecs and \<open>Byte_String\<close> need.
  \<^item> \<open>Availability\<close> (\<open>actix-server/src/availability.rs\<close>): the flags of 512 workers in four words.
  \<^item> \<open>Worker_Counter\<close> (\<open>worker.rs\<close>): the connection counter, its guards and the accept thread's handle,
    and every interleaving of the two threads on them: the limit holds without forced sends, a worker
    with room is flagged or has a notification on its way, and a forced send can break both.
  \<^item> \<open>Accept\<close>, \<open>Accept_Dispatch\<close>, \<open>Accept_Loop\<close> (\<open>accept.rs\<close>, \<open>waker_queue.rs\<close>): the accept thread.
    \<open>Accept\<close> has the state and every operation; \<open>Accept_Dispatch\<close> its invariant and the dispatch of one
    connection (delivered once, round robin, faulted workers removed); \<open>Accept_Loop\<close> the loop over
    events, the back-off of failing listeners, pause, resume and stop, from start-up on; \<open>Accept_Faults\<close>
    the same while workers end at any time, for every event but a notification of a worker already removed.  \<open>accept_one\<close> may run for ever in Rust, so it is a \<open>partial_function (option)\<close>: that it returns is proved
    under the invariant, and the theorem on stale notifications shows where it does not.
  \<^item> \<open>Server_Worker\<close> (\<open>worker.rs\<close>, \<open>service.rs\<close>): the worker future as a step function,
    iterated by a \<open>partial_function\<close> since its loops have no bound in the code; a poll that does not return is
    shown to be one that services turn away again and again (\<open>restless\<close>, and \<open>poll_never_returns\<close> has one), and a
    panic to be a restart that fails.  For \<open>calm\<close> services and factories - finitely many answers other than
    \<open>Pending\<close>, no failing restart - the measure \<open>todo\<close> of answers left and queued connections decreases in every
    step, so that every poll returns.  The counter equals queued and open connections in every run, services
    are called only when all are ready, and shutdown completes.
  \<^item> \<open>Server_Start\<close> (\<open>Accept::start\<close>, \<open>ServerWorker::spawn\<close>): workers that create their services in parallel
    and report, and the thread that waits for the reports, in every interleaving; \<open>Server_Run\<close>: accept thread
    and workers together until a stop is requested.  After a start that succeeds,
    limits, flags, notifications and delivery are right in every run until a worker ends by itself, which only a
    failing restart does (\<open>Accept_Faults\<close> goes on from there); a start that fails leaves no worker,
    unless it fails after the reports: then the workers are never stopped.  \<open>Server_Stop\<close>: the stop command
    and the workers on a clock; every worker ends and answers within the shutdown timeout, one poll interval
    of a second and the time the runtime takes to poll it, and then the server's join is ready.  \<open>Stop_Race\<close>: a run in which
    workers that a stop has ended make the accept thread panic before it reads its own \<open>Stop\<close>.
  \<^item> \<open>Server_Command\<close> (\<open>builder.rs\<close>, \<open>server.rs\<close>, \<open>handle.rs\<close>, \<open>signals.rs\<close>, \<open>join_all.rs\<close>): building,
    commands, signals, stopping and dropping the server, over \<open>Socket\<close> (\<open>socket.rs\<close>): listeners, streams
    and their conversion, multipath TCP; \<open>Server_Handle\<close>: handles, their futures
    and the server from await to await, dropped at any of them; \<open>Server_Shutdown\<close> (\<open>shutdown.rs\<close>): the
    graceful shutdown signal, over the effects of a server run; \<open>Test_Server\<close> (\<open>test_server.rs\<close>): how a
    server is launched, and the life of a test server.
  \<^item> \<open>Rt_System\<close> (\<open>actix-rt/src/arbiter.rs\<close>, \<open>system.rs\<close>): arbiter commands and runner, the system
    controller and its end, exit codes; \<open>Rt_Threads\<close>: thread locals, systems, and the threads of arbiters from their
    creation to their end, which a stop of the system reaches in every interleaving; \<open>Rt_Runner\<close>
    (\<open>runtime.rs\<close>, \<open>system.rs\<close>): runtimes, and the runner and the futures that wait for the stop.
  \<^item> \<open>Lines_Codec\<close> (\<open>actix-codec/src/lines.rs\<close>, \<open>bcodec.rs\<close>), \<open>Framed\<close> (\<open>framed.rs\<close>) over any codec and
    transport, and \<open>Lines_Stream\<close>, which puts them together: the lines that come out of a framed stream
    are those of the whole byte stream, however it is chunked, and written lines are read back.
  \<^item> \<open>Local_Waker\<close>, \<open>Local_Channel\<close>, \<open>Utils_Counter\<close>: the single-threaded primitives, each with the
    interleavings of its users: nothing lost or reordered; the channel loses no wake-up, the counter wakes the
    task it refused last and no other.
  \<^item> \<open>Service\<close>, \<open>Service_Factory\<close> (\<open>actix-service/src\<close>): services as records of their three functions,
    the combinators, and contracts: \<open>settles\<close> is the inductive predicate that a future completes in
    every interleaving that keeps an invariant of the shared state, and the locales
    \<open>service_contract\<close>, \<open>service_pair\<close>, \<open>factory_contract\<close> and \<open>factory_pair\<close> make it an interface.
    \<open>Pipeline\<close> (\<open>pipeline.rs\<close>): a pipeline of factories creates the pipeline of their services;
    \<open>Service_Ext\<close> (\<open>ext.rs\<close>, \<open>lib.rs\<close>, \<open>fn_service.rs\<close>): extension methods, conversions, shared pointers.
    \<open>Utils_Future\<close> adds \<open>Either\<close>, \<open>PollFn\<close> and \<open>actix-tracing\<close>.
  \<^item> \<open>Tls_Connect\<close> (\<open>actix-tls/src/connect\<close>): hosts, connection info, resolver and TCP connector, which binds
    the request's local address, over the sockets of the system (\<open>net\<close>);
    \<open>Tls_Client\<close>: the TLS connectors, and the client stack as an instance of the service contracts;
    \<open>Tls_Client_Factory\<close>: the resolver's kinds, the factories, and the stack that they build.
    \<open>Tls_Accept\<close> and \<open>Tls_Accept_Backends\<close> (\<open>accept\<close>): the acceptors, limited by \<open>Utils_Counter\<close>;
    \<open>Tls_Thread\<close>: all acceptors of a thread, of any back end and version, over the one counter they share,
    whose limit the first of them captures, and how far handshakes can exceed it.
  \<^item> \<open>Byte_String\<close> (\<open>bytestring\<close>): validity, splitting and the order of code points; \<open>Macros\<close>
    (\<open>actix-macros\<close>): what \<open>main\<close> and \<open>test\<close> expand to.

  \<^bold>\<open>What the lemmas show.\<close>  Per component: an invariant that every operation keeps (by rule induction
  over the runs), the behaviour of each operation on every branch, and then the properties.  Across
  components: the accept thread over handles and availability, the worker over its counter, the framed
  stream over its codec, the server over the builder's tokens, the TLS client over the service algebra.

  \<^bold>\<open>Not modelled.\<close>  Tokio runtimes and their tasks, which are parameters; the re-exports of \<open>actix-rt\<close>; the polling of the I/O wrappers of TLS streams, which forward;
  certificate stores; the macros of \<open>actix-service\<close>, which are expanded where the code uses them;
  logging and formatting.  Memory ordering
  of the shared counter is taken as sequentially consistent, as its read-modify-write operations are.
\<close>

end
